(* ===== verification/Prelude.thy ===== *)
theory Prelude
  imports Complex_Main "HOL-Library.Word" "HOL-Library.Multiset"
begin

unbundle bit_operations_syntax

text \<open>
  Shared ground of the development: how a run of the library can fail, the result type
  that carries such a failure, the machine-word types of the source, and the lemmas on
  lists and words that several components use.

  The library is C++ for x86-64 Linux. \<open>DIE\<close> and \<open>DIEIF\<close> of
  include/unstickymem/Logger.hpp print a report and call \<open>abort()\<close>; other paths call
  \<open>exit(status)\<close>. Operations whose outcome the C++ standard leaves open (an
  out-of-range float-to-integer conversion, a signed overflow, an access outside an
  array, a null pointer read) end the model's run with \<open>Undefined\<close>, so that a theorem
  that a run succeeds also says that none of them is reached.
\<close>

section \<open>Outcomes of a run\<close>

datatype failure =
    Aborted string      \<comment> \<open>\<open>DIE\<close>/\<open>DIEIF\<close>: message, then \<open>abort()\<close>\<close>
  | Exited int          \<comment> \<open>\<open>exit(status)\<close>\<close>
  | Undefined string    \<comment> \<open>undefined behaviour was reached\<close>

type_synonym 'a result = "failure + 'a"

named_theorems result_simps "evaluation of the result type's combinators"

definition die_if :: "bool \<Rightarrow> string \<Rightarrow> unit result" where
  "die_if c msg = (if c then Inl (Aborted msg) else Inr ())"

definition bind_result :: "'a result \<Rightarrow> ('a \<Rightarrow> 'b result) \<Rightarrow> 'b result" where
  "bind_result r k = (case r of Inl e \<Rightarrow> Inl e | Inr x \<Rightarrow> k x)"

lemma bind_result_simps [simp, result_simps]:
  "bind_result (Inl e) k = Inl e"
  "bind_result (Inr x) k = k x"
  by (simp_all add: bind_result_def)

lemma bind_result_Inr_iff:
  "bind_result r k = Inr y \<longleftrightarrow> (\<exists>x. r = Inr x \<and> k x = Inr y)"
  by (cases r) auto

lemma bind_result_cong [fundef_cong]:
  "r = r' \<Longrightarrow> (\<And>x. r' = Inr x \<Longrightarrow> k x = k' x) \<Longrightarrow> bind_result r k = bind_result r' k'"
  by (cases r') auto

lemma die_if_simps [simp, result_simps]:
  "die_if True msg = Inl (Aborted msg)"
  "die_if False msg = Inr ()"
  by (simp_all add: die_if_def)

lemma die_if_Inr_iff [simp]: "die_if c msg = Inr u \<longleftrightarrow> \<not> c"
  by (simp add: die_if_def)

section \<open>Steps over a state\<close>

text \<open>
  Code that changes state: the state after it and its outcome. A failure keeps the state it was
  reached in.
\<close>

type_synonym ('s, 'a) run = "'s \<Rightarrow> 's \<times> 'a result"

definition then_step :: "('s, 'a) run \<Rightarrow> ('a \<Rightarrow> ('s, 'c) run) \<Rightarrow> ('s, 'c) run" where
  "then_step m k g = (case m g of (g', Inl e) \<Rightarrow> (g', Inl e) | (g', Inr x) \<Rightarrow> k x g')"

definition done_step :: "'a \<Rightarrow> ('s, 'a) run" where
  "done_step x g = (g, Inr x)"

definition fail_step :: "failure \<Rightarrow> ('s, 'a) run" where
  "fail_step e g = (g, Inl e)"

definition lift_result :: "'a result \<Rightarrow> ('s, 'a) run" where
  "lift_result r g = (g, r)"

named_theorems step_simps "evaluation of steps"

lemma then_step_simps [step_simps]:
  "then_step (done_step x) k = k x"
  "then_step (fail_step e) k = fail_step e"
  "then_step (lift_result (Inr x)) k = k x"
  "then_step (lift_result (Inl e)) k = fail_step e"
  by (auto simp: then_step_def done_step_def fail_step_def lift_result_def fun_eq_iff)

lemma then_step_apply:
  "m g = (g', Inr x) \<Longrightarrow> then_step m k g = k x g'"
  "m g = (g', Inl e) \<Longrightarrow> then_step m k g = (g', Inl e)"
  by (simp_all add: then_step_def)

lemma step_apply [step_simps]:
  "done_step x g = (g, Inr x)"
  "fail_step e g = (g, Inl e)"
  "lift_result r g = (g, r)"
  by (simp_all add: done_step_def fail_step_def lift_result_def)

lemma then_step_assoc: "then_step (then_step m k) l = then_step m (\<lambda>x. then_step (k x) l)"
  by (auto simp: then_step_def fun_eq_iff split: prod.splits sum.splits)

text \<open>A sequence that returns: each part returned.\<close>

lemma then_step_Inr_iff:
  "then_step m k g = (g', Inr y) \<longleftrightarrow> (\<exists>g1 x. m g = (g1, Inr x) \<and> k x g1 = (g', Inr y))"
  by (auto simp: then_step_def split: prod.splits sum.splits)

lemma isl_then_step: "isl (snd (m g)) \<Longrightarrow> isl (snd (then_step m k g))"
  by (auto simp: then_step_def isl_def split: prod.splits)

lemma lift_result_Inr_iff [simp]: "lift_result r g = (g', Inr y) \<longleftrightarrow> g' = g \<and> r = Inr y"
  by (auto simp: lift_result_def)

lemma done_step_Inr_iff [simp]: "done_step x g = (g', Inr y) \<longleftrightarrow> g' = g \<and> x = y"
  by (auto simp: done_step_def)

lemma fail_step_Inr [simp]: "fail_step e g \<noteq> (g', Inr y)"
  by (simp add: fail_step_def)

section \<open>Machine words\<close>

type_synonym int32 = "32 word"    \<comment> \<open>C \<open>int\<close>, read with \<open>sint\<close>\<close>
type_synonym u64 = "64 word"      \<comment> \<open>\<open>size_t\<close>, \<open>unsigned long\<close>, \<open>uint64_t\<close>\<close>
type_synonym addr = "64 word"     \<comment> \<open>\<open>void*\<close>, \<open>intptr_t\<close>\<close>

named_theorems word_facts "facts about machine words used by several components"

lemma unat_u64_less [word_facts]: "unat (x :: u64) < 2 ^ 64"
  using unsigned_less [of x] by simp

lemma unat_add_nowrap:
  "unat (x :: u64) + unat y < 2 ^ 64 \<Longrightarrow> unat (x + y) = unat x + unat y"
  by (simp add: unat_word_ariths)

lemma unat_diff_le: "(y :: u64) \<le> x \<Longrightarrow> unat (x - y) = unat x - unat y"
  by (simp add: unat_sub)

lemma unat_of_nat_u64 [simp]: "n < 2 ^ 64 \<Longrightarrow> unat (of_nat n :: u64) = n"
  by (simp add: unat_of_nat)

lemma unat_pow2_int32: "k < 32 \<Longrightarrow> unat (2 ^ k :: int32) = 2 ^ k"
proof -
  assume "k < 32"
  then have "(2 :: nat) ^ k < 2 ^ 32" by (intro power_strict_increasing) auto
  then show ?thesis using unat_of_nat [of "2 ^ k", where 'a = 32] by simp
qed

lemma unat_mask_u64: "k < 64 \<Longrightarrow> unat (mask k :: u64) = 2 ^ k - 1"
proof -
  assume "k < 64"
  then have "(2 :: nat) ^ k < 2 ^ 64" by (intro power_strict_increasing) auto
  then have "unat (of_nat (2 ^ k - 1) :: u64) = 2 ^ k - 1" by (intro unat_of_nat_u64) linarith
  moreover have "of_nat (2 ^ k - 1) = (mask k :: u64)"
    by (simp add: mask_eq_exp_minus_1 of_nat_diff)
  ultimately show ?thesis by metis
qed

lemma unat_join:
  fixes hi lo :: "32 word"
  shows "unat (ucast lo OR push_bit 32 (ucast hi) :: u64) = unat hi * 2 ^ 32 + unat lo"
proof -
  have b: "unat hi < 2 ^ 32" "unat lo < 2 ^ 32" using unsigned_less [of hi] unsigned_less [of lo] by simp_all
  have u: "unat (ucast lo :: u64) = unat lo" "unat (ucast hi :: u64) = unat hi"
    by (simp_all add: unsigned_ucast_eq take_bit_nat_eq_self_iff) (use b in simp_all)
  have "(ucast lo :: u64) AND push_bit 32 (ucast hi) = 0"
    by (rule bit_word_eqI) (auto simp: bit_simps dest: bit_imp_le_length)
  then have "(ucast lo OR push_bit 32 (ucast hi) :: u64) = ucast lo + push_bit 32 (ucast hi)"
    by (rule disjunctive_add_eq_or [symmetric])
  moreover have "push_bit 32 (ucast hi :: u64) = of_nat (unat hi * 2 ^ 32)"
    by (simp add: push_bit_eq_mult)
  moreover have "ucast lo + of_nat (unat hi * 2 ^ 32) = (of_nat (unat hi * 2 ^ 32 + unat lo) :: u64)"
    by (simp add: add.commute)
  ultimately have "(ucast lo OR push_bit 32 (ucast hi) :: u64) = of_nat (unat hi * 2 ^ 32 + unat lo)"
    by (simp only:)
  moreover have "unat hi * 2 ^ 32 + unat lo < 2 ^ 64" using b by simp
  ultimately show ?thesis by (simp only: unat_of_nat_u64)
qed

section \<open>Lists\<close>

text \<open>Consecutive chunks: what a loop that advances a pointer leaves behind.\<close>

fun contiguous_from :: "nat \<Rightarrow> (nat \<times> nat) list \<Rightarrow> bool" where
  "contiguous_from a [] \<longleftrightarrow> True"
| "contiguous_from a ((b, n) # cs) \<longleftrightarrow> b = a \<and> 0 < n \<and> contiguous_from (a + n) cs"

definition total_length :: "(nat \<times> nat) list \<Rightarrow> nat" where
  "total_length cs = sum_list (map snd cs)"

lemma total_length_simps [simp]:
  "total_length [] = 0"
  "total_length (c # cs) = snd c + total_length cs"
  "total_length (cs @ ds) = total_length cs + total_length ds"
  by (simp_all add: total_length_def)

lemma contiguous_from_append:
  "contiguous_from a (cs @ ds) \<longleftrightarrow>
     contiguous_from a cs \<and> contiguous_from (a + total_length cs) ds"
  by (induction a cs rule: contiguous_from.induct) (auto simp: add.assoc)

text \<open>The bytes that a list of chunks covers are exactly one interval, each byte once.\<close>

definition chunk_bytes :: "nat \<times> nat \<Rightarrow> nat set" where
  "chunk_bytes c = {fst c ..< fst c + snd c}"

lemma contiguous_from_bytes:
  "contiguous_from a cs \<Longrightarrow> (\<Union>c \<in> set cs. chunk_bytes c) = {a ..< a + total_length cs}"
proof (induction a cs rule: contiguous_from.induct)
  case (1 a)
  then show ?case by simp
next
  case (2 a b n cs)
  then show ?case by (auto simp: chunk_bytes_def)
qed

lemma contiguous_from_ge:
  "contiguous_from a cs \<Longrightarrow> c \<in> set cs \<Longrightarrow> a \<le> fst c"
  by (induction a cs rule: contiguous_from.induct) auto

lemma contiguous_from_disjoint:
  "contiguous_from a cs \<Longrightarrow> i < j \<Longrightarrow> j < length cs
     \<Longrightarrow> chunk_bytes (cs ! i) \<inter> chunk_bytes (cs ! j) = {}"
proof (induction a cs arbitrary: i j rule: contiguous_from.induct)
  case (1 a)
  then show ?case by simp
next
  case (2 a b n cs)
  show ?case
  proof (cases i)
    case 0
    with "2.prems" obtain j' where j: "j = Suc j'" "j' < length cs"
      by (cases j) auto
    with "2.prems" have "a + n \<le> fst (cs ! j')"
      by (auto intro: contiguous_from_ge)
    with 0 j "2.prems" show ?thesis by (auto simp: chunk_bytes_def)
  next
    case (Suc i')
    with "2.prems" "2.IH" [of i' "j - 1"] show ?thesis by (cases j) auto
  qed
qed

end
