(* ===== verification/Memory_Segment.thy ===== *)
theory Memory_Segment
  imports Prelude
begin

text \<open>
  Memory segments: include/unstickymem/memory/MemorySegment.hpp and
  src/unstickymem/memory/MemorySegment.cpp, with the page arithmetic of
  include/unstickymem/PagePlacement.hpp that they use. A segment names its first and its
  last byte (both inclusive). The page size is an argument \<open>psz\<close> of the definitions: the
  source reads it from \<open>sysconf(_SC_PAGESIZE)\<close>; \<open>page_size_ok\<close> says what it relies on.
\<close>

section \<open>Page arithmetic\<close>

text \<open>\<open>PAGE_MASK\<close> is an \<open>int\<close>; the macros widen it to \<open>intptr_t\<close>, hence \<open>scast\<close>.\<close>

definition page_mask :: "int32 \<Rightarrow> int32" where
  "page_mask psz = NOT (psz - 1)"

definition page_align_down :: "int32 \<Rightarrow> addr \<Rightarrow> addr" where
  "page_align_down psz x = x AND scast (page_mask psz)"

definition page_align_up :: "int32 \<Rightarrow> addr \<Rightarrow> addr" where
  "page_align_up psz x = (x + scast (NOT (page_mask psz))) AND scast (page_mask psz)"

definition page_size_ok :: "int32 \<Rightarrow> bool" where
  "page_size_ok psz \<longleftrightarrow> (\<exists>k < 31. psz = 2 ^ k)"

abbreviation page_bytes :: "int32 \<Rightarrow> nat" where
  "page_bytes psz \<equiv> unat psz"

section \<open>Segments\<close>

record memory_segment =
  start_address :: addr
  end_address :: addr
  segment_name :: string

definition segment_length :: "memory_segment \<Rightarrow> u64" where
  "segment_length s = end_address s - start_address s + 1"

definition page_aligned_start :: "int32 \<Rightarrow> memory_segment \<Rightarrow> addr" where
  "page_aligned_start psz s = page_align_down psz (start_address s)"

definition page_aligned_end :: "int32 \<Rightarrow> memory_segment \<Rightarrow> addr" where
  "page_aligned_end psz s = page_align_up psz (end_address s)"

definition page_aligned_length :: "int32 \<Rightarrow> memory_segment \<Rightarrow> u64" where
  "page_aligned_length psz s = page_aligned_end psz s - page_aligned_start psz s"

definition contains_addr :: "memory_segment \<Rightarrow> addr \<Rightarrow> bool" where
  "contains_addr s a \<longleftrightarrow> start_address s \<le> a \<and> a \<le> end_address s"

definition contains_segment :: "memory_segment \<Rightarrow> memory_segment \<Rightarrow> bool" where
  "contains_segment s t \<longleftrightarrow> contains_addr s (start_address t) \<and> contains_addr s (end_address t)"

definition is_contained_in :: "memory_segment \<Rightarrow> memory_segment \<Rightarrow> bool" where
  "is_contained_in s t \<longleftrightarrow> contains_segment t s"

definition intersects_with :: "memory_segment \<Rightarrow> memory_segment \<Rightarrow> bool" where
  "intersects_with s t \<longleftrightarrow>
     contains_addr s (start_address t) \<or> contains_addr s (end_address t) \<or>
     contains_addr t (start_address s) \<or> contains_addr t (end_address s)"

definition is_disjoint_with :: "memory_segment \<Rightarrow> memory_segment \<Rightarrow> bool" where
  "is_disjoint_with s t \<longleftrightarrow> \<not> intersects_with s t"

text \<open>The bytes of a segment, and a segment that has some.\<close>

definition segment_bytes :: "memory_segment \<Rightarrow> addr set" where
  "segment_bytes s = {start_address s .. end_address s}"

definition segment_wf :: "memory_segment \<Rightarrow> bool" where
  "segment_wf s \<longleftrightarrow> start_address s \<le> end_address s"

section \<open>Page arithmetic: lemmas\<close>

lemma page_mask_eq: "psz = 2 ^ k \<Longrightarrow> page_mask psz = NOT (mask k)"
  by (simp add: page_mask_def mask_eq_exp_minus_1)

lemma scast_not_mask: "k < 31 \<Longrightarrow> (scast (NOT (mask k :: int32)) :: u64) = NOT (mask k)"
  by (rule bit_word_eqI) (auto simp: bit_simps min_def)

lemma scast_mask: "k < 31 \<Longrightarrow> (scast (mask k :: int32) :: u64) = mask k"
  by (rule bit_word_eqI) (auto simp: bit_simps min_def)

lemma page_align_down_eq:
  "psz = 2 ^ k \<Longrightarrow> k < 31 \<Longrightarrow> page_align_down psz x = x AND NOT (mask k)"
  by (simp add: page_align_down_def page_mask_eq scast_not_mask)

lemma page_align_up_eq:
  "psz = 2 ^ k \<Longrightarrow> k < 31 \<Longrightarrow> page_align_up psz x = (x + mask k) AND NOT (mask k)"
  by (simp add: page_align_up_def page_mask_eq scast_not_mask scast_mask)

lemma unat_and_not_mask: "unat ((x :: u64) AND NOT (mask k)) = unat x div 2 ^ k * 2 ^ k"
proof -
  have "unat (x AND NOT (mask k)) = push_bit k (drop_bit k (unat x))"
    by (rule bit_eqI) (auto simp: bit_simps dest: bit_imp_le_length)
  then show ?thesis by (simp add: push_bit_eq_mult drop_bit_eq_div)
qed

lemma page_bytes_eq: "psz = 2 ^ k \<Longrightarrow> k < 31 \<Longrightarrow> page_bytes psz = 2 ^ k"
  by (simp add: unat_pow2_int32)

lemma page_bytes_pos: "page_size_ok psz \<Longrightarrow> 0 < page_bytes psz"
  by (auto simp: page_size_ok_def page_bytes_eq)

text \<open>Widening the page size keeps its value.\<close>

lemma sint_page_size:
  assumes "page_size_ok psz"
  shows "sint psz = int (page_bytes psz)" "unat (scast psz :: u64) = page_bytes psz"
proof -
  obtain k where k: "k < 31" "psz = 2 ^ k" using assms by (auto simp: page_size_ok_def)
  then have b: "page_bytes psz = 2 ^ k" by (simp add: unat_pow2_int32)
  have "(2 :: int) ^ k < 2 ^ 31" using k(1) by (intro power_strict_increasing) auto
  moreover have u: "uint psz = 2 ^ k" using b by (metis int_ops(3) of_nat_power uint_nat numeral_2_eq_2 of_nat_numeral)
  ultimately show s: "sint psz = int (page_bytes psz)"
    using order_trans [OF _ uint_ge_0 [of psz], of "- 2147483648"]
    by (simp add: b sint_uint signed_take_bit_int_eq_self_iff)
  have "(2 :: nat) ^ k < 2 ^ 64" using k(1) by (intro power_strict_increasing) auto
  moreover have "(scast psz :: u64) = of_nat (2 ^ k)"
    unfolding scast_eq s b by (rule of_int_of_nat_eq)
  ultimately show "unat (scast psz :: u64) = page_bytes psz"
    unfolding b by (simp only: unat_of_nat_u64)
qed

lemma unat_page_align_down:
  "page_size_ok psz \<Longrightarrow>
     unat (page_align_down psz x) = unat x div page_bytes psz * page_bytes psz"
  by (auto simp: page_size_ok_def page_bytes_eq page_align_down_eq unat_and_not_mask)

lemma unat_page_align_up:
  assumes "page_size_ok psz" "unat x + page_bytes psz \<le> 2 ^ 64"
  shows "unat (page_align_up psz x) =
    (unat x + page_bytes psz - 1) div page_bytes psz * page_bytes psz"
proof -
  obtain k where k: "k < 31" "psz = 2 ^ k" using assms(1) by (auto simp: page_size_ok_def)
  have m: "unat (mask k :: u64) = 2 ^ k - 1"
    using k by (simp add: unat_mask_u64)
  have "unat x + unat (mask k :: u64) < 2 ^ 64"
    using assms k m by (simp add: page_bytes_eq)
  then have "unat (x + mask k) = unat x + (2 ^ k - 1)"
    by (simp only: unat_add_nowrap m)
  with k show ?thesis
    by (simp add: page_align_up_eq unat_and_not_mask page_bytes_eq)
qed

lemma round_up_bounds:
  assumes "0 < (p :: nat)"
  shows "n \<le> (n + p - 1) div p * p" and "(n + p - 1) div p * p < n + p"
proof -
  have "(n + p - 1) div p * p + (n + p - 1) mod p = n + p - 1" by simp
  moreover have "(n + p - 1) mod p < p" using assms by simp
  ultimately show "n \<le> (n + p - 1) div p * p" "(n + p - 1) div p * p < n + p"
    using assms by linarith+
qed

lemma round_up_exact: "0 < (p :: nat) \<Longrightarrow> p dvd n \<Longrightarrow> (n + p - 1) div p * p = n"
proof -
  assume p: "0 < p" "p dvd n"
  then obtain m where m: "n = m * p" by (auto elim: dvdE)
  have "m * p + p - 1 = m * p + (p - 1)" using p by simp
  moreover have "(m * p + (p - 1)) div p = m"
    using p div_mult_self3 [of p m "p - 1"] by (simp del: One_nat_def)
  ultimately show ?thesis by (simp only: m)
qed

section \<open>Segments: lemmas\<close>

lemma contains_addr_iff_bytes: "contains_addr s a \<longleftrightarrow> a \<in> segment_bytes s"
  by (simp add: contains_addr_def segment_bytes_def)

lemma segment_bytes_nonempty: "segment_wf s \<longleftrightarrow> segment_bytes s \<noteq> {}"
  by (auto simp: segment_wf_def segment_bytes_def)

lemma segment_length_bytes:
  assumes "segment_wf s" and "unat (end_address s) - unat (start_address s) < 2 ^ 64 - 1"
  shows "unat (segment_length s) = unat (end_address s) - unat (start_address s) + 1"
proof -
  have "unat (end_address s - start_address s) = unat (end_address s) - unat (start_address s)"
    using assms(1) by (intro unat_diff_le) (simp add: segment_wf_def)
  then show ?thesis
    using assms(2) unat_add_nowrap [of "end_address s - start_address s" 1]
    by (simp add: segment_length_def)
qed

text \<open>The page-aligned region, as an interval of byte numbers.\<close>

definition aligned_region :: "int32 \<Rightarrow> memory_segment \<Rightarrow> nat set" where
  "aligned_region psz s =
     {unat (page_aligned_start psz s) ..<
      unat (page_aligned_start psz s) + unat (page_aligned_length psz s)}"

lemma page_aligned_start_bounds:
  assumes "page_size_ok psz"
  shows "unat (page_aligned_start psz s) \<le> unat (start_address s)"
    and "unat (start_address s) < unat (page_aligned_start psz s) + page_bytes psz"
    and "page_bytes psz dvd unat (page_aligned_start psz s)"
proof -
  have "unat (start_address s) =
      unat (start_address s) div page_bytes psz * page_bytes psz +
      unat (start_address s) mod page_bytes psz"
    by simp
  moreover have "unat (start_address s) mod page_bytes psz < page_bytes psz"
    using page_bytes_pos [OF assms] by simp
  ultimately show "unat (page_aligned_start psz s) \<le> unat (start_address s)"
    "unat (start_address s) < unat (page_aligned_start psz s) + page_bytes psz"
    "page_bytes psz dvd unat (page_aligned_start psz s)"
    unfolding page_aligned_start_def unat_page_align_down [OF assms] by (linarith, linarith, simp)
qed

lemma page_aligned_end_bounds:
  assumes "page_size_ok psz" "unat (end_address s) + page_bytes psz \<le> 2 ^ 64"
  shows "unat (end_address s) \<le> unat (page_aligned_end psz s)"
    and "unat (page_aligned_end psz s) < unat (end_address s) + page_bytes psz"
    and "page_bytes psz dvd unat (page_aligned_end psz s)"
  using round_up_bounds [OF page_bytes_pos [OF assms(1)], of "unat (end_address s)"]
  by (simp_all add: page_aligned_end_def unat_page_align_up [OF assms])

lemma aligned_region_eq:
  assumes "page_size_ok psz" "segment_wf s" "unat (end_address s) + page_bytes psz \<le> 2 ^ 64"
  shows "aligned_region psz s = {unat (page_aligned_start psz s) ..< unat (page_aligned_end psz s)}"
    and "unat (page_aligned_start psz s) \<le> unat (page_aligned_end psz s)"
proof -
  from assms(2) have "unat (start_address s) \<le> unat (end_address s)"
    by (simp add: segment_wf_def word_le_nat_alt)
  with page_aligned_start_bounds(1) [OF assms(1), of s] page_aligned_end_bounds(1) [OF assms(1,3)]
  show le: "unat (page_aligned_start psz s) \<le> unat (page_aligned_end psz s)" by linarith
  then have "unat (page_aligned_length psz s) =
      unat (page_aligned_end psz s) - unat (page_aligned_start psz s)"
    by (simp add: page_aligned_length_def unat_diff_le word_le_nat_alt)
  with le show "aligned_region psz s =
      {unat (page_aligned_start psz s) ..< unat (page_aligned_end psz s)}"
    by (simp add: aligned_region_def)
qed

section \<open>Properties\<close>

text \<open>
  \<open>PAGE_ALIGN_UP\<close> rounds an address up to the least multiple of the page size that is
  not below it, whenever the sum inside the macro does not run past the address space.
\<close>

theorem page_align_up_least:
  assumes "page_size_ok psz" and "unat x + page_bytes psz \<le> 2 ^ 64"
  shows "x \<le> page_align_up psz x \<and> page_bytes psz dvd unat (page_align_up psz x) \<and>
    (\<forall>y. x \<le> y \<and> page_bytes psz dvd unat y \<longrightarrow> page_align_up psz x \<le> y)"
proof -
  have p: "0 < page_bytes psz" by (rule page_bytes_pos [OF assms(1)])
  note up = unat_page_align_up [OF assms]
  have "unat (page_align_up psz x) \<le> unat y"
    if "unat x \<le> unat y" "page_bytes psz dvd unat y" for y :: addr
  proof -
    have "(unat x + page_bytes psz - 1) div page_bytes psz \<le>
        (unat y + page_bytes psz - 1) div page_bytes psz"
      using that(1) by (intro div_le_mono) linarith
    then have "unat (page_align_up psz x) \<le>
        (unat y + page_bytes psz - 1) div page_bytes psz * page_bytes psz"
      unfolding up by (rule mult_le_mono1)
    also have "\<dots> = unat y" by (rule round_up_exact [OF p that(2)])
    finally show ?thesis .
  qed
  with round_up_bounds(1) [OF p, of "unat x"] show ?thesis
    by (simp add: word_le_nat_alt up)
qed

lemma page_align_up_least_witness:
  "(5000 :: addr) \<le> page_align_up 4096 5000 \<and> page_align_up 4096 5000 \<le> 8192"
proof -
  have "page_size_ok 4096" unfolding page_size_ok_def by (intro exI [of _ 12]) simp
  then show ?thesis using page_align_up_least [of 4096 5000] by simp
qed

text \<open>
  For segments that have bytes, \<open>intersectsWith\<close>, which only looks at the four end
  points, is true exactly when the two segments share a byte; \<open>isDisjointWith\<close> is its
  negation and the test does not depend on the order of its arguments.
\<close>

theorem intersects_iff_common_byte:
  assumes "segment_wf s" and "segment_wf t"
  shows "(intersects_with s t \<longleftrightarrow> segment_bytes s \<inter> segment_bytes t \<noteq> {}) \<and>
    (is_disjoint_with s t \<longleftrightarrow> segment_bytes s \<inter> segment_bytes t = {}) \<and>
    intersects_with t s = intersects_with s t"
proof -
  have "intersects_with s t \<longleftrightarrow> segment_bytes s \<inter> segment_bytes t \<noteq> {}"
  proof
    assume "intersects_with s t"
    with assms show "segment_bytes s \<inter> segment_bytes t \<noteq> {}"
      by (auto simp: intersects_with_def contains_addr_iff_bytes segment_wf_def segment_bytes_def)
  next
    assume "segment_bytes s \<inter> segment_bytes t \<noteq> {}"
    then show "intersects_with s t"
      by (auto simp: intersects_with_def contains_addr_def segment_bytes_def)
  qed
  then show ?thesis by (auto simp: is_disjoint_with_def intersects_with_def)
qed

lemma intersects_iff_common_byte_witness:
  "intersects_with \<lparr>start_address = 16, end_address = 31, segment_name = ''a''\<rparr>
     \<lparr>start_address = 20, end_address = 24, segment_name = ''b''\<rparr>"
proof -
  let ?s = "\<lparr>start_address = 16, end_address = 31, segment_name = ''a''\<rparr>"
  let ?t = "\<lparr>start_address = 20, end_address = 24, segment_name = ''b''\<rparr>"
  have "(20 :: addr) \<in> segment_bytes ?s \<inter> segment_bytes ?t"
    by (simp add: segment_bytes_def)
  then show ?thesis
    using intersects_iff_common_byte [of ?s ?t] by (auto simp: segment_wf_def)
qed

text \<open>
  C40: \<open>pageAlignedEndAddress\<close> rounds the address of the last byte, not the one after it.
  The page-aligned region therefore covers every byte of the segment exactly when its last
  byte is not the first byte of a page; otherwise it stops short of that byte's page.
\<close>

theorem aligned_region_covers_iff:
  assumes "page_size_ok psz" "segment_wf s" "unat (end_address s) + page_bytes psz \<le> 2 ^ 64"
  shows "(unat ` segment_bytes s \<subseteq> aligned_region psz s \<longleftrightarrow>
      \<not> page_bytes psz dvd unat (end_address s)) \<and>
    (page_bytes psz dvd unat (end_address s) \<longrightarrow>
      page_aligned_end psz s = end_address s \<and> unat (end_address s) \<notin> aligned_region psz s)"
proof -
  note st = page_aligned_start_bounds [OF assms(1), of s]
  note en = page_aligned_end_bounds [OF assms(1,3)]
  note reg = aligned_region_eq [OF assms]
  have last: "unat (end_address s) \<in> unat ` segment_bytes s"
    using assms(2) by (simp add: segment_bytes_def segment_wf_def)
  have sub: "unat ` segment_bytes s \<subseteq> {unat (start_address s) .. unat (end_address s)}"
    by (auto simp: segment_bytes_def word_le_nat_alt)
  show ?thesis
  proof (cases "page_bytes psz dvd unat (end_address s)")
    case True
    then have "unat (page_aligned_end psz s) = unat (end_address s)"
      using page_bytes_pos [OF assms(1)]
      by (simp only: page_aligned_end_def unat_page_align_up [OF assms(1,3)] round_up_exact)
    moreover from this have "page_aligned_end psz s = end_address s"
      by (rule unsigned_word_eqI)
    ultimately show ?thesis using last True reg by auto
  next
    case False
    with en have "unat (end_address s) < unat (page_aligned_end psz s)"
      by (metis le_neq_implies_less)
    with False sub st reg show ?thesis by fastforce
  qed
qed

lemma aligned_region_covers_iff_witness:
  "8192 \<notin> aligned_region 4096 \<lparr>start_address = 4096, end_address = 8192, segment_name = ''malloc''\<rparr>"
proof -
  have "page_size_ok 4096" unfolding page_size_ok_def by (intro exI [of _ 12]) simp
  then show ?thesis
    using aligned_region_covers_iff [of 4096
        "\<lparr>start_address = 4096, end_address = 8192, segment_name = ''malloc''\<rparr>"]
    by (simp add: segment_wf_def)
qed

end
