(* ===== verification/Floating.thy ===== *)
theory Floating
  imports Prelude "HOL-Library.Log_Nat"
begin

text \<open>
  The floating-point arithmetic of the source. The library is compiled for x86-64, where
  \<open>float\<close> and \<open>double\<close> are IEEE 754 binary32 and binary64 and every operation rounds
  its exact result to nearest, ties to even. A finite value is the rational number it
  stands for, so the model is exact and computes in the kernel. The sign of a zero is not
  kept: it can only be seen by dividing by a zero, and every divisor in the source that can
  be zero is a sum started at \<open>+0\<close>, or an integer converted to \<open>double\<close>, hence \<open>+0\<close>.
\<close>

section \<open>Rounding a rational to a binary format\<close>

definition pow2 :: "int \<Rightarrow> rat" where
  "pow2 k = 2 powi k"

text \<open>Round half to even, to an integer.\<close>

definition rne :: "rat \<Rightarrow> int" where
  "rne x =
     (let f = \<lfloor>x\<rfloor>; r = x - of_int f
      in if r < 1 / 2 then f else if 1 / 2 < r then f + 1 else if even f then f else f + 1)"

text \<open>The exponent of the leading binary digit of a positive rational.\<close>

definition ilog2 :: "rat \<Rightarrow> int" where
  "ilog2 x =
     (let (n, d) = quotient_of x; k = bitlen n - bitlen d
      in if pow2 k \<le> x then k else k - 1)"

text \<open>
  A format: the digits of the significand, the exponent of the smallest subnormal, and the
  exponent from which on values overflow.
\<close>

record float_format =
  precision :: nat
  min_exponent :: int
  overflow_exponent :: int

definition binary32 :: float_format where
  "binary32 = \<lparr>precision = 24, min_exponent = -149, overflow_exponent = 128\<rparr>"

definition binary64 :: float_format where
  "binary64 = \<lparr>precision = 53, min_exponent = -1074, overflow_exponent = 1024\<rparr>"

definition grid_exponent :: "float_format \<Rightarrow> rat \<Rightarrow> int" where
  "grid_exponent f x = max (ilog2 \<bar>x\<bar> + 1 - int (precision f)) (min_exponent f)"

definition round_grid :: "int \<Rightarrow> rat \<Rightarrow> rat" where
  "round_grid q x = of_int (rne (x / pow2 q)) * pow2 q"

definition round_rat :: "float_format \<Rightarrow> rat \<Rightarrow> rat" where
  "round_rat f x = (if x = 0 then 0 else round_grid (grid_exponent f x) x)"

section \<open>Values and operations\<close>

datatype fp = Fin rat | PInf | NInf | NaN

definition fp_of_rat :: "float_format \<Rightarrow> rat \<Rightarrow> fp" where
  "fp_of_rat f x =
     (let y = round_rat f x
      in if \<bar>y\<bar> < pow2 (overflow_exponent f) then Fin y else if 0 < y then PInf else NInf)"

definition fp_of_int :: "float_format \<Rightarrow> int \<Rightarrow> fp" where
  "fp_of_int f n = fp_of_rat f (of_int n)"

text \<open>Conversion between the formats: exact from \<open>float\<close> to \<open>double\<close>, rounding back.\<close>

fun fp_convert :: "float_format \<Rightarrow> fp \<Rightarrow> fp" where
  "fp_convert f (Fin x) = fp_of_rat f x"
| "fp_convert f v = v"

fun fp_neg :: "fp \<Rightarrow> fp" where
  "fp_neg (Fin x) = Fin (- x)"
| "fp_neg PInf = NInf"
| "fp_neg NInf = PInf"
| "fp_neg NaN = NaN"

fun fp_add :: "float_format \<Rightarrow> fp \<Rightarrow> fp \<Rightarrow> fp" where
  "fp_add f (Fin x) (Fin y) = fp_of_rat f (x + y)"
| "fp_add f NaN v = NaN"
| "fp_add f v NaN = NaN"
| "fp_add f PInf NInf = NaN"
| "fp_add f NInf PInf = NaN"
| "fp_add f PInf v = PInf"
| "fp_add f NInf v = NInf"
| "fp_add f v PInf = PInf"
| "fp_add f v NInf = NInf"

definition fp_sub :: "float_format \<Rightarrow> fp \<Rightarrow> fp \<Rightarrow> fp" where
  "fp_sub f x y = fp_add f x (fp_neg y)"

fun fp_sign :: "fp \<Rightarrow> rat" where
  "fp_sign (Fin x) = sgn x"
| "fp_sign PInf = 1"
| "fp_sign NInf = -1"
| "fp_sign NaN = 0"

definition fp_inf :: "rat \<Rightarrow> fp" where
  "fp_inf s = (if 0 < s then PInf else if s < 0 then NInf else NaN)"

fun fp_mul :: "float_format \<Rightarrow> fp \<Rightarrow> fp \<Rightarrow> fp" where
  "fp_mul f (Fin x) (Fin y) = fp_of_rat f (x * y)"
| "fp_mul f x y = fp_inf (fp_sign x * fp_sign y)"

text \<open>A zero divisor counts as \<open>+0\<close>.\<close>

fun fp_div :: "float_format \<Rightarrow> fp \<Rightarrow> fp \<Rightarrow> fp" where
  "fp_div f (Fin x) (Fin y) = (if y = 0 then fp_inf (sgn x) else fp_of_rat f (x / y))"
| "fp_div f NaN y = NaN"
| "fp_div f x NaN = NaN"
| "fp_div f (Fin x) y = Fin 0"
| "fp_div f x (Fin y) = (if y < 0 then fp_neg x else x)"
| "fp_div f x y = NaN"

text \<open>Comparisons with a NaN are false.\<close>

fun fp_less :: "fp \<Rightarrow> fp \<Rightarrow> bool" where
  "fp_less (Fin x) (Fin y) \<longleftrightarrow> x < y"
| "fp_less NaN y \<longleftrightarrow> False"
| "fp_less x NaN \<longleftrightarrow> False"
| "fp_less NInf y \<longleftrightarrow> y \<noteq> NInf"
| "fp_less x PInf \<longleftrightarrow> x \<noteq> PInf"
| "fp_less x y \<longleftrightarrow> False"

definition fp_eq :: "fp \<Rightarrow> fp \<Rightarrow> bool" where
  "fp_eq x y \<longleftrightarrow> x = y \<and> x \<noteq> NaN"

definition fp_le :: "fp \<Rightarrow> fp \<Rightarrow> bool" where
  "fp_le x y \<longleftrightarrow> fp_less x y \<or> fp_eq x y"

text \<open>Truncation towards zero, as the conversions to integer types do it.\<close>

definition truncate_rat :: "rat \<Rightarrow> int" where
  "truncate_rat x = (if 0 \<le> x then \<lfloor>x\<rfloor> else \<lceil>x\<rceil>)"

text \<open>Out of the target's range, or not finite: the conversion is undefined.\<close>

fun fp_to_u64 :: "fp \<Rightarrow> u64 result" where
  "fp_to_u64 (Fin x) =
     (let n = truncate_rat x
      in if 0 \<le> n \<and> n < 2 ^ 64 then Inr (of_int n) else Inl (Undefined ''float to unsigned long''))"
| "fp_to_u64 v = Inl (Undefined ''float to unsigned long'')"

fun fp_to_int32 :: "fp \<Rightarrow> int result" where
  "fp_to_int32 (Fin x) =
     (let n = truncate_rat x
      in if - (2 ^ 31) \<le> n \<and> n < 2 ^ 31 then Inr n else Inl (Undefined ''float to int''))"
| "fp_to_int32 v = Inl (Undefined ''float to int'')"

text \<open>\<open>round\<close> and \<open>lround\<close> of cmath: to the nearest integer, halves away from zero.\<close>

definition round_away :: "rat \<Rightarrow> int" where
  "round_away x = (if 0 \<le> x then \<lfloor>x + 1 / 2\<rfloor> else \<lceil>x - 1 / 2\<rceil>)"

fun fp_round :: "fp \<Rightarrow> fp" where
  "fp_round (Fin x) = Fin (of_int (round_away x))"
| "fp_round v = v"

section \<open>Powers of two and the leading digit\<close>

lemma pow2_pos [simp]: "0 < pow2 k" "pow2 k \<noteq> 0" "0 \<le> pow2 k" "\<not> pow2 k \<le> 0"
  by (simp_all add: pow2_def linorder_not_le)

lemma pow2_0 [simp]: "pow2 0 = 1"
  by (simp add: pow2_def)

lemma pow2_add: "pow2 (j + k) = pow2 j * pow2 k"
  by (simp add: pow2_def power_int_add)

lemma pow2_Suc: "pow2 (k + 1) = 2 * pow2 k"
  by (simp add: pow2_add) (simp add: pow2_def)

lemma pow2_diff: "pow2 (j - k) = pow2 j / pow2 k"
  by (simp add: pow2_def power_int_diff)

lemma pow2_less_iff [simp]: "pow2 j < pow2 k \<longleftrightarrow> j < k"
  unfolding pow2_def
  by (metis linorder_neqE_linordered_idom one_less_numeral_iff order_less_asym
      power_int_strict_increasing semiring_norm(76))

lemma pow2_le_iff [simp]: "pow2 j \<le> pow2 k \<longleftrightarrow> j \<le> k"
  by (simp flip: linorder_not_less)

lemma pow2_of_nat: "pow2 (int n) = of_int (2 ^ n)"
  by (simp add: pow2_def)

text \<open>Powers of two from one exponent upwards are multiples of each other.\<close>

lemma pow2_multiple: "j \<le> k \<Longrightarrow> \<exists>m. pow2 k = of_int m * pow2 j \<and> 0 < m"
proof -
  assume "j \<le> k"
  then obtain n where "k = j + int n" using zle_iff_zadd by blast
  then have "pow2 k = of_int (2 ^ n) * pow2 j"
    by (simp add: pow2_add pow2_of_nat)
  then show ?thesis by (intro exI [of _ "2 ^ n"]) simp
qed

lemma bitlen_pow2_bounds:
  assumes "0 < n"
  shows "pow2 (bitlen n - 1) \<le> of_int n" and "of_int n < pow2 (bitlen n)"
proof -
  have "1 \<le> bitlen n" using assms by (simp add: bitlen_alt_def)
  then have "pow2 (bitlen n - 1) = of_int (2 ^ nat (bitlen n - 1))"
    and "pow2 (bitlen n) = of_int (2 ^ nat (bitlen n))"
    using pow2_of_nat [of "nat (bitlen n - 1)"] pow2_of_nat [of "nat (bitlen n)"] by simp_all
  with bitlen_bounds [OF assms] show "pow2 (bitlen n - 1) \<le> of_int n" "of_int n < pow2 (bitlen n)"
    by (simp_all only: of_int_le_iff of_int_less_iff)
qed

lemma ilog2_bounds:
  assumes "0 < x"
  shows "pow2 (ilog2 x) \<le> x" and "x < pow2 (ilog2 x + 1)"
proof -
  obtain n d where nd: "quotient_of x = (n, d)" by fastforce
  then have d: "0 < d" and x: "x = of_int n / of_int d"
    by (auto simp: quotient_of_denom_pos quotient_of_div)
  with assms have n: "0 < n" by (simp add: zero_less_divide_iff)
  define k where "k = bitlen n - bitlen d"
  have "x < pow2 (bitlen n) / pow2 (bitlen d - 1)"
    unfolding x using bitlen_pow2_bounds [OF n] bitlen_pow2_bounds [OF d] n d
    by (intro frac_less) auto
  then have up: "x < pow2 (k + 1)"
    by (simp add: k_def flip: pow2_diff) (simp add: algebra_simps)
  have "pow2 (bitlen n - 1) / pow2 (bitlen d) < x"
    unfolding x using bitlen_pow2_bounds [OF n] bitlen_pow2_bounds [OF d] n d
    by (intro frac_less2) auto
  then have low: "pow2 (k - 1) < x"
    by (simp add: k_def flip: pow2_diff) (simp add: algebra_simps)
  have "ilog2 x = (if pow2 k \<le> x then k else k - 1)"
    by (simp add: ilog2_def nd k_def Let_def)
  with up low show "pow2 (ilog2 x) \<le> x" "x < pow2 (ilog2 x + 1)"
    by (auto split: if_splits)
qed

lemma ilog2_unique:
  assumes "pow2 e \<le> x" and "x < pow2 (e + 1)"
  shows "ilog2 x = e"
proof -
  have "0 < x" using assms(1) pow2_pos(1) [of e] by linarith
  with assms ilog2_bounds [of x] have "pow2 e < pow2 (ilog2 x + 1)" "pow2 (ilog2 x) < pow2 (e + 1)"
    by linarith+
  then show ?thesis by simp
qed

lemma ilog2_pow2 [simp]: "ilog2 (pow2 e) = e"
  by (rule ilog2_unique) simp_all

lemma ilog2_mono: "0 < x \<Longrightarrow> x \<le> y \<Longrightarrow> ilog2 x \<le> ilog2 y"
proof -
  assume "0 < x" "x \<le> y"
  with ilog2_bounds [of x] ilog2_bounds [of y] have "pow2 (ilog2 x) < pow2 (ilog2 y + 1)"
    by linarith
  then show ?thesis by simp
qed

section \<open>Rounding half to even\<close>

lemma rne_of_int [simp]: "rne (of_int n) = n"
  by (simp add: rne_def Let_def)

lemma rne_0 [simp]: "rne 0 = 0"
  using rne_of_int [of 0] by simp

lemma rne_error: "\<bar>of_int (rne x) - x\<bar> \<le> 1 / 2"
  using floor_correct [of x] by (auto simp: rne_def Let_def abs_le_iff)

lemma rne_floor_ceiling: "\<lfloor>x\<rfloor> \<le> rne x" "rne x \<le> \<lfloor>x\<rfloor> + 1"
  by (auto simp: rne_def Let_def)

lemma rne_nearest:
  assumes "\<bar>of_int n - x\<bar> < 1 / 2"
  shows "rne x = n"
proof -
  have "\<bar>of_int n - x\<bar> + \<bar>of_int (rne x) - x\<bar> < 1"
    using assms rne_error [of x] by linarith
  then have "\<bar>of_int (rne x) - (of_int n :: rat)\<bar> < 1"
    by linarith
  then have "\<bar>of_int (rne x - n) :: rat\<bar> < 1" by simp
  then show ?thesis by linarith
qed

lemma rne_mono: "x \<le> y \<Longrightarrow> rne x \<le> rne y"
proof (cases "\<lfloor>x\<rfloor> = \<lfloor>y\<rfloor>")
  case True
  assume "x \<le> y"
  with True show ?thesis by (auto simp: rne_def Let_def)
next
  case False
  assume "x \<le> y"
  then have "\<lfloor>x\<rfloor> \<le> \<lfloor>y\<rfloor>" by (rule floor_mono)
  with False have "\<lfloor>x\<rfloor> + 1 \<le> \<lfloor>y\<rfloor>" by simp
  with rne_floor_ceiling [of x] rne_floor_ceiling [of y] show ?thesis by linarith
qed

lemma rne_minus [simp]: "rne (- x) = - rne x"
proof (cases "x = of_int \<lfloor>x\<rfloor>")
  case True
  then show ?thesis by (metis of_int_minus rne_of_int)
next
  case False
  then have "\<lfloor>- x\<rfloor> = - \<lfloor>x\<rfloor> - 1"
    using floor_correct [of x] by (intro floor_unique) (auto simp: less_le)
  then show ?thesis by (auto simp: rne_def Let_def)
qed

section \<open>Rounding to a format\<close>

lemma round_grid_minus [simp]: "round_grid q (- x) = - round_grid q x"
  by (simp add: round_grid_def)

lemma round_grid_mono: "x \<le> y \<Longrightarrow> round_grid q x \<le> round_grid q y"
  by (simp add: round_grid_def divide_right_mono rne_mono)

lemma round_grid_exact [simp]: "round_grid q (of_int m * pow2 q) = of_int m * pow2 q"
  by (simp add: round_grid_def)

lemma round_grid_pow2: "q \<le> k \<Longrightarrow> round_grid q (pow2 k) = pow2 k"
  by (metis pow2_multiple round_grid_exact)

lemma round_grid_error: "\<bar>round_grid q x - x\<bar> \<le> pow2 q / 2"
proof -
  have "round_grid q x - x = (of_int (rne (x / pow2 q)) - x / pow2 q) * pow2 q"
    by (simp add: round_grid_def field_simps)
  then have "\<bar>round_grid q x - x\<bar> = \<bar>of_int (rne (x / pow2 q)) - x / pow2 q\<bar> * pow2 q"
    by (simp add: abs_mult)
  also have "\<dots> \<le> 1 / 2 * pow2 q"
    by (intro mult_right_mono rne_error) simp
  finally show ?thesis by simp
qed

lemma round_rat_0 [simp]: "round_rat f 0 = 0"
  by (simp add: round_rat_def)

lemma round_rat_minus [simp]: "round_rat f (- x) = - round_rat f x"
  by (simp add: round_rat_def grid_exponent_def)

lemma round_rat_nonneg: "0 \<le> x \<Longrightarrow> 0 \<le> round_rat f x"
  using round_grid_mono [of 0 x "grid_exponent f x"] round_grid_exact [of "grid_exponent f x" 0]
  by (simp add: round_rat_def)

lemma round_rat_mono_pos:
  assumes "0 < precision f" "0 < x" "x \<le> y"
  shows "round_rat f x \<le> round_rat f y"
proof (cases "grid_exponent f x = grid_exponent f y")
  case True
  with assms show ?thesis by (simp add: round_rat_def round_grid_mono)
next
  case False
  let ?qx = "grid_exponent f x" and ?qy = "grid_exponent f y" and ?e = "ilog2 y"
  have y: "0 < y" and e: "ilog2 x \<le> ?e" using assms by (auto intro: ilog2_mono)
  with False assms have q: "?qx \<le> ?e" "?qy \<le> ?e" "ilog2 x + 1 \<le> ?e"
    by (auto simp: grid_exponent_def max_def split: if_splits)
  have "x \<le> pow2 ?e"
    using ilog2_bounds(2) [OF \<open>0 < x\<close>] pow2_le_iff [of "ilog2 x + 1" ?e] q by linarith
  then have "round_grid ?qx x \<le> round_grid ?qx (pow2 ?e)" by (rule round_grid_mono)
  also have "\<dots> = round_grid ?qy (pow2 ?e)" using q by (simp add: round_grid_pow2)
  also have "\<dots> \<le> round_grid ?qy y" by (intro round_grid_mono ilog2_bounds(1) y)
  finally show ?thesis using assms y by (simp add: round_rat_def)
qed

lemma round_rat_mono:
  assumes "0 < precision f" "x \<le> y"
  shows "round_rat f x \<le> round_rat f y"
proof -
  consider "0 < x" | "x \<le> 0" "0 \<le> y" | "y < 0" by linarith
  then show ?thesis
  proof cases
    case 1
    with assms show ?thesis by (intro round_rat_mono_pos)
  next
    case 2
    then show ?thesis
      using round_rat_nonneg [of y f] round_rat_nonneg [of "- x" f] by simp
  next
    case 3
    with assms round_rat_mono_pos [of f "- y" "- x"] show ?thesis by simp
  qed
qed

text \<open>The values a format can hold, apart from its overflow bound.\<close>

definition representable :: "float_format \<Rightarrow> rat \<Rightarrow> bool" where
  "representable f x \<longleftrightarrow>
     (\<exists>m q. x = of_int m * pow2 q \<and> \<bar>m\<bar> \<le> 2 ^ precision f \<and> min_exponent f \<le> q)"

lemma pow2_grid_multiple:
  assumes "j \<le> k"
  shows "round_grid j (of_int m * pow2 k) = of_int m * pow2 k"
proof -
  obtain l where "pow2 k = of_int l * pow2 j" using pow2_multiple [OF assms] by blast
  then have "of_int m * pow2 k = of_int (m * l) * pow2 j" by simp
  then show ?thesis by (simp only: round_grid_exact)
qed

lemma round_rat_representable:
  assumes "representable f x" and "0 < precision f"
  shows "round_rat f x = x"
proof (cases "x = 0")
  case False
  from assms obtain m q where x: "x = of_int m * pow2 q" and m: "\<bar>m\<bar> \<le> 2 ^ precision f"
    and q: "min_exponent f \<le> q" by (auto simp: representable_def)
  have abs: "\<bar>x\<bar> = of_int \<bar>m\<bar> * pow2 q" by (simp add: x abs_mult)
  also have "\<dots> \<le> of_int (2 ^ precision f) * pow2 q"
    using m by (intro mult_right_mono) (simp_all only: of_int_le_iff pow2_pos)
  also have "\<dots> = pow2 (int (precision f) + q)"
    by (simp add: pow2_add pow2_of_nat)
  finally have le: "\<bar>x\<bar> \<le> pow2 (int (precision f) + q)" .
  show ?thesis
  proof (cases "\<bar>x\<bar> = pow2 (int (precision f) + q)")
    case True
    then have s: "x = pow2 (int (precision f) + q) \<or> x = - pow2 (int (precision f) + q)" by linarith
    have "grid_exponent f x \<le> int (precision f) + q"
      using True q assms(2) by (simp add: grid_exponent_def)
    with s False show ?thesis by (auto simp: round_rat_def round_grid_pow2)
  next
    case ne: False
    with le have "\<bar>x\<bar> < pow2 (int (precision f) + q)" by simp
    moreover have "pow2 (ilog2 \<bar>x\<bar>) \<le> \<bar>x\<bar>" using False by (intro ilog2_bounds) simp
    ultimately have "pow2 (ilog2 \<bar>x\<bar>) < pow2 (int (precision f) + q)" by linarith
    then have "grid_exponent f x \<le> q" using q by (simp add: grid_exponent_def)
    with False show ?thesis by (simp add: round_rat_def x pow2_grid_multiple)
  qed
qed simp

lemma representable_of_int:
  assumes "\<bar>n\<bar> \<le> 2 ^ precision f" "min_exponent f \<le> 0"
  shows "representable f (of_int n)"
  using assms unfolding representable_def by (intro exI [of _ n] exI [of _ 0]) simp

text \<open>
  The standard error bound: away from the subnormals, rounding changes a value by at most
  half a unit in the last place, a relative error of \<open>2 powi (- precision)\<close>.
\<close>

definition unit_roundoff :: "float_format \<Rightarrow> rat" where
  "unit_roundoff f = pow2 (- int (precision f))"

lemma round_rat_error:
  assumes "pow2 (min_exponent f + int (precision f) - 1) \<le> \<bar>x\<bar>"
  shows "\<bar>round_rat f x - x\<bar> \<le> unit_roundoff f * \<bar>x\<bar>"
proof -
  have x: "x \<noteq> 0" using assms pow2_pos(1) [of "min_exponent f + int (precision f) - 1"] by auto
  have "pow2 (min_exponent f + int (precision f) - 1) < pow2 (ilog2 \<bar>x\<bar> + 1)"
    using assms ilog2_bounds(2) [of "\<bar>x\<bar>"] x by linarith
  then have q: "grid_exponent f x = ilog2 \<bar>x\<bar> + 1 - int (precision f)"
    by (simp add: grid_exponent_def)
  have "\<bar>round_rat f x - x\<bar> \<le> pow2 (grid_exponent f x) / 2"
    using x round_grid_error by (simp add: round_rat_def)
  also have "\<dots> = pow2 (ilog2 \<bar>x\<bar>) * unit_roundoff f"
    by (simp add: q unit_roundoff_def pow2_diff pow2_Suc flip: pow2_add)
  also have "\<dots> \<le> \<bar>x\<bar> * unit_roundoff f"
    using x by (intro mult_right_mono ilog2_bounds) (simp_all add: unit_roundoff_def)
  finally show ?thesis by (simp add: mult.commute)
qed

lemma fp_of_rat_bounded:
  assumes "\<bar>x\<bar> \<le> pow2 k" "k < overflow_exponent f" "min_exponent f \<le> k" "0 < precision f"
  shows "fp_of_rat f x = Fin (round_rat f x)" and "\<bar>round_rat f x\<bar> \<le> pow2 k"
proof -
  have "pow2 k = of_int 1 * pow2 k" by simp
  then have k: "round_rat f (pow2 k) = pow2 k"
    using assms by (intro round_rat_representable) (auto simp: representable_def intro!: exI)
  have "round_rat f x \<le> round_rat f (pow2 k)" "round_rat f (- x) \<le> round_rat f (pow2 k)"
    using assms by (intro round_rat_mono; simp add: abs_le_iff)+
  then show le: "\<bar>round_rat f x\<bar> \<le> pow2 k" by (simp add: k abs_le_iff)
  have "pow2 k < pow2 (overflow_exponent f)" using assms(2) by simp
  with le have "\<bar>round_rat f x\<bar> < pow2 (overflow_exponent f)" by linarith
  then show "fp_of_rat f x = Fin (round_rat f x)" by (simp add: fp_of_rat_def Let_def)
qed

lemma fp_of_rat_representable:
  assumes "representable f x" "\<bar>x\<bar> < pow2 (overflow_exponent f)" "0 < precision f"
  shows "fp_of_rat f x = Fin x"
  using assms by (simp add: fp_of_rat_def Let_def round_rat_representable)

text \<open>The absolute error below a bound, also for subnormal values.\<close>

lemma round_rat_abs_error:
  assumes "\<bar>x\<bar> < pow2 k" "min_exponent f \<le> k - int (precision f)"
  shows "\<bar>round_rat f x - x\<bar> \<le> pow2 (k - int (precision f)) / 2"
proof (cases "x = 0")
  case False
  then have "pow2 (ilog2 \<bar>x\<bar>) \<le> \<bar>x\<bar>" by (intro ilog2_bounds) simp
  from this assms(1) have "pow2 (ilog2 \<bar>x\<bar>) < pow2 k" by (rule order_le_less_trans)
  then have "grid_exponent f x \<le> k - int (precision f)" using assms(2) by (simp add: grid_exponent_def)
  then have "pow2 (grid_exponent f x) \<le> pow2 (k - int (precision f))" by (simp only: pow2_le_iff)
  then have "\<bar>round_grid (grid_exponent f x) x - x\<bar> \<le> pow2 (k - int (precision f)) / 2"
    using round_grid_error [of "grid_exponent f x" x] by linarith
  with False show ?thesis by (simp only: round_rat_def if_False)
qed (simp add: pow2_pos less_imp_le)

text \<open>A rounded value is one that the format holds.\<close>

lemma representable_round_rat: "representable f (round_rat f x)"
proof (cases "x = 0")
  case True
  then show ?thesis unfolding representable_def by (intro exI [of _ 0] exI [of _ "min_exponent f"]) simp
next
  case False
  let ?q = "grid_exponent f x"
  have "ilog2 \<bar>x\<bar> + 1 \<le> ?q + int (precision f)" by (simp add: grid_exponent_def)
  then have "pow2 (ilog2 \<bar>x\<bar> + 1) \<le> pow2 (?q + int (precision f))" by (simp only: pow2_le_iff)
  then have "\<bar>x\<bar> < pow2 ?q * pow2 (int (precision f))"
    using ilog2_bounds(2) [of "\<bar>x\<bar>"] False by (simp add: pow2_add)
  then have "\<bar>x / pow2 ?q\<bar> < of_int (2 ^ precision f)"
    by (simp add: abs_divide divide_less_eq pow2_of_nat mult.commute)
  then have b: "x / pow2 ?q \<le> of_int (2 ^ precision f)" "- of_int (2 ^ precision f) \<le> x / pow2 ?q"
    unfolding abs_less_iff by linarith+
  have "\<bar>rne (x / pow2 ?q)\<bar> \<le> 2 ^ precision f"
    using rne_mono [OF b(1)] rne_mono [OF b(2)] rne_of_int [of "2 ^ precision f"]
    by (simp add: abs_le_iff)
  moreover have "min_exponent f \<le> ?q" by (simp add: grid_exponent_def)
  ultimately show ?thesis
    using False unfolding representable_def round_rat_def round_grid_def by auto
qed

lemma round_rat_idem: "0 < precision f \<Longrightarrow> round_rat f (round_rat f x) = round_rat f x"
  by (rule round_rat_representable [OF representable_round_rat])

text \<open>Concrete values that a format holds exactly, for runs on concrete inputs.\<close>

named_theorems exact_fp "exact floating-point operations on small numerals"

lemma fp_of_rat_dyadic:
  assumes "x * 2 ^ k = of_int n" "k \<le> 100" "\<bar>n\<bar> \<le> 16777216" "f = binary32 \<or> f = binary64"
  shows "fp_of_rat f x = Fin x"
proof (rule fp_of_rat_representable)
  have x: "x = of_int n * pow2 (- int k)"
    using assms(1) by (simp add: pow2_def power_int_minus field_simps)
  show "representable f x" unfolding representable_def
    using assms by (intro exI [of _ n] exI [of _ "- int k"] conjI x) (auto simp: binary32_def binary64_def)
  have "\<bar>x\<bar> \<le> of_int \<bar>n\<bar> * 1"
    unfolding x abs_mult using pow2_le_iff [of "- int k" 0] by (intro mult_mono) (auto simp del: pow2_le_iff)
  also have "\<dots> \<le> of_int 16777216" using assms(3) by (simp only: mult_1_right of_int_le_iff)
  also have "\<dots> = pow2 24" using pow2_of_nat [of 24] by simp
  also have "\<dots> < pow2 (overflow_exponent f)" using assms(4) by (auto simp: binary32_def binary64_def)
  finally show "\<bar>x\<bar> < pow2 (overflow_exponent f)" .
qed (use assms(4) in \<open>auto simp: binary32_def binary64_def\<close>)

lemma fp_of_rat_exact [exact_fp]:
  assumes "f = binary32 \<or> f = binary64"
  shows "fp_of_rat f 0 = Fin 0" "fp_of_rat f 1 = Fin 1" "fp_of_rat f (- 1) = Fin (- 1)"
    "numeral n \<le> (16777216 :: int) \<Longrightarrow> fp_of_rat f (numeral n) = Fin (numeral n)"
    "numeral n \<le> (16777216 :: int) \<Longrightarrow> fp_of_rat f (- numeral n) = Fin (- numeral n)"
    "numeral n \<le> (16777216 :: int) \<Longrightarrow> numeral d \<in> {2, 4, 8, 16, 32 :: rat} \<Longrightarrow>
       fp_of_rat f (numeral n / numeral d) = Fin (numeral n / numeral d)"
    "numeral d \<in> {2, 4, 8, 16, 32 :: rat} \<Longrightarrow> fp_of_rat f (1 / numeral d) = Fin (1 / numeral d)"
proof -
  note dy = fp_of_rat_dyadic [OF _ _ _ assms]
  show "fp_of_rat f 0 = Fin 0" "fp_of_rat f 1 = Fin 1" "fp_of_rat f (- 1) = Fin (- 1)"
    using dy [of 0 0 0] dy [of 1 0 1] dy [of "- 1" 0 "- 1"] by simp_all
  show "numeral n \<le> (16777216 :: int) \<Longrightarrow> fp_of_rat f (numeral n) = Fin (numeral n)"
    "numeral n \<le> (16777216 :: int) \<Longrightarrow> fp_of_rat f (- numeral n) = Fin (- numeral n)"
    using dy [of "numeral n" 0 "numeral n"] dy [of "- numeral n" 0 "- numeral n"] by simp_all
  show "numeral d \<in> {2, 4, 8, 16, 32 :: rat} \<Longrightarrow> fp_of_rat f (1 / numeral d) = Fin (1 / numeral d)"
    using dy [of "1 / 2" 1 1] dy [of "1 / 4" 2 1] dy [of "1 / 8" 3 1] dy [of "1 / 16" 4 1]
      dy [of "1 / 32" 5 1] by auto
  show "numeral n \<le> (16777216 :: int) \<Longrightarrow> numeral d \<in> {2, 4, 8, 16, 32 :: rat} \<Longrightarrow>
       fp_of_rat f (numeral n / numeral d) = Fin (numeral n / numeral d)"
    using dy [of "numeral n / 2" 1 "numeral n"] dy [of "numeral n / 4" 2 "numeral n"]
      dy [of "numeral n / 8" 3 "numeral n"] dy [of "numeral n / 16" 4 "numeral n"]
      dy [of "numeral n / 32" 5 "numeral n"] by auto
qed

text \<open>
  Evaluation on concrete values: the leading exponent \<open>e\<close> and the rounded significand
  \<open>m\<close> are given, and linear arithmetic checks them.
\<close>

lemma round_rat_certified:
  assumes "pow2 e \<le> x" "x < pow2 (e + 1)"
    and "q = max (e + 1 - int (precision f)) (min_exponent f)"
    and "\<bar>of_int m - x / pow2 q\<bar> < 1 / 2"
  shows "round_rat f x = of_int m * pow2 q"
proof -
  have "0 < x" using assms(1) pow2_pos(1) [of e] by linarith
  moreover have "ilog2 x = e" using assms(1,2) by (rule ilog2_unique)
  ultimately have "round_rat f x = round_grid q x"
    by (simp add: round_rat_def grid_exponent_def assms(3))
  also have "rne (x / pow2 q) = m" by (rule rne_nearest) (rule assms(4))
  then have "round_grid q x = of_int m * pow2 q" by (simp add: round_grid_def)
  finally show ?thesis .
qed

section \<open>Error analysis, for any rounding that keeps the laws\<close>

lemma Bernoulli_inequality_rat: "- 1 \<le> (x :: rat) \<Longrightarrow> 1 + of_nat n * x \<le> (1 + x) ^ n"
proof (induction n)
  case (Suc n)
  have "0 \<le> of_nat n * (x * x)" by simp
  then have "1 + of_nat (Suc n) * x \<le> (1 + of_nat n * x) * (1 + x)" by (simp add: algebra_simps)
  also have "\<dots> \<le> (1 + x) ^ n * (1 + x)" using Suc by (intro mult_right_mono) auto
  finally show ?case by (simp add: mult.commute)
qed simp

lemma round_rat_pow2:
  assumes "min_exponent f \<le> k" "0 < precision f"
  shows "round_rat f (pow2 k) = pow2 k"
proof (rule round_rat_representable [OF _ assms(2)])
  have "pow2 k = of_int 1 * pow2 k" by simp
  then show "representable f (pow2 k)"
    using assms(1) unfolding representable_def by (intro exI [of _ 1] exI [of _ k]) auto
qed

text \<open>
  \<open>within k x' x\<close>: the computed \<open>x'\<close> carries at most \<open>k\<close> roundings of the exact \<open>x\<close>.
\<close>

definition within_roundings :: "rat \<Rightarrow> nat \<Rightarrow> rat \<Rightarrow> rat \<Rightarrow> bool" where
  "within_roundings u k x' x \<longleftrightarrow> (1 - u) ^ k * x \<le> x' \<and> x' \<le> (1 + u) ^ k * x"

locale rounding =
  fixes rnd :: "rat \<Rightarrow> rat" and u :: rat and tiny :: rat
  assumes rnd_mono: "x \<le> y \<Longrightarrow> rnd x \<le> rnd y"
    and rnd_zero: "rnd 0 = 0"
    and rnd_minus: "rnd (- x) = - rnd x"
    and rnd_error: "tiny \<le> \<bar>x\<bar> \<Longrightarrow> \<bar>rnd x - x\<bar> \<le> u * \<bar>x\<bar>"
    and u_range: "0 \<le> u" "u < 1"
begin

lemma rnd_nonneg: "0 \<le> x \<Longrightarrow> 0 \<le> rnd x"
  using rnd_mono [of 0 x] by (simp add: rnd_zero)

lemma rnd_le_fixed: "x \<le> y \<Longrightarrow> rnd y = y \<Longrightarrow> rnd x \<le> y"
  using rnd_mono [of x y] by simp

lemma rnd_ge_fixed: "y \<le> x \<Longrightarrow> rnd y = y \<Longrightarrow> y \<le> rnd x"
  using rnd_mono [of y x] by simp

lemma rnd_within:
  assumes "0 < tiny" "0 \<le> x" "x = 0 \<or> tiny \<le> x"
  shows "within_roundings u 1 (rnd x) x"
proof -
  from assms consider "x = 0" | "tiny \<le> \<bar>x\<bar>" "0 < x" by fastforce
  then show ?thesis
  proof cases
    case 2
    from rnd_error [OF 2(1)] 2(2) have "\<bar>rnd x - x\<bar> \<le> u * x" by simp
    then show ?thesis by (simp add: within_roundings_def abs_le_iff algebra_simps)
  qed (simp add: within_roundings_def rnd_zero)
qed

lemma within_nonneg: "within_roundings u k x' x \<Longrightarrow> 0 \<le> x \<Longrightarrow> 0 \<le> x'"
  using u_range by (auto simp: within_roundings_def intro: order_trans [rotated])

lemma within_mult:
  assumes "within_roundings u j x' x" "within_roundings u k y' y" "0 \<le> x" "0 \<le> y"
  shows "within_roundings u (j + k) (x' * y') (x * y)"
proof -
  have pos: "0 \<le> x'" "0 \<le> y'" using assms within_nonneg by auto
  have "((1 - u) ^ j * x) * ((1 - u) ^ k * y) \<le> x' * y'"
    using assms u_range pos by (intro mult_mono) (auto simp: within_roundings_def)
  moreover have "x' * y' \<le> ((1 + u) ^ j * x) * ((1 + u) ^ k * y)"
    using assms u_range pos by (intro mult_mono) (auto simp: within_roundings_def)
  ultimately show ?thesis by (simp add: within_roundings_def power_add algebra_simps)
qed

lemma within_trans:
  assumes "within_roundings u j x'' x'" "within_roundings u k x' x" "0 \<le> x"
  shows "within_roundings u (j + k) x'' x"
proof -
  have "(1 - u) ^ j * ((1 - u) ^ k * x) \<le> (1 - u) ^ j * x'"
    and "(1 + u) ^ j * x' \<le> (1 + u) ^ j * ((1 + u) ^ k * x)"
    using assms u_range by (auto simp: within_roundings_def intro!: mult_left_mono)
  with assms(1) show ?thesis by (auto simp: within_roundings_def power_add mult.assoc)
qed

lemma within_exact: "0 \<le> x \<Longrightarrow> within_roundings u 0 x x"
  by (simp add: within_roundings_def)

text \<open>A rounded product of two computed values.\<close>

lemma rnd_mult_within:
  assumes "within_roundings u j x' x" "within_roundings u k y' y" "0 \<le> x" "0 \<le> y"
    and "0 < tiny" "x' * y' = 0 \<or> tiny \<le> x' * y'"
  shows "within_roundings u (1 + (j + k)) (rnd (x' * y')) (x * y)"
proof -
  have "0 \<le> x' * y'" using assms within_nonneg by (intro mult_nonneg_nonneg) auto
  with assms have "within_roundings u 1 (rnd (x' * y')) (x' * y')" by (intro rnd_within)
  then show ?thesis
    by (rule within_trans [OF _ within_mult [OF assms(1-4)]]) (use assms in simp)
qed

text \<open>
  The amount \<open>c * (b / 100) * s\<close> that the placement functions compute, evaluated from left
  to right from a computed weight \<open>b'\<close> and a computed size \<open>s'\<close>.
\<close>

lemma share_within:
  assumes tiny: "0 < tiny" "tiny \<le> lo" "rnd lo = lo"
    and b: "within_roundings u j b' b" "0 \<le> b" "b' = 0 \<or> 100 * lo \<le> b'"
    and s: "within_roundings u k s' s" "0 \<le> s" "s' = 0 \<or> 1 \<le> s'"
    and c: "1 \<le> c"
  shows "within_roundings u (j + k + 3) (rnd (rnd (c * rnd (b' / 100)) * s')) (c * (b / 100) * s)"
proof -
  have lo: "0 < lo" using tiny by linarith
  have q: "within_roundings u (1 + j) (rnd (b' / 100)) (b / 100)"
  proof -
    have "within_roundings u j (b' / 100) (b / 100)" using b(1) by (simp add: within_roundings_def)
    moreover have "within_roundings u 1 (rnd (b' / 100)) (b' / 100)"
      using tiny b lo within_nonneg [OF b(1,2)] by (intro rnd_within) auto
    ultimately show ?thesis by (intro within_trans) (use b in simp_all)
  qed
  have q_lo: "rnd (b' / 100) = 0 \<or> lo \<le> rnd (b' / 100)"
    using b(3) rnd_ge_fixed [OF _ tiny(3), of "b' / 100"] by (auto simp: rnd_zero)
  then have cq: "c * rnd (b' / 100) = 0 \<or> lo \<le> c * rnd (b' / 100)"
    using c lo mult_mono [of 1 c lo "rnd (b' / 100)"] by auto
  have p: "within_roundings u (1 + (0 + (1 + j))) (rnd (c * rnd (b' / 100))) (c * (b / 100))"
    using cq tiny c b by (intro rnd_mult_within within_exact q) auto
  have "rnd (c * rnd (b' / 100)) = 0 \<or> lo \<le> rnd (c * rnd (b' / 100))"
    using cq rnd_ge_fixed [OF _ tiny(3)] by (auto simp: rnd_zero)
  then have "rnd (c * rnd (b' / 100)) * s' = 0 \<or> lo \<le> rnd (c * rnd (b' / 100)) * s'"
    using s(3) lo mult_mono [of lo "rnd (c * rnd (b' / 100))" 1 s'] by auto
  then have "within_roundings u (1 + ((1 + (0 + (1 + j))) + k))
      (rnd (rnd (c * rnd (b' / 100)) * s')) (c * (b / 100) * s)"
    using tiny b c s(2) by (intro rnd_mult_within p s(1)) auto
  moreover have "1 + ((1 + (0 + (1 + j))) + k) = j + k + 3" by simp
  ultimately show ?thesis by (simp only:)
qed

lemma within_error:
  assumes "within_roundings u k x' x" "0 \<le> x"
  shows "\<bar>x' - x\<bar> \<le> ((1 + u) ^ k - 1) * x"
proof -
  have "1 + of_nat k * u \<le> (1 + u) ^ k" "1 + of_nat k * (- u) \<le> (1 + - u) ^ k"
    using u_range by (intro Bernoulli_inequality_rat; simp)+
  then have "1 - ((1 + u) ^ k - 1) \<le> (1 - u) ^ k" by simp
  then have "(1 - ((1 + u) ^ k - 1)) * x \<le> (1 - u) ^ k * x"
    using assms(2) by (intro mult_right_mono)
  with assms show ?thesis by (auto simp: within_roundings_def abs_le_iff algebra_simps)
qed

end

lemma round_rat_rounding:
  assumes "1 < precision f"
  shows "rounding (round_rat f) (unit_roundoff f) (pow2 (min_exponent f + int (precision f) - 1))"
proof
  show "0 \<le> unit_roundoff f" by (simp add: unit_roundoff_def)
  have "pow2 (- int (precision f)) < pow2 0" using assms by (simp only: pow2_less_iff)
  then show "unit_roundoff f < 1" by (simp add: unit_roundoff_def)
qed (use assms in \<open>auto intro: round_rat_mono round_rat_error\<close>)

interpretation b32: rounding "round_rat binary32" "unit_roundoff binary32" "pow2 (-126)"
  using round_rat_rounding [of binary32] by (simp add: binary32_def)

interpretation b64: rounding "round_rat binary64" "unit_roundoff binary64" "pow2 (-1022)"
  using round_rat_rounding [of binary64] by (simp add: binary64_def)

text \<open>The same computation in the formats' operations: nothing overflows.\<close>

lemma fp_share:
  assumes f: "f = binary32 \<or> f = binary64"
    and d: "0 \<le> d" "d \<le> pow2 7" and s: "0 \<le> s" "s \<le> pow2 47" and c: "c = 1 \<or> c = 2"
  shows "fp_mul f (fp_mul f (fp_of_int f c) (fp_div f (Fin d) (fp_of_int f 100))) (Fin s) =
    Fin (round_rat f (round_rat f (of_int c * round_rat f (d / 100)) * s))"
proof -
  have ok: "0 < precision f" "min_exponent f \<le> 0" "60 < overflow_exponent f"
    using f by (auto simp: binary32_def binary64_def)
  have rnd: "fp_of_rat f x = Fin (round_rat f x)" "0 \<le> round_rat f x" "round_rat f x \<le> pow2 k"
    if "0 \<le> x" "x \<le> pow2 k" "0 \<le> k" "k \<le> 60" for x k
    using fp_of_rat_bounded [of x k f] round_rat_nonneg [of x f] that ok by auto
  note exact = fp_of_rat_exact [OF f]
  have d100: "0 \<le> d / 100" "d / 100 \<le> pow2 7" using d pow2_pos(1) [of 7] by (auto simp: field_simps)
  note r1 = rnd [OF d100]
  have "pow2 8 = pow2 (7 + 1)" by simp
  also have "\<dots> = 2 * pow2 7" by (rule pow2_Suc)
  finally have p8: "pow2 8 = 2 * pow2 7" .
  have cr: "0 \<le> of_int c * round_rat f (d / 100)" "of_int c * round_rat f (d / 100) \<le> pow2 8"
    using c r1(2,3) unfolding p8 by auto
  note r2 = rnd [OF cr]
  have "pow2 8 * pow2 47 = pow2 55" by (simp flip: pow2_add)
  moreover have "round_rat f (of_int c * round_rat f (d / 100)) * s \<le> pow2 8 * pow2 47"
    using r2(2,3) s by (intro mult_mono) auto
  ultimately have prod: "0 \<le> round_rat f (of_int c * round_rat f (d / 100)) * s"
    "round_rat f (of_int c * round_rat f (d / 100)) * s \<le> pow2 55"
    using r2(2) s by auto
  have "fp_of_int f c = Fin (of_int c)" "fp_of_int f 100 = Fin 100"
    using c by (auto simp: fp_of_int_def exact)
  then show ?thesis using rnd(1) [OF prod] r1(1) r2(1) by simp
qed

text \<open>Values of \<open>float\<close> type are multiples of \<open>2 powi (-149)\<close>.\<close>

lemma representable32_granularity:
  assumes "representable binary32 x" "representable binary32 y" "x < y"
  shows "pow2 (-149) \<le> y - x"
proof -
  have grid: "\<exists>m. z = of_int m * pow2 (-149)" if "representable binary32 z" for z
  proof -
    from that obtain m q where z: "z = of_int m * pow2 q" "-149 \<le> q"
      by (auto simp: representable_def binary32_def)
    from pow2_multiple [OF z(2)] obtain l where "pow2 q = of_int l * pow2 (-149)" by blast
    with z(1) show ?thesis by (intro exI [of _ "m * l"]) simp
  qed
  from grid [OF assms(1)] grid [OF assms(2)] obtain m n
    where x: "x = of_int m * pow2 (-149)" and y: "y = of_int n * pow2 (-149)" by blast
  from assms(3) have "m < n" by (simp add: x y)
  then have "of_int (m + 1) * pow2 (-149) \<le> of_int n * pow2 (-149)"
    by (intro mult_right_mono) (simp_all only: of_int_le_iff pow2_pos zless_imp_add1_zle)
  then show ?thesis by (simp add: x y algebra_simps)
qed

lemma representable32_in_64: "representable binary32 x \<Longrightarrow> representable binary64 x"
proof -
  assume "representable binary32 x"
  then obtain m q where "x = of_int m * pow2 q" "\<bar>m\<bar> \<le> 2 ^ 24" "-149 \<le> q"
    by (auto simp: representable_def binary32_def)
  then show ?thesis
    unfolding representable_def by (intro exI [of _ m] exI [of _ q]) (simp add: binary64_def)
qed

text \<open>Rounding a moderate value: its absolute error.\<close>

lemma fp_near:
  assumes "f = binary32 \<or> f = binary64" "\<bar>x\<bar> \<le> pow2 k" "- 20 \<le> k" "k \<le> 60"
  obtains y where "fp_of_rat f x = Fin y" "representable f y" "\<bar>y\<bar> \<le> pow2 k"
    "\<bar>y - x\<bar> \<le> pow2 (k - int (precision f))" "0 \<le> x \<Longrightarrow> 0 \<le> y"
proof (rule that [of "round_rat f x"])
  have f: "0 < precision f" "min_exponent f \<le> k" "k < overflow_exponent f"
    "min_exponent f \<le> k + 1 - int (precision f)"
    using assms by (auto simp: binary32_def binary64_def)
  show "fp_of_rat f x = Fin (round_rat f x)" "\<bar>round_rat f x\<bar> \<le> pow2 k"
    using fp_of_rat_bounded [OF assms(2) f(3,2,1)] by auto
  have "pow2 k < pow2 (k + 1)" by simp
  with assms(2) have "\<bar>x\<bar> < pow2 (k + 1)" by linarith
  from round_rat_abs_error [OF this f(4)]
  have "\<bar>round_rat f x - x\<bar> \<le> pow2 (k - int (precision f) + 1) / 2" by (simp add: algebra_simps)
  then show "\<bar>round_rat f x - x\<bar> \<le> pow2 (k - int (precision f))"
    by (simp only: pow2_Suc)
qed (use assms(1) in \<open>auto intro: representable_round_rat round_rat_nonneg\<close>)

text \<open>Weights are \<open>float\<close> percentages.\<close>

definition percentage :: "rat \<Rightarrow> bool" where
  "percentage a \<longleftrightarrow> representable binary32 a \<and> 0 \<le> a \<and> a \<le> 100"

end
