(* ===== verification/Platform.thy ===== *)
theory Platform
  imports Memory_Segment Floating
begin

text \<open>
  What the placement code takes from outside the repository, and the state it keeps.

  The page size, the number of NUMA nodes, libnuma's bit masks and the kernel's answers to
  \<open>mbind\<close> and \<open>move_pages\<close> are the fields of a \<open>platform\<close>, an argument of every definition
  that needs them. The kernel's answer may depend on every call made before. \<open>libnuma_ok\<close>
  states the documented behaviour of the bit mask functions (numa(3)).

  The state is that of the globals of src/unstickymem/unstickymem.cpp and
  src/unstickymem/PagePlacement.cpp, with the list of system calls made so far.
\<close>

section \<open>System calls\<close>

datatype mbind_policy = MPOL_BIND | MPOL_INTERLEAVE

text \<open>Every call passes \<open>MPOL_MF_MOVE | MPOL_MF_STRICT\<close> and the mask's own size.\<close>

record 'b mbind_call =
  mb_addr :: addr
  mb_len :: u64
  mb_policy :: mbind_policy
  mb_mask :: 'b

datatype 'b syscall =
    Mbind "'b mbind_call"
  | Move_pages "addr list" "int list"    \<comment> \<open>page addresses and target nodes, in order\<close>

text \<open>The return value and \<open>errno\<close>.\<close>

type_synonym 'b kernel = "'b syscall list \<Rightarrow> 'b syscall \<Rightarrow> int \<times> int"

definition ENOENT :: int where
  "ENOENT = 2"

record 'b platform =
  sys_page_size :: int32          \<comment> \<open>\<open>sysconf(_SC_PAGESIZE)\<close>\<close>
  numa_page_size :: int32         \<comment> \<open>\<open>numa_pagesize()\<close>\<close>
  configured_nodes :: int         \<comment> \<open>\<open>numa_num_configured_nodes()\<close>\<close>
  mask_alloc :: "nat \<Rightarrow> 'b"
  mask_setall :: "'b \<Rightarrow> 'b"
  mask_setbit :: "'b \<Rightarrow> nat \<Rightarrow> 'b"
  mask_clearbit :: "'b \<Rightarrow> nat \<Rightarrow> 'b"
  mask_isset :: "'b \<Rightarrow> nat \<Rightarrow> bool"
  mask_size :: "'b \<Rightarrow> nat"
  malloc_ok :: "u64 \<Rightarrow> bool"         \<comment> \<open>does an allocation of that many bytes succeed\<close>
  kernel :: "'b kernel"

text \<open>The bit numbers are \<open>unsigned int\<close>; node ids are \<open>int\<close> and are converted.\<close>

definition bit_index :: "int \<Rightarrow> nat" where
  "bit_index i = nat (i mod 2 ^ 32)"

definition libnuma_ok :: "'b platform \<Rightarrow> bool" where
  "libnuma_ok P \<longleftrightarrow>
     (\<forall>n. mask_size P (mask_alloc P n) = n \<and> (\<forall>i. \<not> mask_isset P (mask_alloc P n) i)) \<and>
     (\<forall>b. mask_size P (mask_setall P b) = mask_size P b \<and>
        (\<forall>i. mask_isset P (mask_setall P b) i \<longleftrightarrow> i < mask_size P b)) \<and>
     (\<forall>b j. mask_size P (mask_setbit P b j) = mask_size P b \<and>
        (\<forall>i. mask_isset P (mask_setbit P b j) i \<longleftrightarrow>
           mask_isset P b i \<or> (i = j \<and> j < mask_size P b))) \<and>
     (\<forall>b j. mask_size P (mask_clearbit P b j) = mask_size P b \<and>
        (\<forall>i. mask_isset P (mask_clearbit P b j) i \<longleftrightarrow> mask_isset P b i \<and> i \<noteq> j))"

definition mask_nodes :: "'b platform \<Rightarrow> 'b \<Rightarrow> nat set" where
  "mask_nodes P b = {i. mask_isset P b i}"

section \<open>State\<close>

record node_record =            \<comment> \<open>\<open>RECORD\<close> of unstickymem.h\<close>
  node_id :: int
  node_weight :: fp             \<comment> \<open>a \<open>float\<close>\<close>
  node_count :: int

definition MAX_NODES :: nat where
  "MAX_NODES = 2"

record 'b world =
  nodes_info :: "node_record list"
  nodes_info_temp :: "node_record list"
  sum_ww :: fp                  \<comment> \<open>\<open>double\<close>\<close>
  sum_nww :: fp                 \<comment> \<open>\<open>double\<close>\<close>
  weight_initialized :: bool
  num_workers :: int            \<comment> \<open>\<open>OPT_NUM_WORKERS_VALUE\<close>\<close>
  syscalls :: "'b syscall list"

text \<open>The two node arrays have \<open>MAX_NODES\<close> elements.\<close>

definition world_ok :: "'b world \<Rightarrow> bool" where
  "world_ok g \<longleftrightarrow> length (nodes_info g) = MAX_NODES \<and> length (nodes_info_temp g) = MAX_NODES"

type_synonym ('b, 'a) step = "('b world, 'a) run"

text \<open>A system call is recorded, and answered from the calls made before it.\<close>

definition do_syscall :: "'b platform \<Rightarrow> 'b syscall \<Rightarrow> ('b, int \<times> int) step" where
  "do_syscall P c g = (g\<lparr>syscalls := syscalls g @ [c]\<rparr>, Inr (kernel P (syscalls g) c))"

text \<open>\<open>DIEIF(WRAP(mbind)(...) != 0, msg)\<close>\<close>

definition mbind_or_die :: "'b platform \<Rightarrow> 'b mbind_call \<Rightarrow> string \<Rightarrow> ('b, unit) step" where
  "mbind_or_die P c msg =
     then_step (do_syscall P (Mbind c)) (\<lambda>(rc, err). lift_result (die_if (rc \<noteq> 0) msg))"

lemma mbind_or_die_eq:
  "mbind_or_die P c msg g =
     (g\<lparr>syscalls := syscalls g @ [Mbind c]\<rparr>,
      die_if (fst (kernel P (syscalls g) (Mbind c)) \<noteq> 0) msg)"
  by (simp add: mbind_or_die_def then_step_def do_syscall_def lift_result_def split: prod.splits)

section \<open>What a run asked the kernel to do\<close>

text \<open>The calls a step made, and the \<open>mbind\<close> ranges among them.\<close>

definition new_syscalls :: "'b world \<Rightarrow> 'b world \<Rightarrow> 'b syscall list" where
  "new_syscalls g g' = drop (length (syscalls g)) (syscalls g')"

fun mbinds :: "'b syscall list \<Rightarrow> 'b mbind_call list" where
  "mbinds [] = []"
| "mbinds (Mbind c # cs) = c # mbinds cs"
| "mbinds (Move_pages _ _ # cs) = mbinds cs"

definition mbind_range :: "'b mbind_call \<Rightarrow> nat \<times> nat" where
  "mbind_range c = (unat (mb_addr c), unat (mb_len c))"

lemma mbinds_append [simp]: "mbinds (cs @ ds) = mbinds cs @ mbinds ds"
  by (induction cs rule: mbinds.induct) auto

lemma mbinds_map_Mbind [simp]: "mbinds (map Mbind cs) = cs"
  by (induction cs) auto

text \<open>
  Bytes that a node receives from \<open>mbind\<close> calls: the kernel spreads the pages of an
  interleaved range evenly over the nodes of the mask (set_mempolicy(2)).
\<close>

definition node_share :: "'b platform \<Rightarrow> nat \<Rightarrow> 'b mbind_call \<Rightarrow> rat" where
  "node_share P i c =
     (if i \<in> mask_nodes P (mb_mask c)
      then of_nat (unat (mb_len c)) / of_nat (card (mask_nodes P (mb_mask c))) else 0)"

definition node_bytes :: "'b platform \<Rightarrow> nat \<Rightarrow> 'b mbind_call list \<Rightarrow> rat" where
  "node_bytes P i cs = sum_list (map (node_share P i) cs)"

lemma node_bytes_simps [simp]:
  "node_bytes P i [] = 0"
  "node_bytes P i (c # cs) = node_share P i c + node_bytes P i cs"
  by (simp_all add: node_bytes_def)

section \<open>Masks\<close>

lemma mask_nodes_laws:
  assumes "libnuma_ok P"
  shows "mask_nodes P (mask_alloc P n) = {}"
    and "mask_nodes P (mask_setall P b) = {..< mask_size P b}"
    and "mask_nodes P (mask_setbit P b j) = mask_nodes P b \<union> (if j < mask_size P b then {j} else {})"
    and "mask_nodes P (mask_clearbit P b j) = mask_nodes P b - {j}"
    and "mask_size P (mask_alloc P n) = n"
    and "mask_size P (mask_setall P b) = mask_size P b"
    and "mask_size P (mask_setbit P b j) = mask_size P b"
    and "mask_size P (mask_clearbit P b j) = mask_size P b"
  using assms by (auto simp: libnuma_ok_def mask_nodes_def)

text \<open>Bit masks as sets, an implementation of libnuma's functions for concrete runs.\<close>

definition set_platform :: "int32 \<Rightarrow> int \<Rightarrow> (nat \<times> nat set) kernel \<Rightarrow> (nat \<times> nat set) platform" where
  "set_platform psz n k =
     \<lparr>sys_page_size = psz, numa_page_size = psz, configured_nodes = n,
      mask_alloc = (\<lambda>m. (m, {})), mask_setall = (\<lambda>(m, s). (m, {..< m})),
      mask_setbit = (\<lambda>(m, s) j. (m, if j < m then insert j s else s)),
      mask_clearbit = (\<lambda>(m, s) j. (m, s - {j})),
      mask_isset = (\<lambda>(m, s) j. j \<in> s), mask_size = fst,
      malloc_ok = (\<lambda>m. m < 2 ^ 63), kernel = k\<rparr>"

lemma set_platform_simps [simp]:
  "sys_page_size (set_platform psz n k) = psz"
  "numa_page_size (set_platform psz n k) = psz"
  "configured_nodes (set_platform psz n k) = n"
  "kernel (set_platform psz n k) = k"
  "malloc_ok (set_platform psz n k) m \<longleftrightarrow> m < 2 ^ 63"
  by (simp_all add: set_platform_def)

lemma libnuma_ok_set_platform: "libnuma_ok (set_platform psz n k)"
  by (auto simp: libnuma_ok_def set_platform_def)

end
