(* ===== verification/Mbind_Placement.thy ===== *)
theory Mbind_Placement
  imports Platform
begin

text \<open>
  The placement functions of src/unstickymem/PagePlacement.cpp that work through \<open>mbind\<close>:
  binding to one node, the uniform interleave, the weighted interleave and its contiguous
  variant, and the local/interleaved split of the adaptive mode. The overloads on segments
  carry the suffix \<open>_segment\<close>.
\<close>

section \<open>Binding to one node, uniform interleave\<close>

definition place_on_node :: "'b platform \<Rightarrow> addr \<Rightarrow> u64 \<Rightarrow> int \<Rightarrow> ('b, unit) step" where
  "place_on_node P a len node =
     then_step (lift_result (die_if (node < 0 \<or> configured_nodes P \<le> node) ''invalid NUMA node id'')) (\<lambda>_.
       let nodemask = mask_setbit P (mask_alloc P (bit_index (configured_nodes P))) (bit_index node)
       in mbind_or_die P \<lparr>mb_addr = a, mb_len = len, mb_policy = MPOL_BIND, mb_mask = nodemask\<rparr>
            ''mbind error'')"

text \<open>
  The loop of \<open>force_uniform_interleave\<close> takes what is left of the region, the chunk size,
  the masks and the index of the next node. It does not end when the chunk size is 0, so it
  is a partial function: \<open>None\<close> is a call that does not return.
\<close>

definition single_node_masks :: "'b platform \<Rightarrow> 'b list" where
  "single_node_masks P =
     map (\<lambda>i. mask_setbit P (mask_alloc P (bit_index (configured_nodes P))) i)
       [0 ..< nat (configured_nodes P)]"

partial_function (option) uniform_loop ::
  "'b platform \<Rightarrow> u64 \<Rightarrow> 'b list \<Rightarrow> addr \<Rightarrow> u64 \<Rightarrow> nat \<Rightarrow> 'b world \<Rightarrow> ('b world \<times> unit result) option"
where
  "uniform_loop P per_call masks a len node g =
     (if len = 0 then Some (g, Inr ())
      else if length masks \<le> node then Some (g, Inl (Undefined ''nodemasks out of bounds''))
      else
        let mbind_len = min per_call len;
            r = mbind_or_die P \<lparr>mb_addr = a, mb_len = mbind_len, mb_policy = MPOL_BIND,
                  mb_mask = masks ! node\<rparr> ''mbind error'' g
        in if isl (snd r) then Some r
           else uniform_loop P per_call masks (a + mbind_len) (len - mbind_len)
                  ((node + 1) mod length masks) (fst r))"

definition force_uniform_interleave ::
  "'b platform \<Rightarrow> addr \<Rightarrow> u64 \<Rightarrow> 'b world \<Rightarrow> ('b world \<times> unit result) option" where
  "force_uniform_interleave P a len g =
     (if len mod scast (sys_page_size P) \<noteq> 0
      then Some (g, Inl (Aborted ''Size of region must be a multiple of the page size''))
      else uniform_loop P (scast (64 * sys_page_size P)) (single_node_masks P) a len 0 g)"

definition force_uniform_interleave_segment ::
  "'b platform \<Rightarrow> memory_segment \<Rightarrow> 'b world \<Rightarrow> ('b world \<times> unit result) option" where
  "force_uniform_interleave_segment P s g =
     force_uniform_interleave P (start_address s) (segment_length s) g"

section \<open>Weighted interleave\<close>

text \<open>\<open>my_size = a * (b / 100) * size\<close>, all in \<open>float\<close>, converted to \<open>size_t\<close>.\<close>

definition weighted_size :: "nat \<Rightarrow> fp \<Rightarrow> u64 \<Rightarrow> u64 result" where
  "weighted_size a b sz =
     fp_to_u64 (fp_mul binary32
       (fp_mul binary32 (fp_of_int binary32 (int a)) (fp_div binary32 b (fp_of_int binary32 100)))
       (fp_of_int binary32 (uint sz)))"

text \<open>
  The common loop of \<open>place_pages_weighted\<close> and \<open>place_pages_weighted_initial\<close> over the
  node records not yet visited; \<open>a\<close> of the source is their number, \<open>w\<close> the last weight.
\<close>

fun weighted_loop ::
  "'b platform \<Rightarrow> u64 \<Rightarrow> node_record list \<Rightarrow> addr \<Rightarrow> fp \<Rightarrow> u64 \<Rightarrow> 'b \<Rightarrow> ('b, unit) step" where
  "weighted_loop P sz [] start w total_size node_set = done_step ()"
| "weighted_loop P sz (r # rs) start w total_size node_set =
     (if total_size = sz then done_step ()
      else then_step
        (lift_result (weighted_size (length (r # rs)) (fp_sub binary32 (node_weight r) w) sz)) (\<lambda>b.
          let my_size = min (page_align_up (sys_page_size P) b) (sz - total_size)
          in then_step
            (if my_size \<noteq> 0
             then mbind_or_die P \<lparr>mb_addr = start, mb_len = my_size, mb_policy = MPOL_INTERLEAVE,
                    mb_mask = node_set\<rparr> ''mbind interleave failed''
             else done_step ()) (\<lambda>_.
            weighted_loop P sz rs (start + my_size) (node_weight r) (total_size + my_size)
              (if mask_isset P node_set (bit_index (node_id r))
               then mask_clearbit P node_set (bit_index (node_id r)) else node_set))))"

definition place_pages_weighted :: "'b platform \<Rightarrow> addr \<Rightarrow> u64 \<Rightarrow> ('b, unit) step" where
  "place_pages_weighted P a len g =
     weighted_loop P len (nodes_info_temp g) a (Fin 0) 0 (mask_setall P (mask_alloc P MAX_NODES)) g"

definition place_pages_weighted_initial :: "'b platform \<Rightarrow> addr \<Rightarrow> u64 \<Rightarrow> ('b, unit) step" where
  "place_pages_weighted_initial P a len g =
     weighted_loop P len (nodes_info g) a (Fin 0) 0 (mask_setall P (mask_alloc P MAX_NODES)) g"

definition place_pages_weighted_initial_segment ::
  "'b platform \<Rightarrow> memory_segment \<Rightarrow> ('b, unit) step" where
  "place_pages_weighted_initial_segment P s =
     (if 2 ^ 20 < segment_length s
      then place_pages_weighted_initial P (page_aligned_start (sys_page_size P) s)
             (page_aligned_length (sys_page_size P) s)
      else done_step ())"

section \<open>Weighted placement in contiguous runs\<close>

text \<open>\<open>my_size = (nodes_info[i].weight / 100) * size\<close>\<close>

definition contiguous_size :: "fp \<Rightarrow> u64 \<Rightarrow> u64 result" where
  "contiguous_size weight sz =
     fp_to_u64 (fp_mul binary32 (fp_div binary32 weight (fp_of_int binary32 100))
       (fp_of_int binary32 (uint sz)))"

fun contiguous_loop ::
  "'b platform \<Rightarrow> u64 \<Rightarrow> node_record list \<Rightarrow> addr \<Rightarrow> u64 \<Rightarrow> 'b \<Rightarrow> ('b, unit) step" where
  "contiguous_loop P sz [] start total_size node_set = done_step ()"
| "contiguous_loop P sz (r # rs) start total_size node_set =
     (if total_size = sz then done_step ()
      else
        let node_set1 = mask_setbit P node_set (bit_index (node_id r))
        in then_step (lift_result (contiguous_size (node_weight r) sz)) (\<lambda>b.
          let my_size = min (page_align_up (sys_page_size P) b) (sz - total_size)
          in then_step
            (if my_size \<noteq> 0
             then mbind_or_die P \<lparr>mb_addr = start, mb_len = my_size, mb_policy = MPOL_BIND,
                    mb_mask = node_set1\<rparr> ''mbind interleave failed''
             else done_step ()) (\<lambda>_.
            contiguous_loop P sz rs (start + my_size) (total_size + my_size)
              (if mask_isset P node_set1 (bit_index (node_id r))
               then mask_clearbit P node_set1 (bit_index (node_id r)) else node_set1))))"

definition place_pages_weighted_contiguous :: "'b platform \<Rightarrow> addr \<Rightarrow> u64 \<Rightarrow> ('b, unit) step" where
  "place_pages_weighted_contiguous P a len g =
     contiguous_loop P len (nodes_info g) a 0 (mask_alloc P MAX_NODES) g"

definition place_pages_weighted_contiguous_segment ::
  "'b platform \<Rightarrow> memory_segment \<Rightarrow> ('b, unit) step" where
  "place_pages_weighted_contiguous_segment P s =
     (if 2 ^ 20 < segment_length s
      then place_pages_weighted_contiguous P (page_aligned_start (sys_page_size P) s)
             (page_aligned_length (sys_page_size P) s)
      else done_step ())"

section \<open>Local and interleaved parts\<close>

definition local_ratio_of :: "int \<Rightarrow> fp \<Rightarrow> fp" where
  "local_ratio_of nodes r =
     fp_sub binary64 r
       (fp_div binary64 (fp_sub binary64 (Fin 1) r) (fp_of_int binary64 (nodes - 1)))"

definition outside_unit :: "fp \<Rightarrow> bool" where
  "outside_unit x \<longleftrightarrow> fp_less x (Fin 0) \<or> fp_less (Fin 1) x"

text \<open>The worker nodes that \<open>place_pages\<close> knows, per number of workers.\<close>

definition worker_nodes :: "int \<Rightarrow> nat list" where
  "worker_nodes n =
     (if n = 1 then [0] else if n = 2 then [0, 1] else if n = 3 then [1, 2, 3]
      else if n = 4 then [0, 1, 2, 3] else [])"

definition place_pages :: "'b platform \<Rightarrow> addr \<Rightarrow> u64 \<Rightarrow> fp \<Rightarrow> ('b, unit) step" where
  "place_pages P a len r g =
     (let psz = sys_page_size P;
          local_ratio = local_ratio_of (configured_nodes P) r;
          interleave_ratio = fp_sub binary64 (Fin 1) local_ratio
      in then_step
        (lift_result (fp_to_u64 (fp_mul binary64 interleave_ratio (fp_of_int binary64 (uint len))))) (\<lambda>il.
          let interleave_len = il AND scast (page_mask psz);
              local_len = (len - interleave_len) AND scast (page_mask psz);
              local_addr = a + interleave_len
          in then_step (lift_result
            (bind_result (die_if (outside_unit r) ''specified ratio must be between 0 and 1!'') (\<lambda>_.
             bind_result (die_if (outside_unit local_ratio) ''bad local_ratio calculation'') (\<lambda>_.
             bind_result (die_if (outside_unit interleave_ratio) ''bad interleave_ratio calculation'') (\<lambda>_.
             bind_result (die_if (local_len mod scast psz \<noteq> 0)
               ''local length must be multiple of the page size'') (\<lambda>_.
             bind_result (die_if (interleave_len mod scast psz \<noteq> 0)
               ''interleave length must be multiple of the page size'') (\<lambda>_.
             die_if (local_len + interleave_len \<noteq> len AND scast (page_mask psz))
               ''local and interleave lengths should total the original length''))))))) (\<lambda>_.
            if local_len = 0 then done_step ()
            else
              let node_set = foldl (mask_setbit P) (mask_alloc P MAX_NODES) (worker_nodes (num_workers g))
              in if num_workers g \<in> {1, 2, 3, 4}
                 then mbind_or_die P \<lparr>mb_addr = local_addr, mb_len = local_len,
                        mb_policy = MPOL_INTERLEAVE, mb_mask = node_set\<rparr> ''mbind interleave failed''
                 else done_step ())) g)"

definition place_pages_adaptive :: "'b platform \<Rightarrow> memory_segment \<Rightarrow> fp \<Rightarrow> ('b, unit) step" where
  "place_pages_adaptive P s ratio =
     place_pages P (page_aligned_start (sys_page_size P) s)
       (page_aligned_length (sys_page_size P) s) ratio"

text \<open>\<open>place_all_pages_adaptive\<close>: the segments larger than 1 MiB, in the order of the map.\<close>

fun place_all_pages_adaptive ::
  "'b platform \<Rightarrow> memory_segment list \<Rightarrow> fp \<Rightarrow> ('b, unit) step" where
  "place_all_pages_adaptive P [] ratio = done_step ()"
| "place_all_pages_adaptive P (s # ss) ratio =
     then_step
       (if 2 ^ 20 < segment_length s then place_pages_adaptive P s ratio else done_step ())
       (\<lambda>_. place_all_pages_adaptive P ss ratio)"

end
