(* ===== verification/Placement_Tiling.thy ===== *)
theory Placement_Tiling
  imports Mbind_Placement "HOL-Library.Sublist"
begin

text \<open>
  Where the placement functions send their \<open>mbind\<close> calls. \<open>tiles_region\<close> says that a run
  made page-aligned calls that follow each other without gap or overlap from the start of
  the region; \<open>within_region\<close> only that they are disjoint and inside it. The locale
  \<open>region_placement\<close> is the contract of a placement function, from which the behaviour on
  segments follows; it is interpreted for every \<open>mbind\<close> placement of the library.
\<close>

section \<open>Contracts\<close>

definition page_aligned_call :: "int32 \<Rightarrow> 'b mbind_call \<Rightarrow> bool" where
  "page_aligned_call psz c \<longleftrightarrow>
     page_bytes psz dvd unat (mb_addr c) \<and> page_bytes psz dvd unat (mb_len c)"

definition issued :: "'b world \<Rightarrow> 'b mbind_call list \<Rightarrow> 'b world \<Rightarrow> bool" where
  "issued g cs g' \<longleftrightarrow> g' = g\<lparr>syscalls := syscalls g @ map Mbind cs\<rparr>"

definition tiles_region :: "int32 \<Rightarrow> nat \<Rightarrow> nat \<Rightarrow> 'b mbind_call list \<Rightarrow> bool" where
  "tiles_region psz a n cs \<longleftrightarrow>
     contiguous_from a (map mbind_range cs) \<and> total_length (map mbind_range cs) \<le> n \<and>
     list_all (page_aligned_call psz) cs"

definition within_region :: "int32 \<Rightarrow> nat \<Rightarrow> nat \<Rightarrow> 'b mbind_call list \<Rightarrow> bool" where
  "within_region psz a n cs \<longleftrightarrow>
     list_all (page_aligned_call psz) cs \<and>
     list_all (\<lambda>c. chunk_bytes (mbind_range c) \<subseteq> {a ..< a + n}) cs \<and>
     (\<forall>i j. i < j \<and> j < length cs \<longrightarrow>
        chunk_bytes (mbind_range (cs ! i)) \<inter> chunk_bytes (mbind_range (cs ! j)) = {})"

lemma issued_refl [simp]: "issued g [] g"
  by (simp add: issued_def)

lemma issued_Nil: "issued g [] g' \<longleftrightarrow> g' = g"
  by (simp add: issued_def)

lemma issued_trans: "issued g cs g1 \<Longrightarrow> issued g1 ds g2 \<Longrightarrow> issued g (cs @ ds) g2"
  by (auto simp: issued_def)

lemma issued_frame:
  assumes "issued g cs g'"
  shows "nodes_info g' = nodes_info g" "nodes_info_temp g' = nodes_info_temp g"
    "num_workers g' = num_workers g" "weight_initialized g' = weight_initialized g"
    "sum_ww g' = sum_ww g" "sum_nww g' = sum_nww g" "syscalls g' = syscalls g @ map Mbind cs"
  using assms by (simp_all add: issued_def)

lemma mbind_or_die_issued:
  "mbind_or_die P c msg g = (g', r) \<Longrightarrow> issued g [c] g' \<and> (isl r \<longrightarrow> r = Inl (Aborted msg))"
  by (auto simp: mbind_or_die_eq issued_def die_if_def split: if_splits)

lemma tiles_region_Nil [simp]: "tiles_region psz a n []"
  by (simp add: tiles_region_def)

lemma tiles_region_Cons:
  assumes "mbind_range c = (a, m)" "0 < m" "m \<le> n" "page_aligned_call psz c"
    and "tiles_region psz (a + m) (n - m) cs"
  shows "tiles_region psz a n (c # cs)"
  using assms by (auto simp: tiles_region_def)

lemma tiles_region_mono: "tiles_region psz a m cs \<Longrightarrow> m \<le> n \<Longrightarrow> tiles_region psz a n cs"
  by (auto simp: tiles_region_def)

lemma tiles_region_bytes:
  "tiles_region psz a n cs \<Longrightarrow>
     (\<Union>c \<in> set cs. chunk_bytes (mbind_range c)) = {a ..< a + total_length (map mbind_range cs)}"
  using contiguous_from_bytes [of a "map mbind_range cs"] by (simp add: tiles_region_def)

lemma tiles_within: "tiles_region psz a n cs \<Longrightarrow> within_region psz a n cs"
proof -
  assume t: "tiles_region psz a n cs"
  then have c: "contiguous_from a (map mbind_range cs)" by (simp add: tiles_region_def)
  have "chunk_bytes (mbind_range c) \<subseteq> {a ..< a + n}" if "c \<in> set cs" for c
  proof -
    have "chunk_bytes (mbind_range c) \<subseteq> {a ..< a + total_length (map mbind_range cs)}"
      using that tiles_region_bytes [OF t] by blast
    with t show ?thesis by (auto simp: tiles_region_def)
  qed
  moreover have "chunk_bytes (mbind_range (cs ! i)) \<inter> chunk_bytes (mbind_range (cs ! j)) = {}"
    if "i < j" "j < length cs" for i j
    using contiguous_from_disjoint [OF c that(1)] that by simp
  ultimately show ?thesis
    using t by (auto simp: within_region_def tiles_region_def list_all_iff)
qed

lemma within_region_mono:
  "within_region psz a n cs \<Longrightarrow> a' \<le> a \<Longrightarrow> a + n \<le> a' + n' \<Longrightarrow> within_region psz a' n' cs"
  unfolding within_region_def list_all_iff by fastforce

text \<open>
  The addresses a process can use end at \<open>2 ^ 47\<close> on x86-64. A placement function's contract:
  on a page-aligned region below that bound it changes nothing but the record of system
  calls, and every call is an \<open>mbind\<close> of a page-aligned part of the region, no byte being
  bound twice; this holds for runs that abort too.
\<close>

definition user_region :: "int32 \<Rightarrow> addr \<Rightarrow> u64 \<Rightarrow> bool" where
  "user_region psz a len \<longleftrightarrow>
     page_size_ok psz \<and> page_bytes psz dvd unat a \<and> page_bytes psz dvd unat len \<and>
     unat a + unat len \<le> 2 ^ 47"

lemma user_regionD:
  assumes "user_region psz a len"
  shows "page_size_ok psz" "page_bytes psz dvd unat a" "page_bytes psz dvd unat len"
    "unat a + unat len < 2 ^ 64" "unat len \<le> 2 ^ 47"
  using assms by (auto simp: user_region_def)

text \<open>The page-aligned part of a segment is such a region.\<close>

lemma user_region_of_segment:
  assumes psz: "page_size_ok psz" and s: "segment_wf s" "unat (end_address s) + page_bytes psz \<le> 2 ^ 47"
  shows "user_region psz (page_aligned_start psz s) (page_aligned_length psz s)"
proof -
  have e: "unat (end_address s) + page_bytes psz \<le> 2 ^ 64" using s(2) by simp
  note st = page_aligned_start_bounds [OF psz, of s]
  note en = page_aligned_end_bounds [OF psz e]
  note reg = aligned_region_eq [OF psz s(1) e]
  have len: "unat (page_aligned_length psz s) =
      unat (page_aligned_end psz s) - unat (page_aligned_start psz s)"
    using reg(2) by (simp add: page_aligned_length_def unat_diff_le word_le_nat_alt)
  have "page_bytes psz dvd unat (page_aligned_length psz s)"
    unfolding len using st(3) en(3) by (rule dvd_diff_nat [rotated])
  then show ?thesis
    using psz st(3) reg(2) en(2) s(2) by (simp add: user_region_def len)
qed

locale region_placement =
  fixes P :: "'b platform"
    and place :: "addr \<Rightarrow> u64 \<Rightarrow> ('b, unit) step"
  assumes place_within:
      "libnuma_ok P \<Longrightarrow> user_region (sys_page_size P) a len \<Longrightarrow> place a len g = (g', r) \<Longrightarrow>
       \<exists>cs. issued g cs g' \<and> within_region (sys_page_size P) (unat a) (unat len) cs"
begin

text \<open>Placing a segment's pages touches only the pages of the segment.\<close>

lemma place_segment_within:
  assumes "libnuma_ok P" "page_size_ok (sys_page_size P)"
    and "segment_wf s" "unat (end_address s) + page_bytes (sys_page_size P) \<le> 2 ^ 47"
    and "place (page_aligned_start (sys_page_size P) s) (page_aligned_length (sys_page_size P) s) g = (g', r)"
  shows "\<exists>cs. issued g cs g' \<and> (\<forall>c \<in> set cs. page_aligned_call (sys_page_size P) c \<and>
    chunk_bytes (mbind_range c) \<subseteq> aligned_region (sys_page_size P) s)"
  using place_within [OF assms(1) user_region_of_segment [OF assms(2-4)] assms(5)]
  by (auto simp: within_region_def list_all_iff aligned_region_def)

text \<open>In particular it never moves a page that belongs to another segment only.\<close>

lemma place_segment_foreign:
  assumes "libnuma_ok P" "page_size_ok (sys_page_size P)"
    and "segment_wf s" "unat (end_address s) + page_bytes (sys_page_size P) \<le> 2 ^ 47"
    and "place (page_aligned_start (sys_page_size P) s) (page_aligned_length (sys_page_size P) s) g = (g', r)"
    and "b \<notin> aligned_region (sys_page_size P) s" "c \<in> set (mbinds (new_syscalls g g'))"
  shows "b \<notin> chunk_bytes (mbind_range c)"
  using place_segment_within [OF assms(1-5)] assms(6,7) by (auto simp: new_syscalls_def issued_def)

end

section \<open>The weighted interleave and its contiguous variant\<close>

text \<open>
  One turn of either loop: the chunk is page-aligned, at most what is left, and the rest of
  the region is page-aligned again.
\<close>

lemma chunk_step:
  assumes psz: "page_size_ok psz"
    and start: "page_bytes psz dvd unat start" and sz: "page_bytes psz dvd unat sz"
    and tot: "page_bytes psz dvd unat tot" "tot \<le> sz"
    and fits: "unat start + (unat sz - unat tot) < 2 ^ 64"
    and m: "m = min (page_align_up psz b) (sz - tot)"
  shows "page_bytes psz dvd unat m" "unat m \<le> unat sz - unat tot"
    "unat (start + m) = unat start + unat m" "unat (tot + m) = unat tot + unat m"
    "page_bytes psz dvd unat (start + m)" "page_bytes psz dvd unat (tot + m)" "tot + m \<le> sz"
    "unat (start + m) + (unat sz - unat (tot + m)) < 2 ^ 64"
proof -
  have le: "unat tot \<le> unat sz" using tot(2) by (simp add: word_le_nat_alt)
  have d: "unat (sz - tot) = unat sz - unat tot" using tot(2) by (rule unat_diff_le)
  have "page_bytes psz dvd unat (page_align_up psz b)"
    using psz by (auto simp: page_size_ok_def page_bytes_eq page_align_up_eq unat_and_not_mask)
  moreover have "page_bytes psz dvd unat (sz - tot)"
    unfolding d using sz tot(1) by (rule dvd_diff_nat)
  ultimately show dm: "page_bytes psz dvd unat m"
    by (simp add: m min_def)
  show mle: "unat m \<le> unat sz - unat tot"
    using d by (simp add: m min_def word_le_nat_alt)
  show s: "unat (start + m) = unat start + unat m"
    using mle fits by (intro unat_add_nowrap) linarith
  show t: "unat (tot + m) = unat tot + unat m"
    using mle le unat_u64_less [of sz] by (intro unat_add_nowrap) linarith
  show "page_bytes psz dvd unat (start + m)" "page_bytes psz dvd unat (tot + m)"
    using dm start tot(1) by (simp_all only: s t dvd_add)
  show "tot + m \<le> sz" using t mle le by (simp add: word_le_nat_alt)
  show "unat (start + m) + (unat sz - unat (tot + m)) < 2 ^ 64"
    using s t mle fits by linarith
qed

text \<open>The node sets of the successive calls: the nodes not yet visited.\<close>

fun shrinking_sets :: "nat set \<Rightarrow> node_record list \<Rightarrow> nat set list" where
  "shrinking_sets S [] = []"
| "shrinking_sets S (r # rs) = S # shrinking_sets (S - {bit_index (node_id r)}) rs"

lemma optional_call_tiles:
  assumes run: "then_step (if m \<noteq> 0 then mbind_or_die P c msg else done_step ()) (\<lambda>_. k) g = (g', r)"
    and rest: "\<And>g1. k g1 = (g', r) \<Longrightarrow> \<exists>cs. issued g1 cs g' \<and> tiles_region psz (a + unat m) (n - unat m) cs \<and> Q cs"
    and call: "mbind_range c = (a, unat m)" "page_aligned_call psz c" "unat m \<le> n"
    and Q: "\<And>cs. Q cs \<Longrightarrow> Q' cs" "Q' [c]" "\<And>cs. Q cs \<Longrightarrow> Q' (c # cs)"
  shows "\<exists>cs. issued g cs g' \<and> tiles_region psz a n cs \<and> Q' cs"
proof (cases "m = 0")
  case True
  with run rest [of g] Q(1) show ?thesis by (auto simp: step_simps)
next
  case False
  then have um: "0 < unat m" by (simp add: unat_gt_0)
  obtain g1 r1 where m1: "mbind_or_die P c msg g = (g1, r1)" by fastforce
  have i1: "issued g [c] g1" using mbind_or_die_issued [OF m1] by blast
  show ?thesis
  proof (cases r1)
    case (Inl e)
    with run False m1 have "g' = g1" by (simp add: then_step_def)
    with i1 tiles_region_Cons [OF call(1) um call(3,2) tiles_region_Nil] Q(2) show ?thesis by blast
  next
    case (Inr u)
    with run False m1 have "k g1 = (g', r)" by (simp add: then_step_def)
    from rest [OF this] obtain cs where cs: "issued g1 cs g'"
      "tiles_region psz (a + unat m) (n - unat m) cs" "Q cs" by blast
    then show ?thesis
      using issued_trans [OF i1 cs(1)] tiles_region_Cons [OF call(1) um call(3,2) cs(2)] Q(3) [OF cs(3)]
      by auto
  qed
qed

lemma weighted_loop_turn:
  assumes "tot \<noteq> sz" "weighted_size (length (x # rs)) (fp_sub binary32 (node_weight x) w) sz = Inr b"
    and "m = min (page_align_up (sys_page_size P) b) (sz - tot)"
    and "ns' = (if mask_isset P ns (bit_index (node_id x))
      then mask_clearbit P ns (bit_index (node_id x)) else ns)"
  shows "weighted_loop P sz (x # rs) start w tot ns =
    then_step (if m \<noteq> 0 then mbind_or_die P \<lparr>mb_addr = start, mb_len = m,
        mb_policy = MPOL_INTERLEAVE, mb_mask = ns\<rparr> ''mbind interleave failed'' else done_step ())
      (\<lambda>_. weighted_loop P sz rs (start + m) (node_weight x) (tot + m) ns')"
  unfolding assms(3,4) using assms(1,2) by (simp only: weighted_loop.simps if_False step_simps Let_def)

lemma mask_nodes_cleared:
  assumes "libnuma_ok P"
  shows "mask_nodes P (if mask_isset P ns i then mask_clearbit P ns i else ns) = mask_nodes P ns - {i}"
  using mask_nodes_laws(4) [OF assms, of ns i] by (auto simp: mask_nodes_def)

lemma weighted_loop_tiles:
  assumes "libnuma_ok P" "page_size_ok (sys_page_size P)"
    and "page_bytes (sys_page_size P) dvd unat start" "page_bytes (sys_page_size P) dvd unat sz"
    and "page_bytes (sys_page_size P) dvd unat tot" "tot \<le> sz"
    and "unat start + (unat sz - unat tot) < 2 ^ 64"
    and "weighted_loop P sz rs start w tot ns g = (g', r)"
  shows "\<exists>cs. issued g cs g' \<and> tiles_region (sys_page_size P) (unat start) (unat sz - unat tot) cs \<and>
    list_all (\<lambda>c. mb_policy c = MPOL_INTERLEAVE) cs \<and>
    subseq (map (mask_nodes P \<circ> mb_mask) cs) (shrinking_sets (mask_nodes P ns) rs)"
  using assms
proof (induction rs arbitrary: start w tot ns g)
  case Nil
  then show ?case by (intro exI [of _ "[]"]) (simp add: step_simps)
next
  case (Cons x rs)
  let ?p = "sys_page_size P"
  have stop: ?case if "g' = g" using that by (intro exI [of _ "[]"]) simp
  consider "tot = sz" | e where "tot \<noteq> sz"
      "weighted_size (length (x # rs)) (fp_sub binary32 (node_weight x) w) sz = Inl e"
    | b where "tot \<noteq> sz"
      "weighted_size (length (x # rs)) (fp_sub binary32 (node_weight x) w) sz = Inr b"
    by (meson sum.exhaust)
  then show ?case
  proof cases
    case 1
    with Cons.prems(8) show ?thesis by (intro stop) (simp add: step_simps)
  next
    case 2
    with Cons.prems(8) show ?thesis by (intro stop) (simp add: step_simps)
  next
    case (3 b)
    define m where "m = min (page_align_up ?p b) (sz - tot)"
    let ?i = "bit_index (node_id x)"
    let ?c = "\<lparr>mb_addr = start, mb_len = m, mb_policy = MPOL_INTERLEAVE, mb_mask = ns\<rparr>"
    note st = chunk_step [OF Cons.prems(2-7) m_def]
    note run = Cons.prems(8) [unfolded weighted_loop_turn [OF 3 m_def refl]]
    have left: "unat sz - unat (tot + m) = unat sz - unat tot - unat m" using st(4) by simp
    show ?thesis
      by (rule optional_call_tiles [OF run Cons.IH [OF Cons.prems(1,2) st(5) Cons.prems(4) st(6-8),
            unfolded left st(3)]])
        (use st(1,2) Cons.prems(3) in \<open>auto simp: mbind_range_def page_aligned_call_def
            mask_nodes_cleared [OF Cons.prems(1)] intro: list_emb_Cons\<close>)
  qed
qed

lemma contiguous_loop_turn:
  assumes "tot \<noteq> sz" "contiguous_size (node_weight x) sz = Inr b"
    and "m = min (page_align_up (sys_page_size P) b) (sz - tot)"
    and "ns1 = mask_setbit P ns (bit_index (node_id x))"
  shows "contiguous_loop P sz (x # rs) start tot ns =
    then_step (if m \<noteq> 0 then mbind_or_die P \<lparr>mb_addr = start, mb_len = m,
        mb_policy = MPOL_BIND, mb_mask = ns1\<rparr> ''mbind interleave failed'' else done_step ())
      (\<lambda>_. contiguous_loop P sz rs (start + m) (tot + m)
        (if mask_isset P ns1 (bit_index (node_id x))
         then mask_clearbit P ns1 (bit_index (node_id x)) else ns1))"
  unfolding assms(3,4) using assms(1,2)
  by (simp only: contiguous_loop.simps if_False step_simps Let_def)

text \<open>The node of a record, if it has a bit in the mask.\<close>

definition own_node :: "nat \<Rightarrow> node_record \<Rightarrow> nat set" where
  "own_node n x = (if bit_index (node_id x) < n then {bit_index (node_id x)} else {})"

lemma contiguous_loop_tiles:
  assumes "libnuma_ok P" "page_size_ok (sys_page_size P)"
    and "page_bytes (sys_page_size P) dvd unat start" "page_bytes (sys_page_size P) dvd unat sz"
    and "page_bytes (sys_page_size P) dvd unat tot" "tot \<le> sz"
    and "unat start + (unat sz - unat tot) < 2 ^ 64"
    and "mask_nodes P ns = {}" "mask_size P ns = n"
    and "contiguous_loop P sz rs start tot ns g = (g', r)"
  shows "\<exists>cs. issued g cs g' \<and> tiles_region (sys_page_size P) (unat start) (unat sz - unat tot) cs \<and>
    list_all (\<lambda>c. mb_policy c = MPOL_BIND) cs \<and>
    subseq (map (mask_nodes P \<circ> mb_mask) cs) (map (own_node n) rs)"
  using assms
proof (induction rs arbitrary: start tot ns g)
  case Nil
  then show ?case by (intro exI [of _ "[]"]) (simp add: step_simps)
next
  case (Cons x rs)
  let ?p = "sys_page_size P"
  have stop: ?case if "g' = g" using that by (intro exI [of _ "[]"]) simp
  consider "tot = sz" | e where "tot \<noteq> sz" "contiguous_size (node_weight x) sz = Inl e"
    | b where "tot \<noteq> sz" "contiguous_size (node_weight x) sz = Inr b"
    by (meson sum.exhaust)
  then show ?case
  proof cases
    case 1
    with Cons.prems(10) show ?thesis by (intro stop) (simp add: step_simps)
  next
    case 2
    with Cons.prems(10) show ?thesis by (intro stop) (simp add: step_simps Let_def)
  next
    case (3 b)
    define m where "m = min (page_align_up ?p b) (sz - tot)"
    define ns1 where "ns1 = mask_setbit P ns (bit_index (node_id x))"
    let ?i = "bit_index (node_id x)"
    let ?ns' = "if mask_isset P ns1 ?i then mask_clearbit P ns1 ?i else ns1"
    let ?c = "\<lparr>mb_addr = start, mb_len = m, mb_policy = MPOL_BIND, mb_mask = ns1\<rparr>"
    note st = chunk_step [OF Cons.prems(2-7) m_def]
    note run = Cons.prems(10) [unfolded contiguous_loop_turn [OF 3 m_def ns1_def]]
    have left: "unat sz - unat (tot + m) = unat sz - unat tot - unat m" using st(4) by simp
    have ns1: "mask_nodes P ns1 = own_node n x" "mask_size P ns1 = n"
      using Cons.prems(1,8,9) by (simp_all add: ns1_def mask_nodes_laws own_node_def)
    have ns': "mask_nodes P ?ns' = {}" "mask_size P ?ns' = n"
      unfolding mask_nodes_cleared [OF Cons.prems(1)] ns1
      using ns1(2) Cons.prems(1) by (auto simp: own_node_def mask_nodes_laws)
    show ?thesis
      by (rule optional_call_tiles [OF run Cons.IH [OF Cons.prems(1,2) st(5) Cons.prems(4) st(6-8) ns',
            unfolded left st(3)]])
        (use st(1,2) Cons.prems(3) ns1 in \<open>auto simp: mbind_range_def page_aligned_call_def
            intro: list_emb_Cons\<close>)
  qed
qed

section \<open>The local part of the adaptive placement\<close>

text \<open>
  With both ratios between 0 and 1, the product of the interleave ratio and a length below
  \<open>2 ^ 53\<close> is at most the length, so the truncation gives a byte count inside the region.
\<close>

lemma ratio_of_length:
  assumes "0 \<le> q" "q \<le> 1" "unat (len :: u64) \<le> 2 ^ 47"
  shows "\<exists>il. fp_to_u64 (fp_mul binary64 (Fin q) (fp_of_int binary64 (uint len))) = Inr il \<and> il \<le> len"
proof -
  have "int (unat len) \<le> int (2 ^ 47)" using assms(3) by (simp only: of_nat_le_iff)
  then have n: "0 \<le> uint len" "uint len \<le> 2 ^ 47" by simp_all
  define L where "L = (of_int (uint len) :: rat)"
  have L: "0 \<le> L" "L \<le> of_int (2 ^ 47)"
    unfolding L_def using n by (simp_all only: of_int_le_iff of_int_0_le_iff)
  have rep: "representable binary64 L"
    unfolding L_def using n by (intro representable_of_int) (simp_all add: binary64_def)
  have "(of_int (2 ^ 47) :: rat) = pow2 47" using pow2_of_nat [of 47] by simp
  also have "\<dots> < pow2 1024" by simp
  finally have big: "L < pow2 1024" using L(2) by linarith
  have len: "fp_of_int binary64 (uint len) = Fin L"
    unfolding fp_of_int_def L_def [symmetric] using rep big L
    by (intro fp_of_rat_representable) (simp_all add: binary64_def)
  have le: "q * L \<le> L" using assms L by (simp add: mult_left_le_one_le)
  define y where "y = round_rat binary64 (q * L)"
  have y: "0 \<le> y" "y \<le> L"
    using b64.rnd_nonneg [of "q * L"] assms L b64.rnd_le_fixed [OF le] round_rat_representable [OF rep]
    by (auto simp: y_def binary64_def)
  with big have "\<bar>y\<bar> < pow2 (overflow_exponent binary64)" by (simp add: binary64_def)
  then have mul: "fp_mul binary64 (Fin q) (Fin L) = Fin y"
    by (simp add: fp_of_rat_def y_def Let_def)
  have "\<lfloor>y\<rfloor> \<le> \<lfloor>L\<rfloor>" using y(2) by (rule floor_mono)
  then have fl: "0 \<le> \<lfloor>y\<rfloor>" "\<lfloor>y\<rfloor> \<le> uint len"
    using y by (simp, simp only: L_def floor_of_int)
  have "uint len < 2 ^ 64" using n(2) by simp
  with fl(2) have lt: "\<lfloor>y\<rfloor> < 2 ^ 64" by (rule order_le_less_trans)
  have "uint (of_int \<lfloor>y\<rfloor> :: u64) = \<lfloor>y\<rfloor>"
    using fl lt by (simp add: unsigned_of_int take_bit_int_eq_self)
  with fl have "(of_int \<lfloor>y\<rfloor> :: u64) \<le> len" by (simp add: word_le_def)
  then show ?thesis
    unfolding len mul using y fl lt by (simp add: truncate_rat_def)
qed

text \<open>What \<open>place_pages\<close> does, by the checks it passes.\<close>

lemma outside_unit_Fin: "\<not> outside_unit (Fin q) \<longleftrightarrow> 0 \<le> q \<and> q \<le> 1"
  by (auto simp: outside_unit_def)

lemma unit_product_finite:
  "\<not> outside_unit x \<Longrightarrow> fp_to_u64 (fp_mul f x y) = Inr b \<Longrightarrow> \<exists>q. x = Fin q"
  by (cases x; cases y) (auto simp: outside_unit_def fp_inf_def split: if_splits)

lemma place_pages_cases:
  assumes "place_pages P a len r g = (g', res)"
  obtains (unchanged) "g' = g"
  | (bound) il il' ll where
      "fp_to_u64 (fp_mul binary64 (fp_sub binary64 (Fin 1) (local_ratio_of (configured_nodes P) r))
         (fp_of_int binary64 (uint len))) = Inr il"
      "il' = il AND scast (page_mask (sys_page_size P))"
      "ll = (len - il') AND scast (page_mask (sys_page_size P))" "ll \<noteq> 0"
      "\<not> outside_unit r" "\<not> outside_unit (local_ratio_of (configured_nodes P) r)"
      "\<not> outside_unit (fp_sub binary64 (Fin 1) (local_ratio_of (configured_nodes P) r))"
      "num_workers g \<in> {1, 2, 3, 4}"
      "mbind_or_die P \<lparr>mb_addr = a + il', mb_len = ll, mb_policy = MPOL_INTERLEAVE,
         mb_mask = foldl (mask_setbit P) (mask_alloc P MAX_NODES) (worker_nodes (num_workers g))\<rparr>
         ''mbind interleave failed'' g = (g', res)"
proof -
  let ?l = "local_ratio_of (configured_nodes P) r"
  let ?i = "fp_sub binary64 (Fin 1) ?l"
  show thesis
  proof (cases "fp_to_u64 (fp_mul binary64 ?i (fp_of_int binary64 (uint len)))")
    case (Inl e)
    with assms show ?thesis by (intro unchanged) (simp add: place_pages_def Let_def step_simps)
  next
    case (Inr il)
    show ?thesis
    proof (cases "g' = g")
      case False
      with assms Inr show ?thesis
        by (intro bound [OF Inr refl refl])
          (simp_all add: place_pages_def Let_def step_simps die_if_def split: if_splits)
    qed (rule unchanged)
  qed
qed

lemma mask_nodes_foldl_setbit:
  assumes "libnuma_ok P"
  shows "mask_nodes P (foldl (mask_setbit P) b js) =
      mask_nodes P b \<union> {j \<in> set js. j < mask_size P b} \<and>
    mask_size P (foldl (mask_setbit P) b js) = mask_size P b"
  using assms by (induction js arbitrary: b) (auto simp: mask_nodes_laws)

text \<open>
  The one call binds the end of the region, from a page boundary on, and covers no more and
  no less than that.
\<close>

lemma local_part_bounds:
  assumes "user_region psz a len" "il \<le> len"
    and "il' = il AND scast (page_mask psz)" "ll = (len - il') AND scast (page_mask psz)"
  shows "page_bytes psz dvd unat il'" "il' \<le> len" "unat ll = unat len - unat il'"
    "unat (a + il') = unat a + unat il'"
    "page_bytes psz dvd unat (a + il')" "page_bytes psz dvd unat ll"
proof -
  note ur = user_regionD [OF assms(1)]
  have down: "il' = page_align_down psz il" "ll = page_align_down psz (len - il')"
    by (simp_all add: page_align_down_def assms(3,4))
  show d: "page_bytes psz dvd unat il'"
    by (simp add: down(1) unat_page_align_down [OF ur(1)])
  have "unat il' \<le> unat il" by (simp add: down(1) unat_page_align_down [OF ur(1)])
  with assms(2) show le: "il' \<le> len" by (simp add: word_le_nat_alt)
  have sub: "unat (len - il') = unat len - unat il'" using le by (rule unat_diff_le)
  have dv: "page_bytes psz dvd unat len - unat il'" using ur(3) d by (rule dvd_diff_nat)
  then show ll: "unat ll = unat len - unat il'"
    by (simp add: down(2) unat_page_align_down [OF ur(1)] sub)
  show ad: "unat (a + il') = unat a + unat il'"
    using le ur(4) by (intro unat_add_nowrap) (simp add: word_le_nat_alt)
  show "page_bytes psz dvd unat (a + il')" unfolding ad using ur(2) d by (rule dvd_add)
  show "page_bytes psz dvd unat ll" unfolding ll by (rule dv)
qed

lemma place_pages_issued:
  assumes ur: "user_region (sys_page_size P) a len" and lib: "libnuma_ok P"
    and run: "place_pages P a len r g = (g', res)"
  shows "\<exists>cs. issued g cs g' \<and> (cs = [] \<or> (\<exists>c. cs = [c] \<and> page_aligned_call (sys_page_size P) c \<and>
    unat a \<le> unat (mb_addr c) \<and> unat (mb_addr c) + unat (mb_len c) = unat a + unat len \<and>
    mb_policy c = MPOL_INTERLEAVE \<and>
    mask_nodes P (mb_mask c) = {j \<in> set (worker_nodes (num_workers g)). j < MAX_NODES}))"
proof (rule place_pages_cases [OF run])
  assume "g' = g"
  then show ?thesis by (intro exI [of _ "[]"]) simp
next
  fix il il' ll
  let ?x = "fp_sub binary64 (Fin 1) (local_ratio_of (configured_nodes P) r)"
  let ?c = "\<lparr>mb_addr = a + il', mb_len = ll, mb_policy = MPOL_INTERLEAVE,
    mb_mask = foldl (mask_setbit P) (mask_alloc P MAX_NODES) (worker_nodes (num_workers g))\<rparr>"
  assume il: "fp_to_u64 (fp_mul binary64 ?x (fp_of_int binary64 (uint len))) = Inr il"
    and il': "il' = il AND scast (page_mask (sys_page_size P))"
    and ll: "ll = (len - il') AND scast (page_mask (sys_page_size P))"
    and unit: "\<not> outside_unit ?x"
    and call: "mbind_or_die P ?c ''mbind interleave failed'' g = (g', res)"
  obtain q where q: "?x = Fin q" using unit_product_finite [OF unit il] by blast
  with unit have "0 \<le> q" "q \<le> 1" by (simp_all add: outside_unit_Fin)
  from ratio_of_length [OF this user_regionD(5) [OF ur]] il q have "il \<le> len" by simp
  note b = local_part_bounds [OF ur this il' ll]
  have "unat il' \<le> unat len" using b(2) by (simp add: word_le_nat_alt)
  moreover have "mask_nodes P (mb_mask ?c) = {j \<in> set (worker_nodes (num_workers g)). j < MAX_NODES}"
    using mask_nodes_foldl_setbit [OF lib, of "mask_alloc P MAX_NODES"] lib by (simp add: mask_nodes_laws)
  ultimately show ?thesis
    using mbind_or_die_issued [OF call] b by (intro exI [of _ "[?c]"]) (auto simp: page_aligned_call_def)
qed

section \<open>The contract holds for every \<open>mbind\<close> placement\<close>

lemma loop_masks:
  assumes "libnuma_ok P"
  shows "mask_nodes P (mask_setall P (mask_alloc P MAX_NODES)) = {..< MAX_NODES}"
    "mask_nodes P (mask_alloc P MAX_NODES) = {}" "mask_size P (mask_alloc P MAX_NODES) = MAX_NODES"
  using assms by (simp_all add: mask_nodes_laws)

lemma place_pages_weighted_run:
  assumes "libnuma_ok P" "user_region (sys_page_size P) a len"
    and "place_pages_weighted P a len g = (g', r)"
  shows "\<exists>cs. issued g cs g' \<and> tiles_region (sys_page_size P) (unat a) (unat len) cs \<and>
    list_all (\<lambda>c. mb_policy c = MPOL_INTERLEAVE) cs \<and>
    subseq (map (mask_nodes P \<circ> mb_mask) cs) (shrinking_sets {..< MAX_NODES} (nodes_info_temp g))"
  using weighted_loop_tiles [of P a len 0 "nodes_info_temp g" "Fin 0"
      "mask_setall P (mask_alloc P MAX_NODES)" g g' r] assms user_regionD(4) [OF assms(2)]
  by (simp add: place_pages_weighted_def loop_masks user_regionD)

lemma place_pages_weighted_initial_run:
  assumes "libnuma_ok P" "user_region (sys_page_size P) a len"
    and "place_pages_weighted_initial P a len g = (g', r)"
  shows "\<exists>cs. issued g cs g' \<and> tiles_region (sys_page_size P) (unat a) (unat len) cs \<and>
    list_all (\<lambda>c. mb_policy c = MPOL_INTERLEAVE) cs \<and>
    subseq (map (mask_nodes P \<circ> mb_mask) cs) (shrinking_sets {..< MAX_NODES} (nodes_info g))"
  using weighted_loop_tiles [of P a len 0 "nodes_info g" "Fin 0"
      "mask_setall P (mask_alloc P MAX_NODES)" g g' r] assms user_regionD(4) [OF assms(2)]
  by (simp add: place_pages_weighted_initial_def loop_masks user_regionD)

lemma place_pages_weighted_contiguous_run:
  assumes "libnuma_ok P" "user_region (sys_page_size P) a len"
    and "place_pages_weighted_contiguous P a len g = (g', r)"
  shows "\<exists>cs. issued g cs g' \<and> tiles_region (sys_page_size P) (unat a) (unat len) cs \<and>
    list_all (\<lambda>c. mb_policy c = MPOL_BIND) cs \<and>
    subseq (map (mask_nodes P \<circ> mb_mask) cs) (map (own_node MAX_NODES) (nodes_info g))"
  using contiguous_loop_tiles [of P a len 0 "mask_alloc P MAX_NODES" MAX_NODES "nodes_info g" g g' r] assms user_regionD(4) [OF assms(2)]
  by (simp add: place_pages_weighted_contiguous_def loop_masks user_regionD)

interpretation weighted_mbind: region_placement P "place_pages_weighted P" for P
  by unfold_locales (blast dest: place_pages_weighted_run tiles_within)

interpretation weighted_initial_mbind: region_placement P "place_pages_weighted_initial P" for P
  by unfold_locales (blast dest: place_pages_weighted_initial_run tiles_within)

interpretation contiguous_mbind: region_placement P "place_pages_weighted_contiguous P" for P
  by unfold_locales (blast dest: place_pages_weighted_contiguous_run tiles_within)

lemma single_call_within:
  assumes "page_aligned_call psz c" "a \<le> unat (mb_addr c)"
    "unat (mb_addr c) + unat (mb_len c) = a + n"
  shows "within_region psz a n [c]"
  using assms by (auto simp: within_region_def chunk_bytes_def mbind_range_def)

interpretation adaptive_mbind: region_placement P "\<lambda>a len. place_pages P a len ratio" for P ratio
proof unfold_locales
  fix a len g g' r
  assume "libnuma_ok P" "user_region (sys_page_size P) a len" "place_pages P a len ratio g = (g', r)"
  from place_pages_issued [OF this(2,1,3)] obtain cs where cs: "issued g cs g'"
    "cs = [] \<or> (\<exists>c. cs = [c] \<and> page_aligned_call (sys_page_size P) c \<and>
       unat a \<le> unat (mb_addr c) \<and> unat (mb_addr c) + unat (mb_len c) = unat a + unat len)"
    by blast
  then have "within_region (sys_page_size P) (unat a) (unat len) cs"
    by (auto intro: single_call_within simp: within_region_def [of _ _ _ "[]"])
  with cs(1) show "\<exists>cs. issued g cs g' \<and> within_region (sys_page_size P) (unat a) (unat len) cs"
    by blast
qed

section \<open>All segments of the map\<close>

text \<open>
  Every \<open>mbind\<close> call that \<open>place_all_pages\<close> of the adaptive mode makes covers whole pages of one
  segment that is larger than 1 MiB; smaller segments are left alone.
\<close>

lemma place_all_pages_adaptive_run:
  assumes "libnuma_ok P" "page_size_ok (sys_page_size P)"
    and "\<forall>s \<in> set ss. 2 ^ 20 < segment_length s \<longrightarrow>
      segment_wf s \<and> unat (end_address s) + page_bytes (sys_page_size P) \<le> 2 ^ 47"
    and "place_all_pages_adaptive P ss ratio g = (g', r)"
  shows "\<exists>cs. issued g cs g' \<and> (\<forall>c \<in> set cs. \<exists>s \<in> set ss. 2 ^ 20 < segment_length s \<and>
    page_aligned_call (sys_page_size P) c \<and>
    chunk_bytes (mbind_range c) \<subseteq> aligned_region (sys_page_size P) s)"
  using assms(3,4)
proof (induction ss arbitrary: g)
  case Nil
  then show ?case by (intro exI [of _ "[]"]) (simp add: step_simps)
next
  case (Cons s ss)
  let ?first = "if 2 ^ 20 < segment_length s then place_pages_adaptive P s ratio else done_step ()"
  obtain g1 r1 where first: "?first g = (g1, r1)" by fastforce
  have "\<exists>cs. issued g cs g1 \<and> (\<forall>c \<in> set cs. 2 ^ 20 < segment_length s \<and>
    page_aligned_call (sys_page_size P) c \<and> chunk_bytes (mbind_range c) \<subseteq> aligned_region (sys_page_size P) s)"
  proof (cases "2 ^ 20 < segment_length s")
    case True
    with first adaptive_mbind.place_segment_within [OF assms(1,2), of s ratio g g1 r1] Cons.prems(1)
    show ?thesis by (auto simp: place_pages_adaptive_def)
  next
    case False
    with first show ?thesis by (intro exI [of _ "[]"]) (simp add: step_simps)
  qed
  then obtain cs where cs: "issued g cs g1" "\<forall>c \<in> set cs. 2 ^ 20 < segment_length s \<and>
    page_aligned_call (sys_page_size P) c \<and> chunk_bytes (mbind_range c) \<subseteq> aligned_region (sys_page_size P) s"
    by blast
  show ?case
  proof (cases r1)
    case (Inl e)
    with Cons.prems(2) first have "g' = g1" by (simp add: then_step_def)
    with cs show ?thesis by (intro exI [of _ cs]) auto
  next
    case (Inr u)
    with Cons.prems(2) first have "place_all_pages_adaptive P ss ratio g1 = (g', r)"
      by (simp add: then_step_def)
    from Cons.IH [OF _ this] Cons.prems(1) obtain ds where "issued g1 ds g'"
      "\<forall>c \<in> set ds. \<exists>s \<in> set ss. 2 ^ 20 < segment_length s \<and>
        page_aligned_call (sys_page_size P) c \<and> chunk_bytes (mbind_range c) \<subseteq> aligned_region (sys_page_size P) s"
      by auto
    with cs issued_trans [OF cs(1)] show ?thesis by (intro exI [of _ "cs @ ds"]) auto
  qed
qed

section \<open>Concrete inputs\<close>

text \<open>A machine with two nodes and pages of 4096 bytes whose kernel accepts every call.\<close>

definition accepting :: "(nat \<times> nat set) platform" where
  "accepting = set_platform 4096 2 (\<lambda>_ _. (0, 0))"

definition two_nodes :: "rat \<Rightarrow> rat \<Rightarrow> node_record list" where
  "two_nodes x y =
     [\<lparr>node_id = 1, node_weight = Fin x, node_count = 0\<rparr>, \<lparr>node_id = 0, node_weight = Fin y, node_count = 0\<rparr>]"

definition start_world :: "rat \<Rightarrow> rat \<Rightarrow> 'b world" where
  "start_world x y =
     \<lparr>nodes_info = two_nodes x y, nodes_info_temp = two_nodes x y, sum_ww = Fin y, sum_nww = Fin x,
      weight_initialized = False, num_workers = 1, syscalls = []\<rparr>"

lemma page_size_4096 [simp]: "page_size_ok 4096"
  unfolding page_size_ok_def by (intro exI [of _ 12]) simp

lemma accepting_laws [simp]:
  "libnuma_ok accepting" "sys_page_size accepting = 4096" "configured_nodes accepting = 2"
  "page_size_ok (sys_page_size accepting)"
  by (simp_all add: accepting_def libnuma_ok_set_platform page_size_4096)

lemma mbind_accepting [simp]:
  "mbind_or_die accepting c msg g = (g\<lparr>syscalls := syscalls g @ [Mbind c]\<rparr>, Inr ())"
  by (simp add: mbind_or_die_eq accepting_def)

lemma accepting_masks [simp]:
  "mask_alloc accepting m = (m, {})" "mask_setall accepting (m, s) = (m, {..< m})"
  "mask_setbit accepting (m, s) j = (m, if j < m then insert j s else s)"
  "mask_clearbit accepting (m, s) j = (m, s - {j})"
  "mask_isset accepting (m, s) j = (j \<in> s)" "mask_size accepting (m, s) = m"
  by (simp_all add: accepting_def set_platform_def)

lemmas concrete_run = place_pages_weighted_def place_pages_weighted_initial_def
  place_pages_weighted_contiguous_def start_world_def two_nodes_def weighted_size_def contiguous_size_def
  fp_sub_def fp_of_int_def exact_fp truncate_rat_def step_simps then_step_def bit_index_def
  place_pages_def local_ratio_of_def outside_unit_def worker_nodes_def MAX_NODES_def page_align_up_def page_mask_def

lemma user_region_concrete: "user_region 4096 65536 65536"
  by (simp add: user_region_def page_size_4096)

section \<open>Properties\<close>

text \<open>
  C2: \<open>place_pages_weighted\<close> on a page-aligned user region, whether it returns or aborts,
  changes only the record of system calls; it asks for interleaved page-aligned ranges that
  follow each other from the start of the region without gap or overlap, never past its
  end; and the node set of each call is that of the nodes not yet visited, in the order of
  the node records.
\<close>

theorem weighted_interleave_tiles:
  assumes "libnuma_ok P" and "user_region (sys_page_size P) a len"
    and "place_pages_weighted P a len g = (g', r)"
  shows "\<exists>cs. g' = g\<lparr>syscalls := syscalls g @ map Mbind cs\<rparr> \<and>
    tiles_region (sys_page_size P) (unat a) (unat len) cs \<and>
    (\<forall>c \<in> set cs. mb_policy c = MPOL_INTERLEAVE) \<and>
    subseq (map (mask_nodes P \<circ> mb_mask) cs) (shrinking_sets {..< MAX_NODES} (nodes_info_temp g))"
  using place_pages_weighted_run [OF assms] by (simp add: issued_def list_all_iff)

lemma weighted_interleave_tiles_witness:
  "\<exists>cs. syscalls (fst (place_pages_weighted accepting 65536 65536 (start_world 25 75))) = map Mbind cs \<and>
     length cs = 2 \<and> tiles_region 4096 65536 65536 cs"
proof -
  let ?r = "place_pages_weighted accepting 65536 65536 (start_world 25 75)"
  have n: "length (syscalls (fst ?r)) = 2" by (simp add: concrete_run)
  obtain cs where cs: "fst ?r = (start_world 25 75)\<lparr>syscalls := syscalls (start_world 25 75) @ map Mbind cs\<rparr>"
    "tiles_region 4096 65536 65536 cs"
    using weighted_interleave_tiles [of accepting 65536 65536 "start_world 25 75" "fst ?r" "snd ?r"]
      user_region_concrete by auto
  have "syscalls (fst ?r) = map Mbind cs" unfolding cs(1) by (simp add: start_world_def)
  with n cs(2) show ?thesis by (metis length_map)
qed

text \<open>
  C10: \<open>place_pages_weighted_contiguous\<close> binds contiguous page-aligned ranges in the order of
  the node records, each to the node of its own record alone.
\<close>

theorem contiguous_binds_own_nodes:
  assumes "libnuma_ok P" and "user_region (sys_page_size P) a len"
    and "place_pages_weighted_contiguous P a len g = (g', r)"
  shows "\<exists>cs. g' = g\<lparr>syscalls := syscalls g @ map Mbind cs\<rparr> \<and>
    tiles_region (sys_page_size P) (unat a) (unat len) cs \<and>
    (\<forall>c \<in> set cs. mb_policy c = MPOL_BIND) \<and>
    subseq (map (mask_nodes P \<circ> mb_mask) cs) (map (own_node MAX_NODES) (nodes_info g))"
  using place_pages_weighted_contiguous_run [OF assms] by (simp add: issued_def list_all_iff)

lemma contiguous_binds_own_nodes_witness:
  "\<exists>cs. syscalls (fst (place_pages_weighted_contiguous accepting 65536 65536 (start_world 25 75))) = map Mbind cs \<and>
     length cs = 2 \<and> map (mask_nodes accepting \<circ> mb_mask) cs = [{1}, {0}]"
proof -
  let ?r = "place_pages_weighted_contiguous accepting 65536 65536 (start_world 25 75)"
  have n: "length (syscalls (fst ?r)) = 2" by (simp add: concrete_run)
  obtain cs where cs: "fst ?r = (start_world 25 75)\<lparr>syscalls := syscalls (start_world 25 75) @ map Mbind cs\<rparr>"
    "subseq (map (mask_nodes accepting \<circ> mb_mask) cs) [{1}, {0}]"
    using contiguous_binds_own_nodes [of accepting 65536 65536 "start_world 25 75" "fst ?r" "snd ?r"]
      user_region_concrete
    by (auto simp: start_world_def two_nodes_def own_node_def bit_index_def MAX_NODES_def)
  have "syscalls (fst ?r) = map Mbind cs" unfolding cs(1) by (simp add: start_world_def)
  with n cs(2) show ?thesis
    by (intro exI [of _ cs]) (auto simp: subseq_same_length)
qed

text \<open>
  C21: the adaptive placement. \<open>place_pages\<close> makes at most one call; if it makes one, it
  interleaves exactly the pages from some page boundary of the region to its end over the
  worker nodes, and the pages before that boundary keep the policy they had.
\<close>

theorem place_pages_binds_a_suffix:
  assumes "libnuma_ok P" and "user_region (sys_page_size P) a len"
    and "place_pages P a len ratio g = (g', r)"
  shows "g' = g \<or> (\<exists>c. g' = g\<lparr>syscalls := syscalls g @ [Mbind c]\<rparr> \<and>
    page_aligned_call (sys_page_size P) c \<and> unat a \<le> unat (mb_addr c) \<and>
    unat (mb_addr c) + unat (mb_len c) = unat a + unat len \<and> mb_policy c = MPOL_INTERLEAVE \<and>
    mask_nodes P (mb_mask c) = {j \<in> set (worker_nodes (num_workers g)). j < MAX_NODES})"
  using place_pages_issued [OF assms(2,1,3)] by (auto simp: issued_def)

lemma place_pages_binds_a_suffix_witness:
  "\<exists>c. syscalls (fst (place_pages accepting 65536 65536 (Fin (3 / 4)) (start_world 25 75))) = [Mbind c] \<and>
     unat (mb_addr c) + unat (mb_len c) = 131072 \<and> mask_nodes accepting (mb_mask c) = {0}"
proof -
  let ?r = "place_pages accepting 65536 65536 (Fin (3 / 4)) (start_world 25 75)"
  have ne: "syscalls (fst ?r) \<noteq> []" by (simp add: concrete_run)
  have "fst ?r = start_world 25 75 \<or> (\<exists>c. syscalls (fst ?r) = [Mbind c] \<and>
      unat (mb_addr c) + unat (mb_len c) = 131072 \<and> mask_nodes accepting (mb_mask c) = {0})"
    using place_pages_binds_a_suffix [of accepting 65536 65536 "Fin (3 / 4)" "start_world 25 75" "fst ?r" "snd ?r"]
      user_region_concrete
    by (auto simp: start_world_def worker_nodes_def MAX_NODES_def)
  with ne show ?thesis by (auto simp: start_world_def)
qed

end
