(* ===== verification/Uniform_Interleave.thy ===== *)
theory Uniform_Interleave
  imports Placement_Tiling
begin

text \<open>
  \<open>force_uniform_interleave\<close> of src/unstickymem/PagePlacement.cpp: its loop returns, and what
  it asks for is the round-robin plan of 64-page chunks, given here in closed form.
\<close>

section \<open>The plan\<close>

definition plan_call :: "nat \<Rightarrow> 'b list \<Rightarrow> addr \<Rightarrow> nat \<Rightarrow> nat \<Rightarrow> nat \<Rightarrow> 'b mbind_call" where
  "plan_call per masks a len node i =
     \<lparr>mb_addr = a + of_nat (i * per), mb_len = of_nat (min per (len - i * per)),
      mb_policy = MPOL_BIND, mb_mask = masks ! ((node + i) mod length masks)\<rparr>"

definition uniform_plan :: "nat \<Rightarrow> 'b list \<Rightarrow> addr \<Rightarrow> nat \<Rightarrow> nat \<Rightarrow> 'b mbind_call list" where
  "uniform_plan per masks a len node =
     map (plan_call per masks a len node) [0 ..< (len + per - 1) div per]"

lemma uniform_plan_empty [simp]: "0 < per \<Longrightarrow> uniform_plan per masks a 0 node = []"
  by (simp add: uniform_plan_def)

lemma plan_call_Suc:
  "plan_call per masks a len node (Suc i) =
     plan_call per masks (a + of_nat per) (len - per) ((node + 1) mod length masks) i"
  by (simp add: plan_call_def mod_simps algebra_simps)

lemma uniform_plan_unfold:
  assumes "0 < per" "0 < len" "node < length masks"
  shows "uniform_plan per masks a len node =
    \<lparr>mb_addr = a, mb_len = of_nat (min per len), mb_policy = MPOL_BIND, mb_mask = masks ! node\<rparr> #
    uniform_plan per masks (a + of_nat per) (len - per) ((node + 1) mod length masks)"
proof -
  have "(len + per - 1) div per = Suc ((len - per + per - 1) div per)"
  proof (cases "per \<le> len")
    case True
    then have "len + per - 1 = (len - per + per - 1) + per" using assms by simp
    then show ?thesis using assms(1) by (metis div_add_self2 neq0_conv Suc_eq_plus1)
  next
    case False
    with assms have "(len + per - 1) div per = 1" by (intro div_nat_eqI) auto
    with False assms show ?thesis by simp
  qed
  then show ?thesis
    using assms(3) by (simp add: uniform_plan_def map_upt_Suc plan_call_Suc del: upt_Suc)
      (simp add: plan_call_def)
qed

lemma mbind_range_make:
  "mbind_range \<lparr>mb_addr = a, mb_len = l, mb_policy = p, mb_mask = m\<rparr> = (unat a, unat l)"
  by (simp add: mbind_range_def)

text \<open>The plan covers the region exactly.\<close>

lemma uniform_plan_tiles:
  assumes "0 < unat (per :: u64)" "node < length masks" "0 < length masks" "unat a + len < 2 ^ 64"
    and "p dvd unat per" "p dvd len" "p dvd unat a"
  shows "contiguous_from (unat a) (map mbind_range (uniform_plan (unat per) masks a len node)) \<and>
    total_length (map mbind_range (uniform_plan (unat per) masks a len node)) = len \<and>
    (\<forall>c \<in> set (uniform_plan (unat per) masks a len node). p dvd unat (mb_addr c) \<and> p dvd unat (mb_len c))"
  using assms
proof (induction len arbitrary: a node rule: less_induct)
  case (less len)
  show ?case
  proof (cases "len = 0")
    case True
    with less.prems show ?thesis by simp
  next
    case False
    let ?m = "min (unat per) len"
    have m: "0 < ?m" "?m \<le> len" using False less.prems by auto
    have um: "unat (of_nat ?m :: u64) = ?m"
      using less.prems(4) m by (intro unat_of_nat_u64) linarith
    have dm: "p dvd ?m" using less.prems by (simp add: min_def)
    show ?thesis
    proof (cases "unat per \<le> len")
      case True
      have a: "unat (a + per) = unat a + unat per"
        using True less.prems(4) by (intro unat_add_nowrap) linarith
      have "contiguous_from (unat (a + per)) (map mbind_range
            (uniform_plan (unat per) masks (a + per) (len - unat per) ((node + 1) mod length masks))) \<and>
          total_length (map mbind_range
            (uniform_plan (unat per) masks (a + per) (len - unat per) ((node + 1) mod length masks)))
            = len - unat per \<and>
          (\<forall>c \<in> set (uniform_plan (unat per) masks (a + per) (len - unat per) ((node + 1) mod length masks)).
            p dvd unat (mb_addr c) \<and> p dvd unat (mb_len c))"
        using False less.prems True by (intro less.IH) (simp_all add: a)
      with False True less.prems um dm m a show ?thesis
        by (simp add: uniform_plan_unfold mbind_range_make)
    next
      case part: False
      then have "len - unat per = 0" by simp
      with False part less.prems um dm m show ?thesis
        by (simp add: uniform_plan_unfold mbind_range_make)
    qed
  qed
qed

section \<open>The loop\<close>

text \<open>
  The loop follows the plan: it returns after the last call, or aborts at the first call
  that the kernel refuses.
\<close>

definition follows :: "'b world \<Rightarrow> 'b mbind_call list \<Rightarrow> 'b world \<Rightarrow> unit result \<Rightarrow> bool" where
  "follows g plan g' r \<longleftrightarrow>
     r = Inr () \<and> issued g plan g' \<or>
     r = Inl (Aborted ''mbind error'') \<and> (\<exists>k < length plan. issued g (take (Suc k) plan) g')"

lemma follows_Cons:
  assumes "mbind_or_die P c ''mbind error'' g = (g1, r1)"
  shows "isl r1 \<Longrightarrow> follows g (c # plan) g1 r1"
    and "r1 = Inr () \<Longrightarrow> follows g1 plan g' r \<Longrightarrow> follows g (c # plan) g' r"
proof -
  have i: "issued g [c] g1" "isl r1 \<longrightarrow> r1 = Inl (Aborted ''mbind error'')"
    using mbind_or_die_issued [OF assms] by auto
  show "isl r1 \<Longrightarrow> follows g (c # plan) g1 r1"
    using i by (auto simp: follows_def intro!: exI [of _ 0])
  assume "r1 = Inr ()" "follows g1 plan g' r"
  then consider "r = Inr ()" "issued g1 plan g'"
    | k where "r = Inl (Aborted ''mbind error'')" "k < length plan" "issued g1 (take (Suc k) plan) g'"
    by (auto simp: follows_def)
  then show "follows g (c # plan) g' r"
  proof cases
    case 1
    with issued_trans [OF i(1)] show ?thesis by (simp add: follows_def)
  next
    case 2
    with issued_trans [OF i(1) 2(3)] show ?thesis
      by (auto simp: follows_def intro!: exI [of _ "Suc k"])
  qed
qed

lemma uniform_loop_follows:
  assumes "0 < unat per" "node < length masks"
  shows "\<exists>g' r. uniform_loop P per masks a len node g = Some (g', r) \<and>
    follows g (uniform_plan (unat per) masks a (unat len) node) g' r"
  using assms(2)
proof (induction "unat len" arbitrary: a len node g rule: less_induct)
  case less
  show ?case
  proof (cases "len = 0")
    case True
    with assms(1) show ?thesis
      by (simp add: uniform_loop.simps follows_def)
  next
    case False
    then have pos: "0 < unat len" by (simp add: unat_gt_0)
    let ?m = "min per len"
    have um: "unat ?m = min (unat per) (unat len)" by (simp add: min_def word_le_nat_alt)
    have m: "?m = of_nat (min (unat per) (unat len))" by (simp flip: um)
    have rest: "unat (len - ?m) = unat len - unat per"
      by (subst unat_diff_le) (auto simp: um)
    let ?c = "\<lparr>mb_addr = a, mb_len = ?m, mb_policy = MPOL_BIND, mb_mask = masks ! node\<rparr>"
    let ?next = "(node + 1) mod length masks"
    obtain g1 r1 where c: "mbind_or_die P ?c ''mbind error'' g = (g1, r1)" by fastforce
    have plan: "uniform_plan (unat per) masks a (unat len) node =
        ?c # uniform_plan (unat per) masks (a + ?m) (unat (len - ?m)) ?next"
      using uniform_plan_unfold [OF assms(1) pos less.prems, of a] assms(1)
      by (cases "unat per \<le> unat len") (simp_all add: unat_diff_le word_le_nat_alt m)
    show ?thesis
    proof (cases "isl r1")
      case True
      with False less.prems c follows_Cons(1) [OF c] show ?thesis
        by (simp add: uniform_loop.simps [of P per masks a len] plan Let_def)
    next
      case ok: False
      have "?next < length masks" using less.prems by (intro mod_less_divisor) linarith
      moreover have "unat (len - ?m) < unat len" using rest pos assms(1) by simp
      ultimately obtain g' r where
        "uniform_loop P per masks (a + ?m) (len - ?m) ?next g1 = Some (g', r)"
        "follows g1 (uniform_plan (unat per) masks (a + ?m) (unat (len - ?m)) ?next) g' r"
        using less.hyps by blast
      moreover have "r1 = Inr ()" using ok by (cases r1) auto
      ultimately show ?thesis
        using False less.prems c follows_Cons(2) [OF c] ok
        by (simp add: uniform_loop.simps [of P per masks a len] plan Let_def)
    qed
  qed
qed

section \<open>The function\<close>

text \<open>
  The chunk of 64 pages is computed in \<open>int\<close>, which is exact for pages up to 16 MiB. The
  masks are those of the single nodes.
\<close>

lemma chunk_length:
  assumes "page_size_ok psz" "page_bytes psz \<le> 2 ^ 24"
  shows "unat (scast (64 * psz) :: u64) = 64 * page_bytes psz"
    and "unat (scast psz :: u64) = page_bytes psz"
proof -
  have small: "unat (scast w :: u64) = unat w" if "unat w < 2 ^ 31" for w :: int32
  proof -
    have "int (unat w) < int (2 ^ 31)" using that by (simp only: of_nat_less_iff)
    then have u: "uint w < 2 ^ 31" by simp
    then have "sint w = uint w" using order_trans [OF _ uint_ge_0 [of w], of "- 2147483648"]
      by (simp add: sint_uint signed_take_bit_int_eq_self_iff)
    then have "(scast w :: u64) = of_int (uint w)" by (simp add: scast_eq)
    then have "uint (scast w :: u64) = uint w"
      using u by (simp add: unsigned_ucast_eq take_bit_int_eq_self)
    then show ?thesis by (simp only: unat_eq_nat_uint)
  qed
  have "unat (64 * psz) = 64 * page_bytes psz"
    using assms(2) by (subst unat_mult_lem [THEN iffD1]) auto
  with assms(2) show "unat (scast (64 * psz) :: u64) = 64 * page_bytes psz"
    using small [of "64 * psz"] by simp
  show "unat (scast psz :: u64) = page_bytes psz" by (rule sint_page_size(2) [OF assms(1)])
qed

lemma single_node_masks_nth:
  assumes "libnuma_ok P" "0 < configured_nodes P" "configured_nodes P < 2 ^ 31" "i < nat (configured_nodes P)"
  shows "mask_nodes P (single_node_masks P ! i) = {i}"
proof -
  have "bit_index (configured_nodes P) = nat (configured_nodes P)"
    using assms by (simp add: bit_index_def)
  with assms show ?thesis by (simp add: single_node_masks_def mask_nodes_laws)
qed

lemma force_uniform_interleave_follows:
  assumes "user_region (sys_page_size P) a len" "page_bytes (sys_page_size P) \<le> 2 ^ 24"
    and "0 < configured_nodes P"
  shows "\<exists>g' r. force_uniform_interleave P a len g = Some (g', r) \<and>
    follows g (uniform_plan (64 * page_bytes (sys_page_size P)) (single_node_masks P) a (unat len) 0) g' r"
proof -
  note ur = user_regionD [OF assms(1)]
  note ch = chunk_length [OF ur(1) assms(2)]
  have "unat (len mod scast (sys_page_size P)) = 0"
    using ur(3) by (simp add: unat_mod ch(2) mod_eq_0_iff_dvd)
  then have "len mod scast (sys_page_size P) = 0" by (simp add: unat_eq_zero)
  moreover have "0 < length (single_node_masks P)" using assms(3) by (simp add: single_node_masks_def)
  ultimately show ?thesis
    using uniform_loop_follows [of "scast (64 * sys_page_size P)" 0 "single_node_masks P" P a len g]
      page_bytes_pos [OF ur(1)]
    by (simp add: force_uniform_interleave_def ch(1))
qed

lemma force_uniform_interleave_misaligned:
  "len mod scast (sys_page_size P) \<noteq> 0 \<Longrightarrow> force_uniform_interleave P a len g =
     Some (g, Inl (Aborted ''Size of region must be a multiple of the page size''))"
  by (simp add: force_uniform_interleave_def)

section \<open>Properties\<close>

text \<open>
  C9: \<open>force_uniform_interleave\<close> returns on every page-aligned region and follows a plan in
  closed form: consecutive chunks of 64 pages, the last one possibly shorter, that cover
  exactly the region, chunk \<open>i\<close> bound to node \<open>i\<close> modulo the number of nodes. It succeeds
  after the whole plan, or aborts right after the first call that the kernel refuses.
\<close>

theorem uniform_interleave_round_robin:
  assumes "libnuma_ok P" and "user_region (sys_page_size P) a len"
    and "page_bytes (sys_page_size P) \<le> 2 ^ 24"
    and "0 < configured_nodes P" and "configured_nodes P < 2 ^ 31"
  shows "\<exists>cs g' r. force_uniform_interleave P a len g = Some (g', r) \<and> follows g cs g' r \<and>
    contiguous_from (unat a) (map mbind_range cs) \<and> total_length (map mbind_range cs) = unat len \<and>
    (\<forall>i < length cs. mb_policy (cs ! i) = MPOL_BIND \<and>
       mask_nodes P (mb_mask (cs ! i)) = {i mod nat (configured_nodes P)} \<and>
       unat (mb_len (cs ! i)) = min (64 * page_bytes (sys_page_size P))
         (unat len - i * (64 * page_bytes (sys_page_size P))))"
proof -
  let ?p = "page_bytes (sys_page_size P)" and ?n = "nat (configured_nodes P)"
  let ?cs = "uniform_plan (64 * ?p) (single_node_masks P) a (unat len) 0"
  note ur = user_regionD [OF assms(2)]
  have n: "length (single_node_masks P) = ?n" "0 < ?n" using assms(4) by (simp_all add: single_node_masks_def)
  have per: "unat (of_nat (64 * ?p) :: u64) = 64 * ?p" using assms(3) by (intro unat_of_nat_u64) simp
  have "contiguous_from (unat a) (map mbind_range ?cs) \<and> total_length (map mbind_range ?cs) = unat len"
    using uniform_plan_tiles [of "of_nat (64 * ?p)" 0 "single_node_masks P" a "unat len" 1]
      n ur(4) page_bytes_pos [OF ur(1)] unfolding per by simp
  moreover have "mb_policy (?cs ! i) = MPOL_BIND \<and> mask_nodes P (mb_mask (?cs ! i)) = {i mod ?n} \<and>
      unat (mb_len (?cs ! i)) = min (64 * ?p) (unat len - i * (64 * ?p))" if "i < length ?cs" for i
  proof -
    have "?cs ! i = plan_call (64 * ?p) (single_node_masks P) a (unat len) 0 i"
      using that by (simp add: uniform_plan_def)
    moreover have "i mod ?n < ?n" using n(2) by simp
    moreover have "min (64 * ?p) (unat len - i * (64 * ?p)) < 2 ^ 64"
      using unat_u64_less [of len] by linarith
    ultimately show ?thesis
      using single_node_masks_nth [OF assms(1,4,5)] unat_of_nat_u64
      by (simp add: plan_call_def n(1))
  qed
  ultimately show ?thesis
    using force_uniform_interleave_follows [OF assms(2,3,4), of g] by blast
qed

lemma uniform_interleave_round_robin_witness:
  "\<exists>cs g' r. force_uniform_interleave accepting 65536 65536 (start_world 25 75) = Some (g', r) \<and>
     follows (start_world 25 75) cs g' r \<and> total_length (map mbind_range cs) = 65536"
  using uniform_interleave_round_robin [of accepting 65536 65536 "start_world 25 75"] user_region_concrete
  by auto

end
