(* ===== verification/Maps_Line.thy ===== *)
theory Maps_Line
  imports Memory_Segment
begin

text \<open>
  The constructor \<open>MemorySegment(char*)\<close> of src/unstickymem/memory/MemorySegment.cpp, which
  reads one line of /proc/self/maps with
  \<^verbatim>\<open>sscanf(line, "%lx-%lx %7s %lx %u:%u %lu %n%*[^\n]%n", ...)\<close>.
  The conversions are modelled as the C standard gives them: numeric conversions skip white
  space, take an optional sign (and \<open>0x\<close> for base 16) and the longest run of digits, and
  fail without one; white space in the format skips any amount of it, also none; other
  characters must match exactly. A conversion or character that fails ends the call.
\<close>

section \<open>Characters\<close>

definition is_space :: "char \<Rightarrow> bool" where
  "is_space c \<longleftrightarrow> c \<in> {CHR '' '', CHR 0x09, CHR 0x0A, CHR 0x0B, CHR 0x0C, CHR 0x0D}"

definition digit_of :: "nat \<Rightarrow> char \<Rightarrow> nat option" where
  "digit_of base c =
     (let n = of_char c :: nat;
          v = (if 48 \<le> n \<and> n \<le> 57 then n - 48
               else if 97 \<le> n \<and> n \<le> 102 then n - 87
               else if 65 \<le> n \<and> n \<le> 70 then n - 55 else base)
      in if v < base then Some v else None)"

definition is_digit :: "nat \<Rightarrow> char \<Rightarrow> bool" where
  "is_digit base c \<longleftrightarrow> digit_of base c \<noteq> None"

section \<open>The conversions\<close>

definition skip_space :: "string \<Rightarrow> string" where
  "skip_space s = dropWhile is_space s"

fun digits_value :: "nat \<Rightarrow> int \<Rightarrow> string \<Rightarrow> int" where
  "digits_value base acc [] = acc"
| "digits_value base acc (c # cs) =
     digits_value base (acc * int base + (case digit_of base c of Some d \<Rightarrow> int d | None \<Rightarrow> 0)) cs"

definition skip_hex_prefix :: "nat \<Rightarrow> string \<Rightarrow> string" where
  "skip_hex_prefix base s =
     (case s of
        c # x # cs \<Rightarrow>
          if base = 16 \<and> c = CHR ''0'' \<and> x \<in> {CHR ''x'', CHR ''X''} then cs else s
      | _ \<Rightarrow> s)"

text \<open>
  \<open>%lx\<close> and \<open>%lu\<close>: the value saturates at \<open>ULONG_MAX\<close>; a minus sign negates it modulo
  \<open>2 ^ 64\<close>. The result is the value and the rest of the input, or \<open>None\<close> on a failure.
\<close>

definition scan_ulong :: "nat \<Rightarrow> string \<Rightarrow> (u64 \<times> string) option" where
  "scan_ulong base s =
     (let s1 = skip_space s;
          negative = (case s1 of c # _ \<Rightarrow> c = CHR ''-'' | [] \<Rightarrow> False);
          s2 = (case s1 of c # cs \<Rightarrow> if c \<in> {CHR ''-'', CHR ''+''} then cs else s1 | [] \<Rightarrow> []);
          s3 = skip_hex_prefix base s2;
          ds = takeWhile (is_digit base) s3;
          v = digits_value base 0 ds;
          w = (if 2 ^ 64 \<le> v then - 1 else if negative then - of_int v else of_int v)
      in if ds = [] then None else Some (w, dropWhile (is_digit base) s3))"

text \<open>\<open>%u\<close>: the same conversion, narrowed to \<open>unsigned int\<close>.\<close>

definition scan_uint :: "string \<Rightarrow> (32 word \<times> string) option" where
  "scan_uint s = map_option (\<lambda>(v, r). (ucast v, r)) (scan_ulong 10 s)"

definition scan_word :: "nat \<Rightarrow> string \<Rightarrow> (string \<times> string) option" where
  "scan_word width s =
     (let s1 = skip_space s; w = take width (takeWhile (\<lambda>c. \<not> is_space c) s1)
      in if w = [] then None else Some (w, drop (length w) s1))"

definition scan_char :: "char \<Rightarrow> string \<Rightarrow> string option" where
  "scan_char c s = (case s of d # r \<Rightarrow> if d = c then Some r else None | [] \<Rightarrow> None)"

section \<open>The constructor\<close>

record maps_fields =
  field_start :: u64
  field_end :: u64
  field_perms :: string
  field_offset :: u64
  field_major :: "32 word"
  field_minor :: "32 word"
  field_inode :: u64
  field_rest :: string      \<comment> \<open>what follows the seventh conversion\<close>

text \<open>\<open>None\<close>: fewer than seven conversions were assigned.\<close>

definition scan_maps_fields :: "string \<Rightarrow> maps_fields option" where
  "scan_maps_fields line =
     Option.bind (scan_ulong 16 line) (\<lambda>(a, s1).
     Option.bind (scan_char CHR ''-'' s1) (\<lambda>s2.
     Option.bind (scan_ulong 16 s2) (\<lambda>(b, s3).
     Option.bind (scan_word 7 s3) (\<lambda>(p, s4).
     Option.bind (scan_ulong 16 s4) (\<lambda>(off, s5).
     Option.bind (scan_uint s5) (\<lambda>(maj, s6).
     Option.bind (scan_char CHR '':'' s6) (\<lambda>s7.
     Option.bind (scan_uint s7) (\<lambda>(mi, s8).
     Option.bind (scan_ulong 10 s8) (\<lambda>(ino, s9).
       Some \<lparr>field_start = a, field_end = b, field_perms = p, field_offset = off,
         field_major = maj, field_minor = mi, field_inode = ino, field_rest = s9\<rparr>)))))))))"

text \<open>
  The name: \<open>%n\<close> stores where the text after the white space begins; the second \<open>%n\<close> is
  reached only if at least one character that is not a newline follows. Both start as 0.
\<close>

definition maps_name_start :: "string \<Rightarrow> string \<Rightarrow> nat" where
  "maps_name_start line rest = length line - length (skip_space rest)"

definition maps_name_end :: "string \<Rightarrow> string \<Rightarrow> nat" where
  "maps_name_end line rest =
     (let name = takeWhile (\<lambda>c. c \<noteq> CHR 0x0A) (skip_space rest)
      in if name = [] then 0 else maps_name_start line rest + length name)"

definition segment_of_maps_line :: "string \<Rightarrow> memory_segment result" where
  "segment_of_maps_line line =
     (case scan_maps_fields line of
        None \<Rightarrow> Inl (Aborted ''FAILED TO PARSE'')
      | Some f \<Rightarrow>
          let i = maps_name_start line (field_rest f); j = maps_name_end line (field_rest f)
          in Inr \<lparr>start_address = field_start f, end_address = field_end f - 1,
               segment_name = (if i < j then take (j - i) (drop i line) else [])\<rparr>)"

section \<open>Lemmas on the conversions\<close>

definition digit_string :: "nat \<Rightarrow> string \<Rightarrow> bool" where
  "digit_string base s \<longleftrightarrow> s \<noteq> [] \<and> list_all (is_digit base) s"

text \<open>What may follow a number: nothing that a conversion would still read.\<close>

definition ends_number :: "nat \<Rightarrow> string \<Rightarrow> bool" where
  "ends_number base s \<longleftrightarrow>
     (case s of [] \<Rightarrow> True | c # _ \<Rightarrow> \<not> is_digit base c \<and> c \<notin> {CHR ''x'', CHR ''X''})"

lemma digit_not_space: "is_digit base c \<Longrightarrow> base \<le> 16 \<Longrightarrow> \<not> is_space c"
  by (auto simp: is_digit_def digit_of_def is_space_def Let_def split: if_splits)

lemma digit_not_special:
  "is_digit base c \<Longrightarrow> base \<le> 16 \<Longrightarrow>
     c \<notin> {CHR ''-'', CHR ''+'', CHR ''x'', CHR ''X'', CHR '':''}"
  by (auto simp: is_digit_def digit_of_def Let_def split: if_splits)

lemma digit_10_16: "is_digit 10 c \<Longrightarrow> is_digit 16 c"
  by (auto simp: is_digit_def digit_of_def Let_def split: if_splits)

lemma special_not_digit [simp]:
  "base \<le> 16 \<Longrightarrow> \<not> is_digit base CHR '' ''"
  "base \<le> 16 \<Longrightarrow> \<not> is_digit base CHR '':''"
  "base \<le> 16 \<Longrightarrow> \<not> is_digit base CHR ''-''"
  by (auto simp: is_digit_def digit_of_def Let_def)

lemma space_not_digit: "is_space c \<Longrightarrow> base \<le> 16 \<Longrightarrow> \<not> is_digit base c"
  using digit_not_space by blast

lemma ends_number_simps [simp]:
  "ends_number base []"
  "base \<le> 16 \<Longrightarrow> ends_number base (CHR '' '' # s)"
  "base \<le> 16 \<Longrightarrow> ends_number base (CHR '':'' # s)"
  "base \<le> 16 \<Longrightarrow> ends_number base (CHR ''-'' # s)"
  by (simp_all add: ends_number_def)

lemma skip_space_simps [simp]:
  "skip_space [] = []"
  "skip_space (c # s) = (if is_space c then skip_space s else c # s)"
  by (simp_all add: skip_space_def)

lemma is_space_blank [simp]: "is_space CHR '' ''"
  by (simp add: is_space_def)

lemma skip_space_append: "list_all is_space sp \<Longrightarrow> skip_space (sp @ s) = skip_space s"
  by (induction sp) auto

lemma skip_hex_prefix_digits:
  assumes "base \<le> 16" "list_all (is_digit base) ds" "ends_number base r"
  shows "skip_hex_prefix base (ds @ r) = ds @ r"
proof -
  have "x \<notin> {CHR ''x'', CHR ''X''}" if "ds @ r = c # x # cs" "c = CHR ''0''" "base = 16" for c x cs
  proof (cases ds)
    case Nil
    with that assms show ?thesis by (auto simp: ends_number_def is_digit_def digit_of_def Let_def)
  next
    case (Cons d ds')
    with that(1) have "ds' @ r = x # cs" by simp
    with Cons assms show ?thesis
      by (cases ds') (auto simp: ends_number_def dest: digit_not_special)
  qed
  then show ?thesis by (auto simp: skip_hex_prefix_def split: list.splits)
qed

text \<open>A run of digits is read whole, after any white space.\<close>

lemma takeWhile_digits:
  assumes "list_all (is_digit base) ds" "ends_number base r"
  shows "takeWhile (is_digit base) (ds @ r) = ds" "dropWhile (is_digit base) (ds @ r) = r"
  using assms
  by (induction ds) (auto simp: ends_number_def split: list.splits)

lemma scan_ulong_digits:
  assumes "base \<le> 16" "digit_string base ds" "ends_number base r" "list_all is_space sp"
    and "digits_value base 0 ds < 2 ^ 64"
  shows "scan_ulong base (sp @ ds @ r) = Some (of_int (digits_value base 0 ds), r)"
proof -
  obtain c cs where ds: "ds = c # cs" "is_digit base c"
    using assms(2) by (cases ds) (auto simp: digit_string_def)
  have sk: "skip_space (sp @ c # cs @ r) = c # cs @ r"
    using ds assms digit_not_space by (simp add: skip_space_append)
  have "c \<notin> {CHR ''-'', CHR ''+''}" using ds assms(1) digit_not_special by blast
  moreover have "list_all (is_digit base) ds" using assms(2) by (simp add: digit_string_def)
  ultimately show ?thesis
    using ds assms takeWhile_digits [of base ds r] skip_hex_prefix_digits [of base ds r]
    by (simp add: scan_ulong_def sk Let_def)
qed

lemma scan_ulong_no_digit:
  assumes "\<not> is_digit 10 c" "\<not> is_space c" "c \<notin> {CHR ''-'', CHR ''+''}"
  shows "scan_ulong 10 (c # s) = None"
proof -
  have "skip_hex_prefix 10 (c # s) = c # s"
    by (simp add: skip_hex_prefix_def split: list.splits)
  with assms show ?thesis by (simp add: scan_ulong_def Let_def)
qed

lemma scan_uint_digits:
  assumes "digit_string 10 ds" "ends_number 10 r" "list_all is_space sp" "digits_value 10 0 ds < 2 ^ 64"
  shows "\<exists>v. scan_uint (sp @ ds @ r) = Some (v, r)"
  using scan_ulong_digits [of 10 ds r sp] assms by (simp add: scan_uint_def)

text \<open>
  A number that contains a digit of base 16 only: base 10 either reads nothing, or stops in
  front of that digit.
\<close>

lemma scan_uint_stops:
  assumes "digit_string 16 ds" "\<not> list_all (is_digit 10) ds" "list_all is_space sp"
  shows "scan_uint (sp @ ds @ r) = None \<or>
    (\<exists>v c s. scan_uint (sp @ ds @ r) = Some (v, c # s) \<and> is_digit 16 c \<and> \<not> is_digit 10 c)"
proof -
  obtain c cs where ds: "ds = c # cs" "is_digit 16 c"
    using assms(1) by (cases ds) (auto simp: digit_string_def)
  have sk: "skip_space (sp @ c # cs @ r) = c # cs @ r"
    using ds assms digit_not_space by (simp add: skip_space_append)
  have sg: "c \<notin> {CHR ''-'', CHR ''+''}" using ds digit_not_special by blast
  have hx: "skip_hex_prefix 10 (c # cs @ r) = c # cs @ r"
    by (simp add: skip_hex_prefix_def split: list.splits)
  define rest where "rest = dropWhile (is_digit 10) ds"
  have "rest \<noteq> []" using assms(2) by (auto simp: rest_def list_all_iff dropWhile_eq_Nil_conv)
  then obtain d s where d: "rest = d # s" by (cases rest) auto
  then have nd: "\<not> is_digit 10 d" using hd_dropWhile [of "is_digit 10" ds] by (simp add: rest_def)
  have "d \<in> set ds" using d set_dropWhileD [of d "is_digit 10" ds] by (simp add: rest_def)
  then have hd: "is_digit 16 d" using assms(1) by (auto simp: digit_string_def list_all_iff)
  have "dropWhile (is_digit 10) (ds @ r) = d # s @ r"
    using d assms(2) by (simp add: rest_def list_all_iff dropWhile_append1) 
      (metis append_Cons dropWhile_append1)
  then show ?thesis using nd hd ds sg
    by (auto simp: scan_uint_def scan_ulong_def sk hx Let_def)
qed

lemma scan_word_all:
  assumes "list_all is_space sp" "w \<noteq> []" "list_all (\<lambda>c. \<not> is_space c) w" "length w \<le> 7"
  shows "scan_word 7 (sp @ w @ CHR '' '' # r) = Some (w, CHR '' '' # r)"
proof -
  have "takeWhile (\<lambda>c. \<not> is_space c) (w @ CHR '' '' # r) = w"
    using assms(3) by (induction w) auto
  moreover have "skip_space (sp @ w @ CHR '' '' # r) = w @ CHR '' '' # r"
    using assms by (cases w) (auto simp: skip_space_append)
  ultimately show ?thesis using assms by (simp add: scan_word_def Let_def)
qed

section \<open>Reading a line of /proc/self/maps\<close>

text \<open>
  The documented layout of a line, proc(5): addresses, offset and the two device numbers in
  hexadecimal, the inode in decimal, then blanks and the name, which may be empty.
\<close>

type_synonym digits = string

definition maps_line ::
  "digits \<Rightarrow> digits \<Rightarrow> string \<Rightarrow> digits \<Rightarrow> digits \<Rightarrow> digits \<Rightarrow> digits \<Rightarrow> string \<Rightarrow> string \<Rightarrow> string" where
  "maps_line a b perms off maj mi ino pad name =
     a @ ''-'' @ b @ '' '' @ perms @ '' '' @ off @ '' '' @ maj @ '':'' @ mi @ '' '' @ ino @
     pad @ name @ [CHR 0x0A]"

definition maps_line_ok ::
  "digits \<Rightarrow> digits \<Rightarrow> string \<Rightarrow> digits \<Rightarrow> digits \<Rightarrow> digits \<Rightarrow> digits \<Rightarrow> string \<Rightarrow> string \<Rightarrow> bool" where
  "maps_line_ok a b perms off maj mi ino pad name \<longleftrightarrow>
     list_all (\<lambda>s. digit_string 16 s \<and> digits_value 16 0 s < 2 ^ 64) [a, b, off] \<and>
     list_all (\<lambda>s. digit_string 16 s \<and> digits_value 10 0 s < 2 ^ 64) [maj, mi] \<and>
     digit_string 10 ino \<and> digits_value 10 0 ino < 2 ^ 64 \<and>
     perms \<noteq> [] \<and> length perms \<le> 7 \<and> list_all (\<lambda>c. \<not> is_space c) perms \<and>
     pad \<noteq> [] \<and> list_all (\<lambda>c. c = CHR '' '') pad \<and>
     list_all (\<lambda>c. c \<noteq> CHR 0x0A) name \<and> (name = [] \<or> \<not> is_space (hd name))"

lemmas scan_digits_here = scan_ulong_digits [where sp = "[]", simplified]
lemmas scan_digits_blank = scan_ulong_digits [where sp = "'' ''", simplified]
lemmas scan_word_blank = scan_word_all [where sp = "'' ''", simplified]

lemma digit_string_16: "digit_string 16 s \<Longrightarrow> list_all (is_digit 10) s \<Longrightarrow> digit_string 10 s"
  by (simp add: digit_string_def)

text \<open>Up to the device numbers, the constructor reads exactly the line's fields.\<close>

lemma scan_maps_to_device:
  assumes "maps_line_ok a b perms off maj mi ino pad name"
  shows "scan_maps_fields (maps_line a b perms off maj mi ino pad name) =
    Option.bind (scan_uint (CHR '' '' # maj @ '':'' @ mi @ '' '' @ ino @ pad @ name @ [CHR 0x0A])) (\<lambda>(j, s6).
    Option.bind (scan_char CHR '':'' s6) (\<lambda>s7.
    Option.bind (scan_uint s7) (\<lambda>(n, s8).
    Option.bind (scan_ulong 10 s8) (\<lambda>(i, s9).
      Some \<lparr>field_start = of_int (digits_value 16 0 a), field_end = of_int (digits_value 16 0 b),
        field_perms = perms, field_offset = of_int (digits_value 16 0 off),
        field_major = j, field_minor = n, field_inode = i, field_rest = s9\<rparr>))))"
  using assms
  by (simp add: scan_maps_fields_def maps_line_def maps_line_ok_def scan_digits_here
      scan_digits_blank scan_word_blank scan_char_def)

lemma scan_maps_decimal_device:
  assumes "maps_line_ok a b perms off maj mi ino pad name" "list_all (is_digit 10) (maj @ mi)"
  shows "\<exists>j n. scan_maps_fields (maps_line a b perms off maj mi ino pad name) =
    Some \<lparr>field_start = of_int (digits_value 16 0 a), field_end = of_int (digits_value 16 0 b),
      field_perms = perms, field_offset = of_int (digits_value 16 0 off),
      field_major = j, field_minor = n, field_inode = of_int (digits_value 10 0 ino),
      field_rest = pad @ name @ [CHR 0x0A]\<rparr>"
proof -
  let ?r1 = "CHR '' '' # ino @ pad @ name @ [CHR 0x0A]"
  from assms have ok: "digit_string 10 maj" "digit_string 10 mi" "digit_string 10 ino"
    "digits_value 10 0 maj < 2 ^ 64" "digits_value 10 0 mi < 2 ^ 64" "digits_value 10 0 ino < 2 ^ 64"
    by (simp_all add: maps_line_ok_def digit_string_16)
  have end10: "ends_number 10 (pad @ name @ [CHR 0x0A])"
    using assms(1) by (cases pad) (auto simp: maps_line_ok_def)
  obtain j n where "scan_uint ('' '' @ maj @ (CHR '':'' # mi @ ?r1)) = Some (j, CHR '':'' # mi @ ?r1)"
    and "scan_uint ([] @ mi @ ?r1) = Some (n, ?r1)"
    using scan_uint_digits [OF ok(1) _ _ ok(4), of "CHR '':'' # mi @ ?r1" "'' ''"]
      scan_uint_digits [OF ok(2) _ _ ok(5), of ?r1 "[]"] by auto
  then show ?thesis
    using ok end10 by (simp add: scan_maps_to_device [OF assms(1)] scan_char_def scan_digits_blank)
qed

lemma scan_maps_hex_device:
  assumes "maps_line_ok a b perms off maj mi ino pad name" "\<not> list_all (is_digit 10) (maj @ mi)"
  shows "scan_maps_fields (maps_line a b perms off maj mi ino pad name) = None"
proof (cases "list_all (is_digit 10) maj")
  case False
  let ?r = "'':'' @ mi @ '' '' @ ino @ pad @ name @ [CHR 0x0A]"
  from assms(1) have "digit_string 16 maj" by (simp add: maps_line_ok_def)
  from scan_uint_stops [OF this False, of "'' ''" ?r]
  consider "scan_uint (CHR '' '' # maj @ ?r) = None"
    | v c s where "scan_uint (CHR '' '' # maj @ ?r) = Some (v, c # s)" "is_digit 16 c" by auto
  then show ?thesis
  proof cases
    case 1
    then show ?thesis by (simp add: scan_maps_to_device [OF assms(1)])
  next
    case (2 v c s)
    then have "c \<noteq> CHR '':''" using digit_not_special by blast
    with 2 show ?thesis by (simp add: scan_maps_to_device [OF assms(1)] scan_char_def)
  qed
next
  case True
  let ?r1 = "CHR '' '' # ino @ pad @ name @ [CHR 0x0A]"
  from assms True have ok: "digit_string 10 maj" "digits_value 10 0 maj < 2 ^ 64"
    "digit_string 16 mi" "\<not> list_all (is_digit 10) mi"
    by (simp_all add: maps_line_ok_def digit_string_16)
  obtain j where j: "scan_uint (CHR '' '' # maj @ CHR '':'' # mi @ ?r1) = Some (j, CHR '':'' # mi @ ?r1)"
    using scan_uint_digits [OF ok(1) _ _ ok(2), of "CHR '':'' # mi @ ?r1" "'' ''"] by auto
  from scan_uint_stops [OF ok(3,4), of "[]" ?r1]
  consider "scan_uint (mi @ ?r1) = None"
    | v c s where "scan_uint (mi @ ?r1) = Some (v, c # s)" "is_digit 16 c" "\<not> is_digit 10 c" by auto
  then show ?thesis
  proof cases
    case 1
    with j show ?thesis by (simp add: scan_maps_to_device [OF assms(1)] scan_char_def)
  next
    case (2 v c s)
    then have "scan_ulong 10 (c # s) = None"
      using digit_not_special [of 16 c] digit_not_space [of 16 c] by (intro scan_ulong_no_digit) auto
    with 2 j show ?thesis by (simp add: scan_maps_to_device [OF assms(1)] scan_char_def)
  qed
qed

lemma maps_line_pad:
  assumes "maps_line_ok a b perms off maj mi ino pad name"
  shows "list_all is_space pad"
proof -
  from assms have "list_all (\<lambda>c. c = CHR '' '') pad" by (simp add: maps_line_ok_def)
  then show ?thesis by (rule list.pred_mono_strong) simp
qed

lemma maps_name_read:
  assumes "maps_line_ok a b perms off maj mi ino pad name"
  defines "line \<equiv> maps_line a b perms off maj mi ino pad name"
  defines "rest \<equiv> pad @ name @ [CHR 0x0A]"
  shows "(if maps_name_start line rest < maps_name_end line rest
    then take (maps_name_end line rest - maps_name_start line rest) (drop (maps_name_start line rest) line)
    else []) = name"
proof (cases "name = []")
  case True
  have "is_space CHR 0x0A" by (simp add: is_space_def)
  moreover note maps_line_pad [OF assms(1)]
  ultimately have "skip_space rest = []" using True by (simp add: rest_def skip_space_append)
  then show ?thesis using True by (simp add: maps_name_end_def)
next
  case False
  from False assms(1) obtain c cs where nm: "name = c # cs" "\<not> is_space c"
    by (cases name) (simp_all add: maps_line_ok_def)
  have sk: "skip_space rest = name @ [CHR 0x0A]"
    by (simp add: rest_def skip_space_append maps_line_pad [OF assms(1)] nm)
  have "list_all (\<lambda>c. c \<noteq> CHR 0x0A) name" using assms(1) by (simp add: maps_line_ok_def)
  then have tw: "takeWhile (\<lambda>c. c \<noteq> CHR 0x0A) (name @ [CHR 0x0A]) = name"
    by (induction name) simp_all
  obtain pre where line: "line = pre @ name @ [CHR 0x0A]"
    by (auto simp: line_def maps_line_def)
  have "maps_name_start line rest = length pre" by (simp add: maps_name_start_def sk line)
  moreover from this have "maps_name_end line rest = length pre + length name"
    using False by (simp add: maps_name_end_def sk tw)
  ultimately show ?thesis using False by (simp add: line)
qed

section \<open>Properties\<close>

text \<open>
  C15: reading a line of /proc/self/maps. When both device numbers are written with decimal
  digits only, the constructor gets back the line's addresses (the end made inclusive) and
  its name. The kernel prints them in hexadecimal and the format reads them with \<open>%u\<close>: a
  line whose major or minor number has a digit \<open>a\<close> to \<open>f\<close> aborts the program.
\<close>

theorem segment_of_maps_line_correct:
  assumes "maps_line_ok a b perms off maj mi ino pad name"
  shows "segment_of_maps_line (maps_line a b perms off maj mi ino pad name) =
    (if list_all (is_digit 10) (maj @ mi)
     then Inr \<lparr>start_address = of_int (digits_value 16 0 a),
            end_address = of_int (digits_value 16 0 b) - 1, segment_name = name\<rparr>
     else Inl (Aborted ''FAILED TO PARSE''))"
proof (cases "list_all (is_digit 10) (maj @ mi)")
  case True
  from scan_maps_decimal_device [OF assms True] obtain j n where
    "scan_maps_fields (maps_line a b perms off maj mi ino pad name) =
      Some \<lparr>field_start = of_int (digits_value 16 0 a), field_end = of_int (digits_value 16 0 b),
        field_perms = perms, field_offset = of_int (digits_value 16 0 off),
        field_major = j, field_minor = n, field_inode = of_int (digits_value 10 0 ino),
        field_rest = pad @ name @ [CHR 0x0A]\<rparr>" by blast
  with True maps_name_read [OF assms] show ?thesis
    by (simp add: segment_of_maps_line_def Let_def)
next
  case False
  with scan_maps_hex_device [OF assms False] show ?thesis
    by (simp add: segment_of_maps_line_def)
qed

lemma segment_of_maps_line_correct_witness:
  "segment_of_maps_line (maps_line ''7f10'' ''7f20'' ''r-xp'' ''0'' ''08'' ''02'' ''173'' '' '' ''/bin/x'')
     = Inr \<lparr>start_address = 0x7f10, end_address = 0x7f1f, segment_name = ''/bin/x''\<rparr> \<and>
   segment_of_maps_line (maps_line ''7f10'' ''7f20'' ''r-xp'' ''0'' ''fd'' ''01'' ''173'' '' '' ''/bin/x'')
     = Inl (Aborted ''FAILED TO PARSE'')"
proof -
  have "maps_line_ok ''7f10'' ''7f20'' ''r-xp'' ''0'' ''08'' ''02'' ''173'' '' '' ''/bin/x''"
    and "maps_line_ok ''7f10'' ''7f20'' ''r-xp'' ''0'' ''fd'' ''01'' ''173'' '' '' ''/bin/x''"
    by (simp_all add: maps_line_ok_def digit_string_def is_digit_def digit_of_def is_space_def)
  from this [THEN segment_of_maps_line_correct] show ?thesis
    by (simp add: is_digit_def digit_of_def)
qed

end
