(* ===== verification/Memory_Map.thy ===== *)
theory Memory_Map
  imports Maps_Line Platform
begin

text \<open>
  src/unstickymem/memory/MemoryMap.cpp and its header: the list of memory segments of the
  process, built from /proc/self/maps and kept up to date by the handlers of the interposed
  allocation functions. The real functions (\<open>WRAP(malloc)\<close> and the others) are parameters: their
  answers are the fields of a \<open>libc\<close> and may depend on all calls made before. The mode's
  callbacks are a parameter too; theory Modes supplies them. A handler is one step here;
  Handler_Steps takes it apart and has the lock around the list.
\<close>

section \<open>The real functions\<close>

datatype mem_call =
    C_malloc u64 | C_calloc u64 u64 | C_realloc addr u64 | C_reallocarray addr u64 u64
  | C_free addr | C_posix_memalign u64 u64 | C_mmap addr u64 int int int int
  | C_munmap addr u64 | C_brk addr | C_sbrk int | C_sbrk_0 | C_mbind addr u64 int

text \<open>\<open>ret_addr\<close> is also what \<open>posix_memalign\<close> leaves in its first argument.\<close>

record libc =
  ret_addr :: "mem_call list \<Rightarrow> mem_call \<Rightarrow> addr"
  ret_int :: "mem_call list \<Rightarrow> mem_call \<Rightarrow> int"
  etext_addr :: addr                     \<comment> \<open>\<open>&etext\<close>\<close>
  edata_addr :: addr                     \<comment> \<open>\<open>&edata\<close>\<close>
  maps_lines :: "string list option"     \<comment> \<open>/proc/self/maps, if it could be opened\<close>
  maps_read_ok :: bool                   \<comment> \<open>at the end of the file and no read error\<close>
  maps_close_ok :: bool

text \<open>\<open>MAP_FAILED\<close> is \<open>(void* ) -1\<close>.\<close>

definition MAP_FAILED :: addr where
  "MAP_FAILED = - 1"

section \<open>State\<close>

text \<open>
  List nodes have identities: \<open>_heap\<close> and the other pointers point to elements of the list and
  stay when other elements come and go. \<open>'p\<close> is the state that the mode's callbacks work on.
\<close>

record 'p memory_map =
  segments :: "(nat \<times> memory_segment) list"
  next_node :: nat
  heap_ptr :: "nat option"
  stack_ptr :: "nat option"
  text_ptr :: "nat option"
  data_ptr :: "nat option"
  mem_calls :: "mem_call list"
  mode_state :: 'p

record 'p hooks =
  on_addition :: "memory_segment \<Rightarrow> ('p, unit) run"
  on_removal :: "memory_segment \<Rightarrow> ('p, unit) run"

type_synonym ('p, 'a) mapping_step = "('p memory_map, 'a) run"

definition empty_map :: "'p \<Rightarrow> 'p memory_map" where
  "empty_map w =
     \<lparr>segments = [], next_node = 0, heap_ptr = None, stack_ptr = None, text_ptr = None, data_ptr = None,
      mem_calls = [], mode_state = w\<rparr>"

section \<open>Parts of the handlers\<close>

definition call_addr :: "libc \<Rightarrow> mem_call \<Rightarrow> ('p, addr) mapping_step" where
  "call_addr e c m = (m\<lparr>mem_calls := mem_calls m @ [c]\<rparr>, Inr (ret_addr e (mem_calls m) c))"

definition call_int :: "libc \<Rightarrow> mem_call \<Rightarrow> ('p, int) mapping_step" where
  "call_int e c m = (m\<lparr>mem_calls := mem_calls m @ [c]\<rparr>, Inr (ret_int e (mem_calls m) c))"

definition call_void :: "mem_call \<Rightarrow> ('p, unit) mapping_step" where
  "call_void c m = (m\<lparr>mem_calls := mem_calls m @ [c]\<rparr>, Inr ())"

definition in_mode :: "('p, 'a) run \<Rightarrow> ('p, 'a) mapping_step" where
  "in_mode f m = (case f (mode_state m) of (w, r) \<Rightarrow> (m\<lparr>mode_state := w\<rparr>, r))"

definition emplace_back :: "memory_segment \<Rightarrow> 'p memory_map \<Rightarrow> 'p memory_map" where
  "emplace_back s m =
     m\<lparr>segments := segments m @ [(next_node m, s)], next_node := next_node m + 1\<rparr>"

definition add_segment :: "'p hooks \<Rightarrow> memory_segment \<Rightarrow> ('p, unit) mapping_step" where
  "add_segment h s m = in_mode (on_addition h s) (emplace_back s m)"

text \<open>\<open>remove_if\<close>: the mode hears of every segment that contains the address.\<close>

fun remove_containing ::
  "'p hooks \<Rightarrow> addr \<Rightarrow> (nat \<times> memory_segment) list \<Rightarrow> ('p, (nat \<times> memory_segment) list) run" where
  "remove_containing h a [] = done_step []"
| "remove_containing h a ((i, s) # ss) =
     (if contains_addr s a
      then then_step (on_removal h s) (\<lambda>_. remove_containing h a ss)
      else then_step (remove_containing h a ss) (\<lambda>rest. done_step ((i, s) # rest)))"

definition remove_segments :: "'p hooks \<Rightarrow> addr \<Rightarrow> ('p, unit) mapping_step" where
  "remove_segments h a m =
     then_step (in_mode (remove_containing h a (segments m)))
       (\<lambda>ss m1. (m1\<lparr>segments := ss\<rparr>, Inr ())) m"

text \<open>\<open>*_heap\<close>\<close>

definition the_heap :: "('p, memory_segment) mapping_step" where
  "the_heap m =
     (case heap_ptr m of
        None \<Rightarrow> (m, Inl (Undefined ''null heap pointer''))
      | Some i \<Rightarrow>
          (case map_of (segments m) i of
             None \<Rightarrow> (m, Inl (Undefined ''dangling heap pointer''))
           | Some s \<Rightarrow> (m, Inr s)))"

definition set_heap_end :: "addr \<Rightarrow> 'p memory_map \<Rightarrow> 'p memory_map" where
  "set_heap_end a m =
     m\<lparr>segments := map (\<lambda>(i, s). (i, if heap_ptr m = Some i then s\<lparr>end_address := a\<rparr> else s)) (segments m)\<rparr>"

definition updateHeap :: "libc \<Rightarrow> ('p, unit) mapping_step" where
  "updateHeap e =
     then_step (call_addr e C_sbrk_0) (\<lambda>a.
     then_step the_heap (\<lambda>s.
       if end_address s \<noteq> a
       then then_step (call_addr e C_sbrk_0) (\<lambda>b m. (set_heap_end b m, Inr ()))
       else done_step ()))"

definition in_heap :: "addr \<Rightarrow> ('p, bool) mapping_step" where
  "in_heap a = then_step the_heap (\<lambda>s. done_step (contains_addr s a))"

section \<open>Handlers\<close>

definition handle_malloc :: "libc \<Rightarrow> 'p hooks \<Rightarrow> u64 \<Rightarrow> ('p, addr) mapping_step" where
  "handle_malloc e h sz =
     then_step (call_addr e (C_malloc sz)) (\<lambda>result.
     let s = \<lparr>start_address = result, end_address = result + sz - 1, segment_name = ''malloc''\<rparr>
     in then_step (updateHeap e) (\<lambda>_.
        then_step (in_heap result) (\<lambda>inside.
        then_step (if \<not> inside then add_segment h s else done_step ()) (\<lambda>_. done_step result))))"

definition handle_calloc :: "libc \<Rightarrow> 'p hooks \<Rightarrow> u64 \<Rightarrow> u64 \<Rightarrow> ('p, addr) mapping_step" where
  "handle_calloc e h nmemb sz =
     then_step (call_addr e (C_calloc nmemb sz)) (\<lambda>result.
     let s = \<lparr>start_address = result, end_address = result + nmemb * sz - 1, segment_name = ''calloc''\<rparr>
     in then_step (updateHeap e) (\<lambda>_.
        then_step (in_heap result) (\<lambda>inside.
        then_step (if \<not> inside then add_segment h s else done_step ()) (\<lambda>_. done_step result))))"

definition handle_realloc :: "libc \<Rightarrow> 'p hooks \<Rightarrow> addr \<Rightarrow> u64 \<Rightarrow> ('p, addr) mapping_step" where
  "handle_realloc e h p sz =
     then_step (in_heap p) (\<lambda>was_in_heap.
     then_step (call_addr e (C_realloc p sz)) (\<lambda>result.
     then_step (updateHeap e) (\<lambda>_.
     then_step (in_heap result) (\<lambda>is_in_heap.
     then_step (if \<not> was_in_heap then remove_segments h p else done_step ()) (\<lambda>_.
     then_step
       (if \<not> is_in_heap
        then add_segment h \<lparr>start_address = result, end_address = result + sz - 1, segment_name = ''realloc''\<rparr>
        else done_step ()) (\<lambda>_. done_step result))))))"

definition handle_reallocarray :: "libc \<Rightarrow> addr \<Rightarrow> u64 \<Rightarrow> u64 \<Rightarrow> ('p, addr) mapping_step" where
  "handle_reallocarray e p nmemb sz = call_addr e (C_reallocarray p nmemb sz)"

definition handle_free :: "libc \<Rightarrow> 'p hooks \<Rightarrow> addr \<Rightarrow> ('p, unit) mapping_step" where
  "handle_free e h p =
     then_step (in_heap p) (\<lambda>was_in_heap.
     then_step (call_void (C_free p)) (\<lambda>_.
       if was_in_heap then updateHeap e else remove_segments h p))"

text \<open>The result and what the first argument points to afterwards.\<close>

definition handle_posix_memalign ::
  "libc \<Rightarrow> 'p hooks \<Rightarrow> u64 \<Rightarrow> u64 \<Rightarrow> ('p, int \<times> addr) mapping_step" where
  "handle_posix_memalign e h alignment sz m =
     (let c = C_posix_memalign alignment sz; p = ret_addr e (mem_calls m) c
      in then_step (call_int e c) (\<lambda>result.
         then_step (updateHeap e) (\<lambda>_.
         then_step (in_heap p) (\<lambda>inside.
         then_step
           (if \<not> inside
            then add_segment h \<lparr>start_address = p, end_address = p + sz - 1, segment_name = ''posix_memalign''\<rparr>
            else done_step ()) (\<lambda>_. done_step (result, p))))) m)"

definition handle_mmap ::
  "libc \<Rightarrow> 'p hooks \<Rightarrow> addr \<Rightarrow> u64 \<Rightarrow> int \<Rightarrow> int \<Rightarrow> int \<Rightarrow> int \<Rightarrow> ('p, addr) mapping_step" where
  "handle_mmap e h a len prot flags fd offset =
     then_step (call_addr e (C_mmap a len prot flags fd offset)) (\<lambda>result.
     then_step
       (add_segment h \<lparr>start_address = result, end_address = result + len - 1, segment_name = ''mmap''\<rparr>)
       (\<lambda>_. done_step result))"

definition handle_munmap :: "libc \<Rightarrow> 'p hooks \<Rightarrow> addr \<Rightarrow> u64 \<Rightarrow> ('p, int) mapping_step" where
  "handle_munmap e h a len =
     then_step (call_int e (C_munmap a len)) (\<lambda>result.
     then_step (remove_segments h a) (\<lambda>_. done_step result))"

definition handle_mremap :: "addr \<Rightarrow> u64 \<Rightarrow> u64 \<Rightarrow> int \<Rightarrow> ('p, addr) mapping_step" where
  "handle_mremap old_address old_size new_size flags = fail_step (Aborted ''NOT IMPLEMENTED'')"

definition handle_brk :: "addr \<Rightarrow> ('p, int) mapping_step" where
  "handle_brk a = fail_step (Aborted ''NOT IMPLEMENTED'')"

definition handle_sbrk :: "int \<Rightarrow> ('p, addr) mapping_step" where
  "handle_sbrk increment = fail_step (Aborted ''NOT IMPLEMENTED'')"

definition handle_mbind :: "libc \<Rightarrow> addr \<Rightarrow> u64 \<Rightarrow> int \<Rightarrow> ('p, int) mapping_step" where
  "handle_mbind e a len mode =
     then_step (call_int e (C_mbind a len mode)) (\<lambda>_. fail_step (Aborted ''NOT IMPLEMENTED''))"

section \<open>Construction\<close>

text \<open>What a line of the maps file is, decided in the order of the constructor's tests.\<close>

datatype line_kind = Heap_line | Stack_line | Text_line | Data_line | Anonymous_line | Other_line

definition line_kind_of :: "libc \<Rightarrow> memory_segment \<Rightarrow> line_kind" where
  "line_kind_of e s =
     (if segment_name s = ''[heap]'' then Heap_line
      else if segment_name s = ''[stack]'' then Stack_line
      else if contains_addr s (etext_addr e - 8) then Text_line
      else if contains_addr s (edata_addr e - 8) then Data_line
      else if segment_name s = [] then Anonymous_line
      else Other_line)"

definition map_line :: "libc \<Rightarrow> 'p hooks \<Rightarrow> memory_segment \<Rightarrow> ('p, unit) mapping_step" where
  "map_line e h s m =
     (let i = Some (next_node m)
      in case line_kind_of e s of
        Heap_line \<Rightarrow> add_segment h (s\<lparr>segment_name := ''heap''\<rparr>) (m\<lparr>heap_ptr := i\<rparr>)
      | Stack_line \<Rightarrow> (emplace_back (s\<lparr>segment_name := ''stack''\<rparr>) (m\<lparr>stack_ptr := i\<rparr>), Inr ())
      | Text_line \<Rightarrow> add_segment h (s\<lparr>segment_name := ''text''\<rparr>) (m\<lparr>text_ptr := i\<rparr>)
      | Data_line \<Rightarrow> add_segment h (s\<lparr>segment_name := ''data''\<rparr>) (m\<lparr>data_ptr := i\<rparr>)
      | Anonymous_line \<Rightarrow> add_segment h (s\<lparr>segment_name := ''anonymous''\<rparr>) m
      | Other_line \<Rightarrow> (m, Inr ()))"

fun map_maps_lines :: "libc \<Rightarrow> 'p hooks \<Rightarrow> string list \<Rightarrow> ('p, unit) mapping_step" where
  "map_maps_lines e h [] = done_step ()"
| "map_maps_lines e h (l # ls) =
     then_step (lift_result (segment_of_maps_line l)) (\<lambda>s.
     then_step (map_line e h s) (\<lambda>_. map_maps_lines e h ls))"

definition MemoryMap :: "libc \<Rightarrow> 'p hooks \<Rightarrow> 'p \<Rightarrow> 'p memory_map \<times> unit result" where
  "MemoryMap e h w =
     (case maps_lines e of
        None \<Rightarrow> (empty_map w, Inl (Aborted ''error opening maps file''))
      | Some ls \<Rightarrow>
          then_step (map_maps_lines e h ls) (\<lambda>_ m.
            (m, bind_result (die_if (heap_ptr m = None) ''didnt find the heap!'') (\<lambda>_.
                bind_result (die_if (stack_ptr m = None) ''didnt find the stack!'') (\<lambda>_.
                bind_result (die_if (text_ptr m = None) ''didnt find the text segment!'') (\<lambda>_.
                bind_result (die_if (data_ptr m = None) ''didnt find the data segment!'') (\<lambda>_.
                bind_result (die_if (\<not> maps_read_ok e) ''error parsing maps file'') (\<lambda>_.
                die_if (\<not> maps_close_ok e) ''error closing maps file'')))))))
            (empty_map w))"

end
