(* ===== verification/Segment_Tracking.thy ===== *)
theory Segment_Tracking
  imports Memory_Map
begin

text \<open>
  What the handlers of Memory_Map.thy keep: the list is well formed and the heap pointer points
  into it; and the segments it holds are, under what an allocator promises, the ones found
  at the start and the live blocks outside the heap.
\<close>

section \<open>Well-formed maps\<close>

definition map_ok :: "'p memory_map \<Rightarrow> bool" where
  "map_ok m \<longleftrightarrow>
     distinct (map fst (segments m)) \<and> list_all (\<lambda>(i, s). i < next_node m) (segments m) \<and>
     (\<exists>i. heap_ptr m = Some i \<and> i \<in> fst ` set (segments m))"

text \<open>The heap segment, and all the others in the order of the list.\<close>

definition heap_segment :: "'p memory_map \<Rightarrow> memory_segment" where
  "heap_segment m = the (map_of (segments m) (the (heap_ptr m)))"

definition heap_has :: "'p memory_map \<Rightarrow> addr \<Rightarrow> bool" where
  "heap_has m a \<longleftrightarrow> contains_addr (heap_segment m) a"

definition tracked :: "'p memory_map \<Rightarrow> memory_segment list" where
  "tracked m = map snd (filter (\<lambda>(i, s). heap_ptr m \<noteq> Some i) (segments m))"

text \<open>
  What is left of it when the program has taken the heap's own segment out of the list, which
  neither \<open>munmap\<close> nor \<open>free\<close> prevents: the pointer may dangle, the rest is as before.
\<close>

definition list_ok :: "'p memory_map \<Rightarrow> bool" where
  "list_ok m \<longleftrightarrow>
     distinct (map fst (segments m)) \<and> list_all (\<lambda>(i, s). i < next_node m) (segments m) \<and>
     (\<exists>i < next_node m. heap_ptr m = Some i)"

definition heap_listed :: "'p memory_map \<Rightarrow> bool" where
  "heap_listed m \<longleftrightarrow> (\<exists>i. heap_ptr m = Some i \<and> i \<in> fst ` set (segments m))"

lemma map_ok_iff: "map_ok m \<longleftrightarrow> list_ok m \<and> heap_listed m"
  by (fastforce simp: map_ok_def list_ok_def heap_listed_def list_all_iff)

text \<open>All modes of the library inherit the removal callback that does nothing.\<close>

definition silent_removal :: "'p hooks \<Rightarrow> bool" where
  "silent_removal h \<longleftrightarrow> (\<forall>s w. on_removal h s w = (w, Inr ()))"

named_theorems mapping_runs "what a part of a handler does when it returns"

lemma map_ok_heap:
  assumes "map_ok m"
  shows "the_heap m = (m, Inr (heap_segment m))"
proof -
  obtain i where i: "heap_ptr m = Some i" "i \<in> fst ` set (segments m)" using assms by (auto simp: map_ok_def)
  then obtain s where "map_of (segments m) i = Some s"
    by (metis domIff dom_map_of_conv_image_fst not_None_eq)
  with i(1) show ?thesis by (simp add: the_heap_def heap_segment_def)
qed

lemma in_heap_run [mapping_runs]:
  "map_ok m \<Longrightarrow> in_heap a m = (m', Inr b) \<longleftrightarrow> m' = m \<and> b = heap_has m a"
  by (auto simp: in_heap_def then_step_def map_ok_heap step_simps heap_has_def)

lemma then_in_heap: "map_ok m \<Longrightarrow> then_step (in_heap a) k m = k (heap_has m a) m"
  by (simp add: in_heap_def then_step_def map_ok_heap step_simps heap_has_def)

lemma call_runs [mapping_runs]:
  "call_addr e c m = (m', Inr a) \<longleftrightarrow> m' = m\<lparr>mem_calls := mem_calls m @ [c]\<rparr> \<and> a = ret_addr e (mem_calls m) c"
  "call_int e c m = (m', Inr n) \<longleftrightarrow> m' = m\<lparr>mem_calls := mem_calls m @ [c]\<rparr> \<and> n = ret_int e (mem_calls m) c"
  "call_void c m = (m', Inr u) \<longleftrightarrow> m' = m\<lparr>mem_calls := mem_calls m @ [c]\<rparr>"
  by (auto simp: call_addr_def call_int_def call_void_def)

lemma then_call:
  "then_step (call_addr e c) k m = k (ret_addr e (mem_calls m) c) (m\<lparr>mem_calls := mem_calls m @ [c]\<rparr>)"
  "then_step (call_int e c) k' m = k' (ret_int e (mem_calls m) c) (m\<lparr>mem_calls := mem_calls m @ [c]\<rparr>)"
  "then_step (call_void c) k'' m = k'' () (m\<lparr>mem_calls := mem_calls m @ [c]\<rparr>)"
  by (simp_all add: then_step_def call_addr_def call_int_def call_void_def)

text \<open>Maps that differ in nothing that the list's well-formedness depends on.\<close>

lemma map_ok_update [simp]:
  "map_ok (m\<lparr>mem_calls := cs\<rparr>) = map_ok m" "list_ok (m\<lparr>mem_calls := cs\<rparr>) = list_ok m"
  "heap_listed (m\<lparr>mem_calls := cs\<rparr>) = heap_listed m" "tracked (m\<lparr>mem_calls := cs\<rparr>) = tracked m"
  "heap_has (m\<lparr>mem_calls := cs\<rparr>) = heap_has m" "heap_segment (m\<lparr>mem_calls := cs\<rparr>) = heap_segment m"
  by (simp_all add: map_ok_def list_ok_def heap_listed_def tracked_def heap_has_def [abs_def] heap_segment_def)

section \<open>The heap's end\<close>

lemma map_of_set_heap:
  "map_of (map (\<lambda>(i, s). (i, if hp = Some i then f s else s)) ss) j =
     map_option (\<lambda>s. if hp = Some j then f s else s) (map_of ss j)"
  by (induction ss) auto

lemma set_heap_end_same [simp]:
  "list_ok (set_heap_end b m) = list_ok m" "heap_listed (set_heap_end b m) = heap_listed m"
  "tracked (set_heap_end b m) = tracked m" "heap_ptr (set_heap_end b m) = heap_ptr m"
  "mode_state (set_heap_end b m) = mode_state m" "next_node (set_heap_end b m) = next_node m"
proof -
  let ?ss = "map (\<lambda>(i, s). (i, if heap_ptr m = Some i then s\<lparr>end_address := b\<rparr> else s)) (segments m)"
  have ids: "map fst ?ss = map fst (segments m)" by (induction "segments m") auto
  then have fsts: "fst ` set ?ss = fst ` set (segments m)" by (metis set_map)
  have bound: "list_all (\<lambda>(i, s). i < n) ?ss = list_all (\<lambda>(i, s). i < n) (segments m)" for n
    by (simp add: list.pred_map comp_def case_prod_unfold)
  have eqs: "segments (set_heap_end b m) = ?ss" "heap_ptr (set_heap_end b m) = heap_ptr m"
    "next_node (set_heap_end b m) = next_node m"
    by (simp_all add: set_heap_end_def)
  show "list_ok (set_heap_end b m) = list_ok m" "heap_listed (set_heap_end b m) = heap_listed m"
    unfolding list_ok_def heap_listed_def eqs ids fsts bound by (rule refl)+
  have "map snd (filter (\<lambda>(i, s). hp \<noteq> Some i) (map (\<lambda>(i, s). (i, if hp = Some i then f s else s)) ss)) =
      map snd (filter (\<lambda>(i, s). hp \<noteq> Some i) ss)" for hp f and ss :: "(nat \<times> memory_segment) list"
    by (induction ss) auto
  then show "tracked (set_heap_end b m) = tracked m" by (simp add: tracked_def set_heap_end_def)
qed (simp_all add: set_heap_end_def)

lemma set_heap_end_ok:
  assumes "map_ok m"
  shows "map_ok (set_heap_end b m)" "heap_segment (set_heap_end b m) = (heap_segment m)\<lparr>end_address := b\<rparr>"
proof -
  show "map_ok (set_heap_end b m)" using assms by (simp add: map_ok_iff)
  obtain i where i: "heap_ptr m = Some i" "i \<in> fst ` set (segments m)" using assms by (auto simp: map_ok_def)
  then obtain s where "map_of (segments m) i = Some s"
    by (metis domIff dom_map_of_conv_image_fst not_None_eq)
  with i(1) show "heap_segment (set_heap_end b m) = (heap_segment m)\<lparr>end_address := b\<rparr>"
    by (simp add: heap_segment_def set_heap_end_def map_of_set_heap [of "Some i", simplified])
qed

definition only_heap_end :: "'p memory_map \<Rightarrow> 'p memory_map \<Rightarrow> bool" where
  "only_heap_end m m' \<longleftrightarrow>
     map_ok m' \<and> tracked m' = tracked m \<and> mode_state m' = mode_state m \<and>
     heap_ptr m' = heap_ptr m \<and> next_node m' = next_node m \<and>
     start_address (heap_segment m') = start_address (heap_segment m)"

lemma updateHeap_run [mapping_runs]:
  assumes "map_ok m" "updateHeap e m = (m', Inr u)"
  shows "only_heap_end m m'"
  using assms
  by (auto simp: updateHeap_def then_step_Inr_iff mapping_runs map_ok_heap only_heap_end_def set_heap_end_ok
      split: if_splits)

section \<open>Adding and removing\<close>

lemma map_ok_mode_state [simp]:
  "map_ok (m\<lparr>mode_state := g\<rparr>) = map_ok m" "list_ok (m\<lparr>mode_state := g\<rparr>) = list_ok m"
  "heap_listed (m\<lparr>mode_state := g\<rparr>) = heap_listed m" "tracked (m\<lparr>mode_state := g\<rparr>) = tracked m"
  "heap_segment (m\<lparr>mode_state := g\<rparr>) = heap_segment m"
  by (simp_all add: map_ok_def list_ok_def heap_listed_def tracked_def heap_segment_def)

lemma emplace_back_keeps:
  assumes "list_ok m"
  shows "list_ok (emplace_back s m)" "heap_listed (emplace_back s m) = heap_listed m"
    "tracked (emplace_back s m) = tracked m @ [s]" "heap_ptr m \<noteq> Some (next_node m)"
proof -
  have "next_node m \<notin> fst ` set (segments m)" using assms by (auto simp: list_ok_def list_all_iff)
  then show "list_ok (emplace_back s m)" using assms by (auto simp: list_ok_def emplace_back_def list_all_iff)
  show new: "heap_ptr m \<noteq> Some (next_node m)" using assms by (auto simp: list_ok_def)
  then show "heap_listed (emplace_back s m) = heap_listed m" "tracked (emplace_back s m) = tracked m @ [s]"
    by (auto simp: heap_listed_def tracked_def emplace_back_def)
qed

lemma add_segment_Inr:
  "add_segment h s m = (m', Inr u) \<longleftrightarrow>
     (\<exists>w. on_addition h s (mode_state m) = (w, Inr ()) \<and> m' = (emplace_back s m)\<lparr>mode_state := w\<rparr>)"
  by (auto simp: add_segment_def in_mode_def emplace_back_def split: prod.splits)

lemma add_segment_run:
  assumes "map_ok m" "add_segment h s m = (m', Inr u)"
  shows "map_ok m'" "tracked m' = tracked m @ [s]" "heap_segment m' = heap_segment m"
    "on_addition h s (mode_state m) = (mode_state m', Inr ())"
proof -
  obtain w where m': "m' = (emplace_back s m)\<lparr>mode_state := w\<rparr>" "on_addition h s (mode_state m) = (w, Inr ())"
    using assms(2) unfolding add_segment_Inr by blast
  have ok: "list_ok m" "heap_listed m" using assms(1) by (simp_all add: map_ok_iff)
  note emplace_back_keeps(1-3) [OF ok(1), of s]
  with ok(2) show "map_ok m'" "tracked m' = tracked m @ [s]" by (simp_all add: m'(1) map_ok_iff)
  obtain i t where "heap_ptr m = Some i" "map_of (segments m) i = Some t"
    using ok(2) unfolding heap_listed_def by (metis domIff dom_map_of_conv_image_fst not_None_eq)
  then show "heap_segment m' = heap_segment m"
    by (simp add: heap_segment_def m'(1) emplace_back_def map_add_def)
  show "on_addition h s (mode_state m) = (mode_state m', Inr ())" using m' by simp
qed

lemma remove_containing_silent:
  "silent_removal h \<Longrightarrow> remove_containing h a ss w = (w, Inr (filter (\<lambda>(i, s). \<not> contains_addr s a) ss))"
  by (induction ss) (auto simp: step_simps then_step_def silent_removal_def)

lemma remove_segments_silent:
  "silent_removal h \<Longrightarrow>
     remove_segments h a m = (m\<lparr>segments := filter (\<lambda>(i, s). \<not> contains_addr s a) (segments m)\<rparr>, Inr ())"
  by (simp add: remove_segments_def then_step_def in_mode_def remove_containing_silent)

lemma remove_segments_keeps:
  assumes "list_ok m" "silent_removal h" "remove_segments h a m = (m', Inr u)"
  shows "list_ok m'" "tracked m' = filter (\<lambda>s. \<not> contains_addr s a) (tracked m)" "mode_state m' = mode_state m"
proof -
  have m': "m' = m\<lparr>segments := filter (\<lambda>(i, s). \<not> contains_addr s a) (segments m)\<rparr>"
    using assms(2,3) by (simp add: remove_segments_silent)
  have "distinct (map fst (filter (\<lambda>(i, s). \<not> contains_addr s a) (segments m)))"
    using assms(1) by (intro distinct_map_filter) (simp add: list_ok_def)
  then show "list_ok m'" using assms(1) by (auto simp: list_ok_def m' list_all_iff)
  have "map snd (filter P (filter (\<lambda>(i, s). \<not> contains_addr s a) ss)) =
      filter (\<lambda>s. \<not> contains_addr s a) (map snd (filter P ss))" for P and ss :: "(nat \<times> memory_segment) list"
    by (induction ss) auto
  then show "tracked m' = filter (\<lambda>s. \<not> contains_addr s a) (tracked m)" by (simp add: tracked_def m')
  show "mode_state m' = mode_state m" by (simp add: m')
qed

lemma remove_segments_heap:
  assumes "map_ok m" "silent_removal h" "remove_segments h a m = (m', Inr u)" "\<not> heap_has m a"
  shows "heap_listed m'" "heap_segment m' = heap_segment m"
proof -
  have m': "m' = m\<lparr>segments := filter (\<lambda>(i, s). \<not> contains_addr s a) (segments m)\<rparr>"
    using assms(2,3) by (simp add: remove_segments_silent)
  obtain i t where i: "heap_ptr m = Some i" "map_of (segments m) i = Some t"
    using assms(1) unfolding map_ok_def by (metis domIff dom_map_of_conv_image_fst not_None_eq)
  then have "\<not> contains_addr t a" using assms(4) by (simp add: heap_has_def heap_segment_def)
  then have kept: "(i, t) \<in> set (filter (\<lambda>(i, s). \<not> contains_addr s a) (segments m))"
    using map_of_SomeD [OF i(2)] by simp
  with i(1) show "heap_listed m'" by (auto simp: heap_listed_def m' intro!: rev_image_eqI)
  have "distinct (map fst (filter (\<lambda>(i, s). \<not> contains_addr s a) (segments m)))"
    using assms(1) by (intro distinct_map_filter) (simp add: map_ok_def)
  then have "map_of (filter (\<lambda>(i, s). \<not> contains_addr s a) (segments m)) i = Some t"
    by (rule map_of_is_SomeI [OF _ kept])
  then show "heap_segment m' = heap_segment m" by (simp add: heap_segment_def m' i)
qed

lemma remove_segments_run:
  assumes "map_ok m" "silent_removal h" "remove_segments h a m = (m', Inr u)" "\<not> heap_has m a"
  shows "map_ok m'" "tracked m' = filter (\<lambda>s. \<not> contains_addr s a) (tracked m)"
    "heap_segment m' = heap_segment m" "mode_state m' = mode_state m"
  using remove_segments_keeps [OF _ assms(2,3)] remove_segments_heap [OF assms] assms(1) by (simp_all add: map_ok_iff)

section \<open>Requests\<close>

text \<open>The interposed calls that the handlers return from.\<close>

datatype request =
    R_malloc u64 | R_calloc u64 u64 | R_realloc addr u64 | R_reallocarray addr u64 u64 | R_free addr
  | R_posix_memalign u64 u64 | R_mmap addr u64 int int int int | R_munmap addr u64

text \<open>The address that the call hands out, 0 if it hands out none.\<close>

fun handle_request :: "libc \<Rightarrow> 'p hooks \<Rightarrow> request \<Rightarrow> ('p, addr) mapping_step" where
  "handle_request e h (R_malloc n) = handle_malloc e h n"
| "handle_request e h (R_calloc k n) = handle_calloc e h k n"
| "handle_request e h (R_realloc p n) = handle_realloc e h p n"
| "handle_request e h (R_reallocarray p k n) = handle_reallocarray e p k n"
| "handle_request e h (R_free p) = then_step (handle_free e h p) (\<lambda>_. done_step 0)"
| "handle_request e h (R_posix_memalign al n) =
     then_step (handle_posix_memalign e h al n) (\<lambda>(_, p). done_step p)"
| "handle_request e h (R_mmap a n prot flags fd off) = handle_mmap e h a n prot flags fd off"
| "handle_request e h (R_munmap a n) = then_step (handle_munmap e h a n) (\<lambda>_. done_step 0)"

definition block :: "string \<Rightarrow> addr \<Rightarrow> u64 \<Rightarrow> memory_segment" where
  "block name p n = \<lparr>start_address = p, end_address = p + n - 1, segment_name = name\<rparr>"

text \<open>The address whose segments a request drops, and the segments it adds outside the heap.\<close>

fun released :: "request \<Rightarrow> 'p memory_map \<Rightarrow> addr option" where
  "released (R_free p) m = (if heap_has m p then None else Some p)"
| "released (R_realloc p n) m = (if heap_has m p then None else Some p)"
| "released (R_munmap a n) m = Some a"
| "released r m = None"

fun added :: "request \<Rightarrow> addr \<Rightarrow> 'p memory_map \<Rightarrow> memory_segment list" where
  "added (R_malloc n) p m' = (if heap_has m' p then [] else [block ''malloc'' p n])"
| "added (R_calloc k n) p m' = (if heap_has m' p then [] else [block ''calloc'' p (k * n)])"
| "added (R_realloc q n) p m' = (if heap_has m' p then [] else [block ''realloc'' p n])"
| "added (R_posix_memalign al n) p m' = (if heap_has m' p then [] else [block ''posix_memalign'' p n])"
| "added (R_mmap a n prot flags fd off) p m' = [block ''mmap'' p n]"
| "added r p m' = []"

text \<open>
  No request takes the heap's own segment out of the list: no \<open>munmap\<close> inside the heap, and no
  \<open>realloc\<close> during which the heap grows over the old block.
\<close>

fun heap_kept :: "libc \<Rightarrow> request \<Rightarrow> 'p memory_map \<Rightarrow> bool" where
  "heap_kept e (R_munmap a n) m \<longleftrightarrow> \<not> heap_has m a"
| "heap_kept e (R_realloc p n) m \<longleftrightarrow> heap_has m p \<or>
     \<not> heap_has (fst (updateHeap e (m\<lparr>mem_calls := mem_calls m @ [C_realloc p n]\<rparr>))) p"
| "heap_kept e r m \<longleftrightarrow> True"

definition tracked_after :: "request \<Rightarrow> addr \<Rightarrow> 'p memory_map \<Rightarrow> 'p memory_map \<Rightarrow> memory_segment list" where
  "tracked_after r p m m' =
     (case released r m of None \<Rightarrow> tracked m | Some a \<Rightarrow> filter (\<lambda>s. \<not> contains_addr s a) (tracked m))
       @ added r p m'"

text \<open>What the mode hears of the added segments.\<close>

fun hears :: "'p hooks \<Rightarrow> memory_segment list \<Rightarrow> 'p \<Rightarrow> 'p \<Rightarrow> bool" where
  "hears h [] w w' \<longleftrightarrow> w' = w"
| "hears h (s # ss) w w' \<longleftrightarrow> (\<exists>w1. on_addition h s w = (w1, Inr ()) \<and> hears h ss w1 w')"

text \<open>The common end of the allocating handlers.\<close>

lemma allocation_tail:
  assumes "map_ok m"
    and "then_step (updateHeap e) (\<lambda>_. then_step (in_heap p) (\<lambda>inside.
      then_step (if \<not> inside then add_segment h s else done_step ()) (\<lambda>_. done_step x))) m = (m', Inr y)"
  shows "map_ok m'" "tracked m' = tracked m @ (if heap_has m' p then [] else [s])" "y = x"
    "hears h (if heap_has m' p then [] else [s]) (mode_state m) (mode_state m')"
proof -
  obtain m1 m2 where m1: "updateHeap e m = (m1, Inr ())" "y = x"
    and m2: "(if \<not> heap_has m1 p then add_segment h s else done_step ()) m1 = (m', Inr ())"
  proof -
    from assms(2) obtain m1 where 1: "updateHeap e m = (m1, Inr ())"
      "then_step (in_heap p) (\<lambda>inside.
        then_step (if \<not> inside then add_segment h s else done_step ()) (\<lambda>_. done_step x)) m1 = (m', Inr y)"
      by (auto simp: then_step_Inr_iff)
    have "map_ok m1" using updateHeap_run [OF assms(1) 1(1)] by (simp add: only_heap_end_def)
    with 1 that show thesis by (auto simp: then_step_Inr_iff in_heap_run)
  qed
  from updateHeap_run [OF assms(1) m1(1)] have ok: "map_ok m1" "tracked m1 = tracked m" "mode_state m1 = mode_state m"
    by (simp_all add: only_heap_end_def)
  have "map_ok m' \<and> tracked m' = tracked m @ (if heap_has m' p then [] else [s]) \<and>
    hears h (if heap_has m' p then [] else [s]) (mode_state m) (mode_state m')"
  proof (cases "heap_has m1 p")
    case True
    with m2 ok show ?thesis by simp
  next
    case False
    with m2 have "add_segment h s m1 = (m', Inr ())" by simp
    from add_segment_run [OF ok(1) this] ok(2,3) False show ?thesis by (simp add: heap_has_def)
  qed
  then show "map_ok m'" "tracked m' = tracked m @ (if heap_has m' p then [] else [s])"
    "hears h (if heap_has m' p then [] else [s]) (mode_state m) (mode_state m')" by auto
  show "y = x" by (rule m1(2))
qed

lemma handle_free_run:
  assumes "map_ok m" "silent_removal h" "handle_free e h p m = (m', Inr u)"
  shows "map_ok m'" "tracked m' = (if heap_has m p then tracked m else filter (\<lambda>s. \<not> contains_addr s p) (tracked m))"
    "mode_state m' = mode_state m"
proof -
  let ?m1 = "m\<lparr>mem_calls := mem_calls m @ [C_free p]\<rparr>"
  have ok: "map_ok ?m1" using assms(1) by simp
  have run: "(if heap_has m p then updateHeap e else remove_segments h p) ?m1 = (m', Inr ())"
    using assms(1,3) by (auto simp: handle_free_def then_step_Inr_iff mapping_runs)
  have "map_ok m' \<and> mode_state m' = mode_state m \<and>
    tracked m' = (if heap_has m p then tracked m else filter (\<lambda>s. \<not> contains_addr s p) (tracked m))"
  proof (cases "heap_has m p")
    case True
    with run have "updateHeap e ?m1 = (m', Inr ())" by simp
    from updateHeap_run [OF ok this] True show ?thesis by (simp add: only_heap_end_def)
  next
    case False
    with run have "remove_segments h p ?m1 = (m', Inr ())" by simp
    from remove_segments_run [OF ok assms(2) this] False show ?thesis by simp
  qed
  then show "map_ok m'" "tracked m' = (if heap_has m p then tracked m else filter (\<lambda>s. \<not> contains_addr s p) (tracked m))"
    "mode_state m' = mode_state m" by auto
qed


lemma handle_realloc_run:
  assumes "map_ok m" "silent_removal h" "handle_realloc e h q n m = (m', Inr p)"
    and kept: "heap_kept e (R_realloc q n) m"
  shows "map_ok m'" "tracked m' = tracked_after (R_realloc q n) p m m'"
    "hears h (added (R_realloc q n) p m') (mode_state m) (mode_state m')"
proof -
  let ?m1 = "m\<lparr>mem_calls := mem_calls m @ [C_realloc q n]\<rparr>"
  let ?s = "\<lparr>start_address = p, end_address = p + n - 1, segment_name = ''realloc''\<rparr>"
  have ok1: "map_ok ?m1" using assms(1) by simp
  note run = assms(3) [unfolded handle_realloc_def then_in_heap [OF assms(1)] then_call]
  then obtain m2 where m2: "updateHeap e ?m1 = (m2, Inr ())"
    by (auto simp: then_step_Inr_iff [of "updateHeap e"])
  from updateHeap_run [OF ok1 m2] have ok2: "map_ok m2" "tracked m2 = tracked m" "mode_state m2 = mode_state m"
    by (simp_all add: only_heap_end_def)
  let ?r = "ret_addr e (mem_calls m) (C_realloc q n)"
  obtain m3 where m3: "(if \<not> heap_has m q then remove_segments h q else done_step ()) m2 = (m3, Inr ())"
    and m4: "then_step (if \<not> heap_has m2 ?r
      then add_segment h \<lparr>start_address = ?r, end_address = ?r + n - 1, segment_name = ''realloc''\<rparr>
      else done_step ()) (\<lambda>_. done_step ?r) m3 = (m', Inr p)"
    using run m2 by (simp add: then_step_Inr_iff [of "updateHeap e"] then_in_heap [OF ok2(1)])
      (auto simp: then_step_Inr_iff [of "if b then remove_segments h q else done_step ()" for b])
  then have m4: "(if \<not> heap_has m2 p then add_segment h ?s else done_step ()) m3 = (m', Inr ())"
    by (auto simp: then_step_Inr_iff)
  have three: "map_ok m3 \<and> heap_segment m3 = heap_segment m2 \<and> mode_state m3 = mode_state m \<and>
    tracked m3 = (if heap_has m q then tracked m else filter (\<lambda>s. \<not> contains_addr s q) (tracked m))"
  proof (cases "heap_has m q")
    case True
    with m3 ok2 show ?thesis by simp
  next
    case False
    with m3 have rm: "remove_segments h q m2 = (m3, Inr ())" by simp
    have "\<not> heap_has m2 q" using kept m2 False by simp
    from remove_segments_run [OF ok2(1) assms(2) rm this] False ok2(2,3) show ?thesis by simp
  qed
  have "map_ok m' \<and> tracked m' = tracked_after (R_realloc q n) p m m' \<and>
    hears h (added (R_realloc q n) p m') (mode_state m) (mode_state m')"
  proof (cases "heap_has m2 p")
    case True
    with m4 have "m' = m3" by simp
    with three True show ?thesis by (simp add: tracked_after_def heap_has_def)
  next
    case False
    with m4 have "add_segment h ?s m3 = (m', Inr ())" by simp
    from add_segment_run [OF _ this] three False show ?thesis
      by (simp add: tracked_after_def heap_has_def block_def)
  qed
  then show "map_ok m'" "tracked m' = tracked_after (R_realloc q n) p m m'"
    "hears h (added (R_realloc q n) p m') (mode_state m) (mode_state m')" by auto
qed

text \<open>Every request, by its specification.\<close>

lemma handle_request_run:
  assumes ok: "map_ok m" and h: "silent_removal h"
    and run: "handle_request e h r m = (m', Inr p)" and kept: "heap_kept e r m"
  shows "map_ok m' \<and> tracked m' = tracked_after r p m m' \<and> hears h (added r p m') (mode_state m) (mode_state m')"
proof -
  have tail: "map_ok m' \<and> tracked m' = tracked m @ (if heap_has m' a then [] else [s]) \<and> p = x \<and>
      hears h (if heap_has m' a then [] else [s]) (mode_state m) (mode_state m')"
    if "then_step (updateHeap e) (\<lambda>_. then_step (in_heap a) (\<lambda>inside.
      then_step (if \<not> inside then add_segment h s else done_step ()) (\<lambda>_. done_step x)))
        (m\<lparr>mem_calls := cs\<rparr>) = (m', Inr p)" for cs a s x
    using allocation_tail [OF _ that] ok by simp
  show ?thesis
proof (cases r)
  case (R_malloc n)
  from run have "map_ok m' \<and> tracked m' = tracked m @ (if heap_has m' (ret_addr e (mem_calls m) (C_malloc n)) then []
      else [block ''malloc'' (ret_addr e (mem_calls m) (C_malloc n)) n]) \<and> p = ret_addr e (mem_calls m) (C_malloc n) \<and>
      hears h (if heap_has m' (ret_addr e (mem_calls m) (C_malloc n)) then [] else [block ''malloc'' (ret_addr e (mem_calls m) (C_malloc n)) n]) (mode_state m) (mode_state m')"
    unfolding R_malloc handle_request.simps handle_malloc_def then_call Let_def block_def by (rule tail)
  then show ?thesis by (simp add: R_malloc tracked_after_def)
next
  case (R_realloc q n)
  with handle_realloc_run [OF ok h, of e q n m' p] run kept show ?thesis by simp
next
  case (R_reallocarray q k n)
  with run ok show ?thesis by (auto simp: handle_reallocarray_def call_runs tracked_after_def)
next
  case (R_free q)
  with run obtain u where "handle_free e h q m = (m', Inr u)" by (auto simp: then_step_Inr_iff)
  from handle_free_run [OF ok h this] R_free show ?thesis by (simp add: tracked_after_def)
next
  case (R_munmap a n)
  with run ok kept show ?thesis
    using remove_segments_run [OF _ h, of "m\<lparr>mem_calls := mem_calls m @ [C_munmap a n]\<rparr>" a m' "()"]
    by (auto simp: handle_munmap_def then_step_Inr_iff call_runs tracked_after_def)
next
  case (R_mmap a n prot flags fd off)
  with run ok show ?thesis
    using add_segment_run [of "m\<lparr>mem_calls := mem_calls m @ [C_mmap a n prot flags fd off]\<rparr>" h "block ''mmap'' p n" m' "()"]
    by (auto simp: handle_mmap_def then_step_Inr_iff call_runs tracked_after_def block_def)
next
  case (R_calloc k n)
  from run have "map_ok m' \<and> tracked m' = tracked m @ (if heap_has m' (ret_addr e (mem_calls m) (C_calloc k n)) then []
      else [block ''calloc'' (ret_addr e (mem_calls m) (C_calloc k n)) (k * n)]) \<and> p = ret_addr e (mem_calls m) (C_calloc k n) \<and>
      hears h (if heap_has m' (ret_addr e (mem_calls m) (C_calloc k n)) then [] else [block ''calloc'' (ret_addr e (mem_calls m) (C_calloc k n)) (k * n)]) (mode_state m) (mode_state m')"
    unfolding R_calloc handle_request.simps handle_calloc_def then_call Let_def block_def by (rule tail)
  then show ?thesis by (simp add: R_calloc tracked_after_def)
next
  case (R_posix_memalign al n)
  let ?c = "C_posix_memalign al n"
  let ?p = "ret_addr e (mem_calls m) ?c"
  have eq: "f g = f' g' \<Longrightarrow> then_step f k g = then_step f' k g'" for f f' :: "('p, 'x) mapping_step" and k :: "'x \<Rightarrow> ('p, 'y) mapping_step" and g g'
    by (simp add: then_step_def)
  let ?f = "then_step (updateHeap e) (\<lambda>_. then_step (in_heap ?p) (\<lambda>inside.
      then_step (if \<not> inside then add_segment h (block ''posix_memalign'' ?p n) else done_step ())
        (\<lambda>_. done_step (ret_int e (mem_calls m) ?c, ?p))))"
  let ?m = "m\<lparr>mem_calls := mem_calls m @ [?c]\<rparr>"
  have "handle_posix_memalign e h al n m = ?f ?m"
    by (simp only: handle_posix_memalign_def Let_def then_call block_def)
  from run [unfolded R_posix_memalign handle_request.simps eq [of "handle_posix_memalign e h al n" m ?f ?m, OF this]]
  have "map_ok m' \<and> tracked m' = tracked m @ (if heap_has m' ?p then [] else [block ''posix_memalign'' ?p n]) \<and> p = ?p \<and>
      hears h (if heap_has m' ?p then [] else [block ''posix_memalign'' ?p n]) (mode_state m) (mode_state m')"
    unfolding then_step_assoc then_step_simps prod.case by (rule tail)
  then show ?thesis by (simp add: R_posix_memalign tracked_after_def)
qed
qed

section \<open>Requests that may take the heap's segment out\<close>

text \<open>
  Whatever is requested, a handler that returns keeps the list but for the heap's segment, and
  tells the mode only of segments that are in the list when it returns: what comes before the
  last addition is quiet.
\<close>

definition quiet_step :: "('p, 'a) mapping_step \<Rightarrow> bool" where
  "quiet_step f \<longleftrightarrow> (\<forall>m m' x. f m = (m', Inr x) \<longrightarrow> list_ok m \<longrightarrow> list_ok m' \<and> mode_state m' = mode_state m)"

definition telling_step :: "'p hooks \<Rightarrow> ('p, 'a) mapping_step \<Rightarrow> bool" where
  "telling_step h f \<longleftrightarrow> (\<forall>m m' x. f m = (m', Inr x) \<longrightarrow> list_ok m \<longrightarrow>
     list_ok m' \<and> (\<exists>ss. hears h ss (mode_state m) (mode_state m') \<and> set ss \<subseteq> snd ` set (segments m')))"

named_theorems quiet "steps of which the mode hears nothing"

lemma quiet_parts [quiet]:
  "quiet_step (call_addr e c)" "quiet_step (call_int e c)" "quiet_step (call_void c)"
  "quiet_step the_heap" "quiet_step (done_step x)" "quiet_step (\<lambda>m. (set_heap_end b m, Inr ()))"
  by (auto simp: quiet_step_def call_runs the_heap_def split: option.splits)

lemma quiet_then [quiet]: "quiet_step f \<Longrightarrow> (\<And>a. quiet_step (k a)) \<Longrightarrow> quiet_step (then_step f k)"
  unfolding quiet_step_def by (auto simp: then_step_Inr_iff) metis+

lemma quiet_if [quiet]: "quiet_step f \<Longrightarrow> quiet_step g \<Longrightarrow> quiet_step (if b then f else g)"
  by simp

lemma quiet_updateHeap [quiet]: "quiet_step (updateHeap e)"
  unfolding updateHeap_def by (intro quiet)

lemma quiet_in_heap [quiet]: "quiet_step (in_heap a)"
  unfolding in_heap_def by (intro quiet)

lemma quiet_remove: "silent_removal h \<Longrightarrow> quiet_step (remove_segments h a)"
  by (auto simp: quiet_step_def dest: remove_segments_keeps)

lemma telling_quiet: "quiet_step f \<Longrightarrow> telling_step h f"
  unfolding quiet_step_def telling_step_def by (auto intro!: exI [of _ "[]"])

lemma telling_then:
  "quiet_step f \<Longrightarrow> (\<And>a. telling_step h (k a)) \<Longrightarrow> telling_step h (then_step f k)"
  unfolding quiet_step_def telling_step_def by (auto simp: then_step_Inr_iff) metis+

lemma telling_done:
  "telling_step h f \<Longrightarrow> telling_step h (then_step f (\<lambda>a. done_step (g a)))"
  unfolding telling_step_def by (auto simp: then_step_Inr_iff)

lemma telling_add: "telling_step h (add_segment h s)"
proof -
  have "list_ok m' \<and> (\<exists>ss. hears h ss (mode_state m) (mode_state m') \<and> set ss \<subseteq> snd ` set (segments m'))"
    if run: "add_segment h s m = (m', Inr x)" and ok: "list_ok m" for m m' x
  proof -
    obtain w where "m' = (emplace_back s m)\<lparr>mode_state := w\<rparr>" "on_addition h s (mode_state m) = (w, Inr ())"
      using run unfolding add_segment_Inr by blast
    then show ?thesis
      using emplace_back_keeps(1) [OF ok, of s] by (intro conjI exI [of _ "[s]"]) (auto simp: emplace_back_def)
  qed
  then show ?thesis by (simp add: telling_step_def)
qed

lemma telling_if: "telling_step h f \<Longrightarrow> telling_step h g \<Longrightarrow> telling_step h (if b then f else g)"
  by simp

lemma telling_request:
  assumes h: "silent_removal h"
  shows "telling_step h (handle_request e h r)"
proof -
  have free: "telling_step h (handle_free e h p)" for p
    unfolding handle_free_def by (intro telling_quiet quiet quiet_remove [OF h])
  have memalign: "telling_step h (handle_posix_memalign e h al n)" for al n
  proof -
    have "telling_step h (then_step (call_int e c) (\<lambda>result. then_step (updateHeap e) (\<lambda>_. then_step (in_heap p) (\<lambda>inside.
        then_step (if \<not> inside then add_segment h s else done_step ()) (\<lambda>_. done_step (result, p))))))" for c p s
      by (intro telling_done telling_then telling_if telling_add telling_quiet [OF quiet_parts(5)] quiet)
    then show ?thesis unfolding telling_step_def handle_posix_memalign_def Let_def by blast
  qed
  note parts = telling_done telling_then telling_if telling_add telling_quiet [OF quiet_parts(5)] quiet quiet_remove [OF h]
  show ?thesis
  proof (cases r)
    case (R_posix_memalign al n)
    then show ?thesis using telling_done [OF memalign, of al n snd] by (simp add: split_def)
  next
    case (R_munmap a n)
    have "telling_step h (handle_munmap e h a n)" unfolding handle_munmap_def by (intro telling_quiet quiet quiet_remove [OF h])
    with R_munmap telling_done [of h "handle_munmap e h a n" "\<lambda>_. 0"] show ?thesis by simp
  next
    case (R_free p)
    with telling_done [OF free [of p], of "\<lambda>_. 0"] show ?thesis by simp
  next
    case (R_reallocarray q k n)
    then show ?thesis by (simp add: handle_reallocarray_def telling_quiet quiet_parts)
  qed (simp_all only: handle_request.simps handle_malloc_def handle_calloc_def handle_realloc_def handle_mmap_def Let_def;
      intro parts)+
qed

end
