(* ===== verification/Segment_Live.thy ===== *)
theory Segment_Live
  imports Segment_Tracking
begin

text \<open>
  Whole runs of the memory map: its construction, sequences of interposed calls, and the
  abstract view of the list as the blocks that the program holds.
\<close>

section \<open>Construction\<close>

text \<open>The four pointers point to nodes of the list that carry their names.\<close>

definition points_to :: "(nat \<times> memory_segment) list \<Rightarrow> nat option \<Rightarrow> string \<Rightarrow> bool" where
  "points_to ss p name \<longleftrightarrow> (\<forall>i. p = Some i \<longrightarrow> (\<exists>s. (i, s) \<in> set ss \<and> segment_name s = name))"

definition nodes_ok :: "'p memory_map \<Rightarrow> bool" where
  "nodes_ok m \<longleftrightarrow>
     distinct (map fst (segments m)) \<and> (\<forall>(i, s) \<in> set (segments m). i < next_node m) \<and>
     points_to (segments m) (heap_ptr m) ''heap'' \<and> points_to (segments m) (stack_ptr m) ''stack'' \<and>
     points_to (segments m) (text_ptr m) ''text'' \<and> points_to (segments m) (data_ptr m) ''data''"

lemma points_to_append: "points_to ss p name \<Longrightarrow> points_to (ss @ ts) p name"
  by (fastforce simp: points_to_def)

lemma points_to_new: "points_to (ss @ [(i, s)]) (Some i) (segment_name s)"
  by (auto simp: points_to_def)

lemma nodes_ok_emplace:
  assumes "nodes_ok m"
  shows "nodes_ok (emplace_back s m)"
    and "segment_name s = ''heap'' \<Longrightarrow> nodes_ok (emplace_back s (m\<lparr>heap_ptr := Some (next_node m)\<rparr>))"
    and "segment_name s = ''stack'' \<Longrightarrow> nodes_ok (emplace_back s (m\<lparr>stack_ptr := Some (next_node m)\<rparr>))"
    and "segment_name s = ''text'' \<Longrightarrow> nodes_ok (emplace_back s (m\<lparr>text_ptr := Some (next_node m)\<rparr>))"
    and "segment_name s = ''data'' \<Longrightarrow> nodes_ok (emplace_back s (m\<lparr>data_ptr := Some (next_node m)\<rparr>))"
  using assms points_to_new [of "segments m" "next_node m" s]
  by (auto simp: nodes_ok_def emplace_back_def intro: points_to_append)

lemma nodes_ok_state [simp]: "nodes_ok (m\<lparr>mode_state := w\<rparr>) = nodes_ok m"
  by (simp add: nodes_ok_def)

lemma nodes_ok_add:
  "nodes_ok (emplace_back s m) \<Longrightarrow> add_segment h s m = (m', Inr u) \<Longrightarrow> nodes_ok m'"
  by (auto simp: add_segment_def in_mode_def split: prod.splits)

lemma map_line_ok:
  assumes "nodes_ok m" "map_line e h s m = (m', Inr u)"
  shows "nodes_ok m'"
proof -
  note emplaced = nodes_ok_emplace [OF assms(1)]
  note add = nodes_ok_add [OF emplaced(2)] nodes_ok_add [OF emplaced(4)] nodes_ok_add [OF emplaced(5)]
    nodes_ok_add [OF emplaced(1) [of "s\<lparr>segment_name := ''anonymous''\<rparr>"]]
  note line = assms(2) [unfolded map_line_def Let_def]
  show ?thesis
  proof (cases "line_kind_of e s")
    case Heap_line
    with line add(1) [of "s\<lparr>segment_name := ''heap''\<rparr>" h m' u] show ?thesis by simp
  next
    case Text_line
    with line add(2) [of "s\<lparr>segment_name := ''text''\<rparr>" h m' u] show ?thesis by simp
  next
    case Data_line
    with line add(3) [of "s\<lparr>segment_name := ''data''\<rparr>" h m' u] show ?thesis by simp
  next
    case Anonymous_line
    with line add(4) [of h m' u] show ?thesis by simp
  next
    case Stack_line
    with line emplaced(3) [of "s\<lparr>segment_name := ''stack''\<rparr>"] show ?thesis by auto
  next
    case Other_line
    with line assms(1) show ?thesis by simp
  qed
qed

lemma map_maps_lines_ok:
  "nodes_ok m \<Longrightarrow> map_maps_lines e h ls m = (m', Inr u) \<Longrightarrow> nodes_ok m'"
  by (induction ls arbitrary: m) (auto simp: then_step_Inr_iff intro: map_line_ok)

lemma nodes_ok_map: "nodes_ok m \<Longrightarrow> heap_ptr m \<noteq> None \<Longrightarrow> map_ok m"
  by (auto simp: nodes_ok_def map_ok_def points_to_def list_all_iff image_iff) force

lemma constructed_ok:
  assumes "MemoryMap e h w = (m, Inr ())"
  shows "nodes_ok m" "heap_ptr m \<noteq> None" "stack_ptr m \<noteq> None" "text_ptr m \<noteq> None" "data_ptr m \<noteq> None" "map_ok m"
proof -
  obtain ls where ls: "maps_lines e = Some ls" using assms by (auto simp: MemoryMap_def split: option.splits)
  have "nodes_ok (empty_map w)" by (simp add: nodes_ok_def empty_map_def points_to_def)
  with assms ls show "nodes_ok m" "heap_ptr m \<noteq> None" "stack_ptr m \<noteq> None" "text_ptr m \<noteq> None" "data_ptr m \<noteq> None"
    by (auto simp: MemoryMap_def then_step_Inr_iff bind_result_Inr_iff dest: map_maps_lines_ok)
  then show "map_ok m" by (intro nodes_ok_map)
qed

section \<open>Sequences of interposed calls\<close>



section \<open>The blocks that the program holds\<close>

text \<open>
  What is asked of the allocator and of the program: a block that is handed out has no byte in
  common with a tracked segment; only live blocks are given back; blocks stay on their side
  of the heap's end; and a block handed out does not wrap around the address space.
\<close>

definition apart :: "memory_segment \<Rightarrow> memory_segment \<Rightarrow> bool" where
  "apart s t \<longleftrightarrow> segment_bytes s \<inter> segment_bytes t = {}"

definition same_side :: "'p memory_map \<Rightarrow> 'p memory_map \<Rightarrow> memory_segment list \<Rightarrow> bool" where
  "same_side m m' L \<longleftrightarrow> list_all (\<lambda>b. heap_has m' (start_address b) = heap_has m (start_address b)) L"

text \<open>The block that an allocating request hands out.\<close>

fun allocated :: "request \<Rightarrow> addr \<Rightarrow> memory_segment option" where
  "allocated (R_malloc n) p = Some (block ''malloc'' p n)"
| "allocated (R_calloc k n) p = Some (block ''calloc'' p (k * n))"
| "allocated (R_posix_memalign al n) p = Some (block ''posix_memalign'' p n)"
| "allocated r p = None"

inductive holds :: "libc \<Rightarrow> 'p hooks \<Rightarrow> 'p memory_map \<Rightarrow> 'p memory_map \<Rightarrow> memory_segment list \<Rightarrow> bool"
  for e h m0 where
  nothing: "holds e h m0 m0 []"
| allocate: "holds e h m0 m L \<Longrightarrow> handle_request e h r m = (m', Inr p) \<Longrightarrow> allocated r p = Some b
    \<Longrightarrow> segment_wf b \<Longrightarrow> list_all (apart b) (tracked m) \<Longrightarrow> same_side m m' L
    \<Longrightarrow> holds e h m0 m' (L @ [b])"
| release: "holds e h m0 m L \<Longrightarrow> b \<in> set L
    \<Longrightarrow> handle_request e h (R_free (start_address b)) m = (m', Inr p) \<Longrightarrow> same_side m m' L
    \<Longrightarrow> holds e h m0 m' (remove1 b L)"

definition outside_heap :: "'p memory_map \<Rightarrow> memory_segment list \<Rightarrow> memory_segment list" where
  "outside_heap m L = filter (\<lambda>b. \<not> heap_has m (start_address b)) L"

text \<open>The invariant of such a run.\<close>

definition live_inv :: "'p memory_map \<Rightarrow> 'p memory_map \<Rightarrow> memory_segment list \<Rightarrow> bool" where
  "live_inv m0 m L \<longleftrightarrow>
     map_ok m \<and> tracked m = tracked m0 @ outside_heap m L \<and>
     list_all segment_wf L \<and>
     list_all (\<lambda>b. list_all (apart b) (tracked m0)) (outside_heap m L) \<and>
     sorted_wrt apart (outside_heap m L)"

lemma outside_heap_same_side: "same_side m m' L \<Longrightarrow> outside_heap m' L = outside_heap m L"
  by (induction L) (auto simp: same_side_def outside_heap_def)

lemma added_allocated:
  "allocated r p = Some b \<Longrightarrow> added r p m' = (if heap_has m' (start_address b) then [] else [b]) \<and> released r m = None"
  by (cases r) (auto simp: block_def)

lemma apart_contains: "apart s t \<Longrightarrow> segment_wf s \<Longrightarrow> \<not> contains_addr t (start_address s)"
  by (auto simp: apart_def segment_bytes_def contains_addr_def segment_wf_def)

lemma apart_sym: "apart s t = apart t s"
  by (auto simp: apart_def)

lemma sorted_wrt_remove1: "sorted_wrt R xs \<Longrightarrow> sorted_wrt R (remove1 x xs)"
  by (induction xs) (auto dest: subsetD [OF set_remove1_subset])

lemma filter_remove1_apart:
  assumes "sorted_wrt apart bs" "list_all segment_wf bs" "b \<in> set bs"
  shows "filter (\<lambda>s. \<not> contains_addr s (start_address b)) bs = remove1 b bs"
  using assms
proof (induction bs)
  case (Cons c bs)
  have self: "contains_addr c (start_address c)"
    using Cons.prems(2) by (simp add: contains_addr_def segment_wf_def)
  show ?case
  proof (cases "b = c")
    case True
    then have "\<not> contains_addr s (start_address b)" if "s \<in> set bs" for s
      using Cons.prems(1,2) that True apart_contains [of c s] by auto
    then show ?thesis using True self by (simp add: filter_id_conv)
  next
    case False
    with Cons.prems(3) have b: "b \<in> set bs" by simp
    then have "\<not> contains_addr c (start_address b)"
      using Cons.prems(1,2) apart_contains [of b c] by (auto simp: apart_sym [of c] list_all_iff)
    with Cons b False show ?thesis by simp
  qed
qed simp

text \<open>An allocation and a release keep the invariant.\<close>

lemma live_inv_allocate:
  assumes inv: "live_inv m0 m L" and silent: "silent_removal h"
    and req: "handle_request e h r m = (m', Inr p)" and alloc: "allocated r p = Some b"
    and wf: "segment_wf b" and fresh: "list_all (apart b) (tracked m)" and side: "same_side m m' L"
  shows "live_inv m0 m' (L @ [b])"
proof -
  have ok: "map_ok m" using inv by (simp add: live_inv_def)
  note spec = added_allocated [OF alloc, of m' m]
  have kept: "heap_kept e r m" using alloc by (cases r) auto
  from handle_request_run [OF ok silent req kept]
  have run: "map_ok m'" "tracked m' = tracked m @ (if heap_has m' (start_address b) then [] else [b])"
    using spec by (auto simp: tracked_after_def)
  have old: "outside_heap m' L = outside_heap m L" by (rule outside_heap_same_side [OF side])
  have new: "outside_heap m' (L @ [b]) = outside_heap m L @ (if heap_has m' (start_address b) then [] else [b])"
    using old by (simp add: outside_heap_def)
  have "list_all (apart b) (tracked m0)" "list_all (apart b) (outside_heap m L)"
    using fresh inv by (simp_all add: live_inv_def)
  then show ?thesis
    using inv run wf by (auto simp: live_inv_def new sorted_wrt_append list_all_iff apart_sym)
qed

lemma live_inv_release:
  assumes inv: "live_inv m0 m L" and silent: "silent_removal h" and b: "b \<in> set L"
    and req: "handle_request e h (R_free (start_address b)) m = (m', Inr p)" and side: "same_side m m' L"
  shows "live_inv m0 m' (remove1 b L)"
proof -
  have ok: "map_ok m" using inv by (simp add: live_inv_def)
  have kept: "heap_kept e (R_free (start_address b)) m" by simp
  from handle_request_run [OF ok silent req kept]
  have run: "map_ok m'" "tracked m' = (if heap_has m (start_address b) then tracked m
      else filter (\<lambda>s. \<not> contains_addr s (start_address b)) (tracked m))"
    by (simp_all add: tracked_after_def)
  have sub: "set (remove1 b L) \<subseteq> set L" by (rule set_remove1_subset)
  then have "same_side m m' (remove1 b L)" using side by (auto simp: same_side_def list_all_iff)
  then have out: "outside_heap m' (remove1 b L) = outside_heap m (remove1 b L)"
    by (rule outside_heap_same_side)
  have rest: "outside_heap m (remove1 b L) =
      (if heap_has m (start_address b) then outside_heap m L else remove1 b (outside_heap m L))"
    by (simp add: outside_heap_def filter_remove1)
  have wf: "list_all segment_wf L" "list_all segment_wf (outside_heap m L)"
    using inv by (auto simp: live_inv_def outside_heap_def list_all_iff)
  show ?thesis
  proof (cases "heap_has m (start_address b)")
    case True
    with inv run sub show ?thesis by (auto simp: live_inv_def out rest list_all_iff)
  next
    case False
    then have bo: "b \<in> set (outside_heap m L)" using b by (simp add: outside_heap_def)
    then have "\<not> contains_addr s (start_address b)" if "s \<in> set (tracked m0)" for s
      using inv that wf(2) bo apart_contains [of b s] by (auto simp: live_inv_def list_all_iff)
    then have "filter (\<lambda>s. \<not> contains_addr s (start_address b)) (tracked m0) = tracked m0"
      by (simp add: filter_id_conv)
    moreover have "filter (\<lambda>s. \<not> contains_addr s (start_address b)) (outside_heap m L) = remove1 b (outside_heap m L)"
      using inv by (intro filter_remove1_apart [OF _ wf(2) bo]) (simp add: live_inv_def)
    moreover have "sorted_wrt apart (remove1 b (outside_heap m L))"
      using inv by (auto simp: live_inv_def intro: sorted_wrt_remove1)
    ultimately show ?thesis
      using inv run False sub set_remove1_subset [of b "outside_heap m L"]
      by (auto simp: live_inv_def out rest list_all_iff)
  qed
qed

lemma holds_inv:
  assumes "holds e h m0 m L" "map_ok m0" "silent_removal h"
  shows "live_inv m0 m L"
  using assms
proof (induction rule: holds.induct)
  case nothing
  then show ?case by (simp add: live_inv_def outside_heap_def)
next
  case (allocate m L r m' p b)
  then show ?case by (intro live_inv_allocate [of m0 m L h e r m' p b]) auto
next
  case (release m L b m' p)
  then show ?case by (intro live_inv_release [of m0 m L h b e m' p]) auto
qed


section \<open>A concrete process\<close>

text \<open>A small maps file, an allocator that answers above the heap, and a mode that does nothing.\<close>

definition demo_lines :: "string list" where
  "demo_lines =
     [''400000-401000 r-xp 0 08:01 17 /bin/a'' @ [CHR 0x0A],
      ''600000-601000 rw-p 0 08:01 17 /bin/a'' @ [CHR 0x0A],
      ''601000-622000 rw-p 0 00:00 0 [heap]'' @ [CHR 0x0A],
      ''7ffe000-7fff000 rw-p 0 00:00 0 [stack]'' @ [CHR 0x0A]]"

definition demo_libc :: libc where
  "demo_libc =
     \<lparr>ret_addr = (\<lambda>cs c. case c of C_malloc n \<Rightarrow> 0x700000 | C_sbrk_0 \<Rightarrow> 0x622000 | _ \<Rightarrow> 0),
      ret_int = (\<lambda>_ _. 0), etext_addr = 0x400800, edata_addr = 0x600800,
      maps_lines = Some demo_lines, maps_read_ok = True, maps_close_ok = True\<rparr>"

definition no_hooks :: "'p hooks" where
  "no_hooks = \<lparr>on_addition = (\<lambda>_ w. (w, Inr ())), on_removal = (\<lambda>_ w. (w, Inr ()))\<rparr>"

definition demo_map :: "unit memory_map" where
  "demo_map =
     \<lparr>segments =
        [(0, \<lparr>start_address = 0x400000, end_address = 0x400FFF, segment_name = ''text''\<rparr>),
         (1, \<lparr>start_address = 0x600000, end_address = 0x600FFF, segment_name = ''data''\<rparr>),
         (2, \<lparr>start_address = 0x601000, end_address = 0x621FFF, segment_name = ''heap''\<rparr>),
         (3, \<lparr>start_address = 0x7FFE000, end_address = 0x7FFEFFF, segment_name = ''stack''\<rparr>)],
      next_node = 4, heap_ptr = Some 2, stack_ptr = Some 3, text_ptr = Some 0, data_ptr = Some 1,
      mem_calls = [], mode_state = ()\<rparr>"

lemma silent_no_hooks [simp]: "silent_removal no_hooks"
  by (simp add: silent_removal_def no_hooks_def)

lemma demo_constructed: "MemoryMap demo_libc no_hooks () = (demo_map, Inr ())"
  by code_simp


lemma demo_ok [simp]: "map_ok demo_map"
  by (simp add: map_ok_def demo_map_def)

section \<open>Properties\<close>

text \<open>
  C23: the constructor. If it returns, every node of the list has its own identity, and the
  heap, stack, text and data pointers all point to nodes of the list that carry their names.
\<close>

theorem memory_map_constructed:
  assumes "MemoryMap e h w = (m, Inr ())"
  shows "distinct (map fst (segments m)) \<and>
    list_all (\<lambda>(p, name). \<exists>i s. p = Some i \<and> map_of (segments m) i = Some s \<and> segment_name s = name)
      [(heap_ptr m, ''heap''), (stack_ptr m, ''stack''), (text_ptr m, ''text''), (data_ptr m, ''data'')]"
proof -
  note nodes = constructed_ok(1) [OF assms] and ptrs = constructed_ok(2-5) [OF assms]
  from nodes have d: "distinct (map fst (segments m))" by (simp add: nodes_ok_def)
  have "\<exists>i s. p = Some i \<and> map_of (segments m) i = Some s \<and> segment_name s = name"
    if "points_to (segments m) p name" "p \<noteq> None" for p name
    using that map_of_is_SomeI [OF d] by (fastforce simp: points_to_def)
  with nodes ptrs d show ?thesis by (simp add: nodes_ok_def)
qed

lemma memory_map_constructed_witness:
  "\<exists>i s. heap_ptr (fst (MemoryMap demo_libc no_hooks ())) = Some i \<and>
     map_of (segments (fst (MemoryMap demo_libc no_hooks ()))) i = Some s \<and> segment_name s = ''heap''"
  using memory_map_constructed [OF demo_constructed] by (auto simp: demo_constructed dest: map_of_SomeD)


lemma demo_malloc:
  "handle_request demo_libc no_hooks (R_malloc 4096) demo_map =
     (demo_map\<lparr>segments :=
        [(0, \<lparr>start_address = 0x400000, end_address = 0x400FFF, segment_name = ''text''\<rparr>),
         (1, \<lparr>start_address = 0x600000, end_address = 0x600FFF, segment_name = ''data''\<rparr>),
         (2, \<lparr>start_address = 0x601000, end_address = 0x622000, segment_name = ''heap''\<rparr>),
         (3, \<lparr>start_address = 0x7FFE000, end_address = 0x7FFEFFF, segment_name = ''stack''\<rparr>),
         (4, \<lparr>start_address = 0x700000, end_address = 0x700FFF, segment_name = ''malloc''\<rparr>)],
      next_node := 5, mem_calls := [C_malloc 4096, C_sbrk_0, C_sbrk_0]\<rparr>, Inr 0x700000)"
  by code_simp


text \<open>
  C3: what the list means. Under what an allocator promises, the tracked segments are at every
  moment the ones that were there at the start followed by the blocks that the program holds
  outside the heap, in the order in which it got them.
\<close>

theorem tracked_exactly_live:
  assumes "holds e h m0 m L" and "map_ok m0" and "silent_removal h"
  shows "tracked m = tracked m0 @ outside_heap m L"
  using holds_inv [OF assms] by (simp add: live_inv_def)

lemma tracked_exactly_live_witness:
  "tracked (fst (handle_request demo_libc no_hooks (R_malloc 4096) demo_map)) =
     tracked demo_map @ [block ''malloc'' 0x700000 4096]"
proof -
  let ?m = "fst (handle_request demo_libc no_hooks (R_malloc 4096) demo_map)"
  let ?b = "block ''malloc'' 0x700000 4096"
  have r: "handle_request demo_libc no_hooks (R_malloc 4096) demo_map = (?m, Inr 0x700000)"
    by (simp only: demo_malloc fst_conv)
  have "segment_wf ?b" by (simp add: segment_wf_def block_def)
  moreover have "list_all (apart ?b) (tracked demo_map)"
    by (simp add: tracked_def demo_map_def apart_def segment_bytes_def block_def)
  ultimately have "holds demo_libc no_hooks demo_map ?m ([] @ [?b])"
    using r by (intro holds.allocate [OF holds.nothing r]) (simp_all add: same_side_def)
  from tracked_exactly_live [OF this demo_ok silent_no_hooks]
  have "tracked ?m = tracked demo_map @ outside_heap ?m [?b]" by simp
  moreover have "\<not> heap_has ?m 0x700000"
    unfolding demo_malloc fst_conv by (simp add: heap_has_def heap_segment_def contains_addr_def demo_map_def)
  ultimately show ?thesis by (simp add: outside_heap_def block_def del: handle_request.simps)
qed

text \<open>
  C22: every handler does what its specification says: which segments it drops, which it adds,
  and that a request inside the heap changes nothing but the heap's end.
\<close>

theorem requests_by_specification:
  assumes "map_ok m" and "silent_removal h" and "heap_kept e r m"
    and "handle_request e h r m = (m', Inr p)"
  shows "tracked m' = tracked_after r p m m'"
  using handle_request_run [OF assms(1,2,4,3)] by blast

lemma requests_by_specification_witness:
  "tracked (fst (handle_request demo_libc no_hooks (R_munmap 0x600000 64) demo_map)) =
     filter (\<lambda>s. \<not> contains_addr s 0x600000) (tracked demo_map)"
proof -
  let ?r = "R_munmap 0x600000 64"
  let ?m = "fst (handle_request demo_libc no_hooks ?r demo_map)"
  have kept: "heap_kept demo_libc ?r demo_map"
    by (simp add: heap_has_def heap_segment_def contains_addr_def demo_map_def)
  have "snd (handle_request demo_libc no_hooks ?r demo_map) = Inr 0"
    by code_simp
  then have "handle_request demo_libc no_hooks ?r demo_map = (?m, Inr 0)" by (simp add: prod_eq_iff)
  from requests_by_specification [OF demo_ok silent_no_hooks kept this]
  show ?thesis by (simp add: tracked_after_def)
qed

text \<open>
  C31: unmapping inside the heap. \<open>munmap\<close> drops every segment that contains its address,
  whatever the length and whether or not the call succeeded; if that is the heap, the heap
  pointer dangles and the next \<open>malloc\<close> reads through it.
\<close>

theorem munmap_in_heap_dangles:
  assumes "map_ok m" and "silent_removal h" and "heap_has m a"
    and "handle_request e h (R_munmap a len) m = (m', Inr p)"
  shows "snd (handle_request e h (R_malloc n) m') = Inl (Undefined ''dangling heap pointer'')"
proof -
  let ?m = "m\<lparr>mem_calls := mem_calls m @ [C_munmap a len]\<rparr>"
  have m': "m' = ?m\<lparr>segments := filter (\<lambda>(i, s). \<not> contains_addr s a) (segments m)\<rparr>"
    using assms(2,4) by (auto simp: handle_munmap_def then_step_Inr_iff call_runs remove_segments_silent)
  obtain i t where i: "heap_ptr m = Some i" "map_of (segments m) i = Some t"
    using assms(1) unfolding map_ok_def by (metis domIff dom_map_of_conv_image_fst not_None_eq)
  have d: "distinct (map fst (segments m))" using assms(1) by (simp add: map_ok_def)
  have t: "contains_addr t a" using assms(3) i by (simp add: heap_has_def heap_segment_def)
  have "map_of (filter (\<lambda>(i, s). \<not> contains_addr s a) (segments m)) i = None"
  proof (rule ccontr)
    assume "map_of (filter (\<lambda>(i, s). \<not> contains_addr s a) (segments m)) i \<noteq> None"
    then obtain s where "map_of (filter (\<lambda>(i, s). \<not> contains_addr s a) (segments m)) i = Some s" by blast
    from map_of_SomeD [OF this] have s: "(i, s) \<in> set (segments m)" "\<not> contains_addr s a" by simp_all
    with map_of_is_SomeI [OF d s(1)] i(2) t show False by simp
  qed
  then show ?thesis
    using i(1) by (simp add: handle_malloc_def then_call Let_def updateHeap_def then_step_def the_heap_def m' call_addr_def)
qed

lemma munmap_in_heap_dangles_witness:
  "snd (handle_request demo_libc no_hooks (R_malloc 64)
     (fst (handle_request demo_libc no_hooks (R_munmap 0x602000 64) demo_map))) =
     Inl (Undefined ''dangling heap pointer'')"
proof -
  let ?m = "fst (handle_request demo_libc no_hooks (R_munmap 0x602000 64) demo_map)"
  have "heap_has demo_map 0x602000"
    by (simp add: heap_has_def heap_segment_def contains_addr_def demo_map_def)
  moreover have "snd (handle_request demo_libc no_hooks (R_munmap 0x602000 64) demo_map) = Inr 0" by code_simp
  then have "handle_request demo_libc no_hooks (R_munmap 0x602000 64) demo_map = (?m, Inr 0)"
    by (simp add: prod_eq_iff)
  ultimately show ?thesis by (rule munmap_in_heap_dangles [OF demo_ok silent_no_hooks])
qed

end
