(* ===== verification/Interposition.thy ===== *)
theory Interposition
  imports Segment_Live
begin

text \<open>
  The wrapped functions at the end of src/unstickymem/unstickymem.cpp: which calls of the
  program reach the memory map, and the buffer that breaks the recursion from \<open>calloc\<close> through
  \<open>dlsym\<close> back to \<open>calloc\<close>. The dynamic linker is a parameter: which symbols it finds, and the
  \<open>calloc\<close> calls that a look-up makes. The flags are thread-local; one thread is modelled.
\<close>

section \<open>State\<close>

record linker =
  symbol_found :: "string \<Rightarrow> bool"
  dlsym_callocs :: "string \<Rightarrow> (u64 \<times> u64) list"
  buffer_address :: addr                  \<comment> \<open>\<open>calloc_buffer\<close>\<close>

record 'p interposition =
  is_initialized :: bool
  inside_unstickymem :: bool
  inside_dlsym :: bool
  calloc_buffer_in_use :: bool
  memory :: "'p memory_map"

type_synonym ('p, 'a) interposed = "('p interposition, 'a) run"

definition on_memory :: "('p, 'a) mapping_step \<Rightarrow> ('p, 'a) interposed" where
  "on_memory f s = (case f (memory s) of (m, r) \<Rightarrow> (s\<lparr>memory := m\<rparr>, r))"

definition set_inside :: "bool \<Rightarrow> ('p, unit) interposed" where
  "set_inside b s = (s\<lparr>inside_unstickymem := b\<rparr>, Inr ())"

definition set_inside_dlsym :: "bool \<Rightarrow> ('p, unit) interposed" where
  "set_inside_dlsym b s = (s\<lparr>inside_dlsym := b\<rparr>, Inr ())"

text \<open>\<open>!is_initialized || inside_unstickymem\<close>\<close>

definition bypassed :: "'p interposition \<Rightarrow> bool" where
  "bypassed s \<longleftrightarrow> \<not> is_initialized s \<or> inside_unstickymem s"

text \<open>The flag is set around a handler.\<close>

definition with_flag :: "('p, 'a) mapping_step \<Rightarrow> ('p, 'a) interposed" where
  "with_flag f =
     then_step (set_inside True) (\<lambda>_.
     then_step (on_memory f) (\<lambda>result.
     then_step (set_inside False) (\<lambda>_. done_step result)))"

section \<open>Looking up the real functions\<close>

text \<open>A look-up whose \<open>calloc\<close> calls are answered by \<open>c\<close>; calling what was not found is undefined.\<close>

fun callocs :: "(u64 \<Rightarrow> u64 \<Rightarrow> ('p, addr) interposed) \<Rightarrow> (u64 \<times> u64) list \<Rightarrow> ('p, unit) interposed" where
  "callocs c [] = done_step ()"
| "callocs c ((n, k) # ns) = then_step (c n k) (\<lambda>_. callocs c ns)"

definition look_up ::
  "(u64 \<Rightarrow> u64 \<Rightarrow> ('p, addr) interposed) \<Rightarrow> linker \<Rightarrow> string \<Rightarrow> ('p, unit) interposed" where
  "look_up c l name =
     then_step (callocs c (dlsym_callocs l name)) (\<lambda>_.
       lift_result (if symbol_found l name then Inr () else Inl (Undefined ''call through a null pointer'')))"

definition calloc_in_dlsym :: "linker \<Rightarrow> ('p, addr) interposed" where
  "calloc_in_dlsym l s =
     then_step (lift_result (die_if (calloc_buffer_in_use s) ''calling dlsym requires more buffers''))
       (\<lambda>_ s. (s\<lparr>calloc_buffer_in_use := True\<rparr>, Inr (buffer_address l))) s"

definition calloc :: "linker \<Rightarrow> libc \<Rightarrow> 'p hooks \<Rightarrow> u64 \<Rightarrow> u64 \<Rightarrow> ('p, addr) interposed" where
  "calloc l e h nmemb sz s =
     (if inside_dlsym s then calloc_in_dlsym l s
      else if bypassed s
      then
        then_step (set_inside_dlsym True) (\<lambda>_.
        then_step (look_up (\<lambda>n k. calloc_in_dlsym l) l ''calloc'') (\<lambda>_.
        then_step (on_memory (call_addr e (C_calloc nmemb sz))) (\<lambda>result.
        then_step (set_inside_dlsym False) (\<lambda>_. done_step result)))) s
      else with_flag (handle_calloc e h nmemb sz) s)"

text \<open>What the other functions do when the library is not initialized or calls them itself.\<close>

definition bypass :: "linker \<Rightarrow> libc \<Rightarrow> 'p hooks \<Rightarrow> string \<Rightarrow> ('p, 'a) mapping_step \<Rightarrow> ('p, 'a) interposed" where
  "bypass l e h name f = then_step (look_up (calloc l e h) l name) (\<lambda>_. on_memory f)"

section \<open>The other wrapped functions\<close>

definition malloc :: "linker \<Rightarrow> libc \<Rightarrow> 'p hooks \<Rightarrow> u64 \<Rightarrow> ('p, addr) interposed" where
  "malloc l e h sz s =
     (if bypassed s then bypass l e h ''malloc'' (call_addr e (C_malloc sz)) s
      else with_flag (handle_malloc e h sz) s)"

definition realloc :: "linker \<Rightarrow> libc \<Rightarrow> 'p hooks \<Rightarrow> addr \<Rightarrow> u64 \<Rightarrow> ('p, addr) interposed" where
  "realloc l e h p sz s =
     (if bypassed s then bypass l e h ''realloc'' (call_addr e (C_realloc p sz)) s
      else with_flag (handle_realloc e h p sz) s)"

definition reallocarray :: "linker \<Rightarrow> libc \<Rightarrow> 'p hooks \<Rightarrow> addr \<Rightarrow> u64 \<Rightarrow> u64 \<Rightarrow> ('p, addr) interposed" where
  "reallocarray l e h p nmemb sz s =
     (if bypassed s then bypass l e h ''reallocarray'' (call_addr e (C_reallocarray p nmemb sz)) s
      else with_flag (handle_reallocarray e p nmemb sz) s)"

definition free_block :: "linker \<Rightarrow> libc \<Rightarrow> 'p hooks \<Rightarrow> addr \<Rightarrow> ('p, unit) interposed" where
  "free_block l e h p s =
     (if p = buffer_address l then (s\<lparr>calloc_buffer_in_use := False\<rparr>, Inr ())
      else if bypassed s then bypass l e h ''free'' (call_void (C_free p)) s
      else with_flag (handle_free e h p) s)"

text \<open>The result and what the first argument points to.\<close>

definition real_posix_memalign :: "libc \<Rightarrow> u64 \<Rightarrow> u64 \<Rightarrow> ('p, int \<times> addr) mapping_step" where
  "real_posix_memalign e alignment sz m =
     (let c = C_posix_memalign alignment sz; p = ret_addr e (mem_calls m) c
      in then_step (call_int e c) (\<lambda>result. done_step (result, p)) m)"

definition posix_memalign :: "linker \<Rightarrow> libc \<Rightarrow> 'p hooks \<Rightarrow> u64 \<Rightarrow> u64 \<Rightarrow> ('p, int \<times> addr) interposed" where
  "posix_memalign l e h alignment sz s =
     (if bypassed s then bypass l e h ''posix_memalign'' (real_posix_memalign e alignment sz) s
      else with_flag (handle_posix_memalign e h alignment sz) s)"

definition mmap ::
  "linker \<Rightarrow> libc \<Rightarrow> 'p hooks \<Rightarrow> addr \<Rightarrow> u64 \<Rightarrow> int \<Rightarrow> int \<Rightarrow> int \<Rightarrow> int \<Rightarrow> ('p, addr) interposed" where
  "mmap l e h a len prot flags fd offset s =
     (if bypassed s then bypass l e h ''mmap'' (call_addr e (C_mmap a len prot flags fd offset)) s
      else with_flag (handle_mmap e h a len prot flags fd offset) s)"

definition munmap :: "linker \<Rightarrow> libc \<Rightarrow> 'p hooks \<Rightarrow> addr \<Rightarrow> u64 \<Rightarrow> ('p, int) interposed" where
  "munmap l e h a len s =
     (if bypassed s then bypass l e h ''munmap'' (call_int e (C_munmap a len)) s
      else with_flag (handle_munmap e h a len) s)"

definition mremap :: "addr \<Rightarrow> u64 \<Rightarrow> u64 \<Rightarrow> int \<Rightarrow> ('p, addr) interposed" where
  "mremap old_address old_size new_size flags = fail_step (Aborted ''TODO'')"

definition brk :: "linker \<Rightarrow> libc \<Rightarrow> 'p hooks \<Rightarrow> addr \<Rightarrow> ('p, int) interposed" where
  "brk l e h a s =
     (if bypassed s then bypass l e h ''brk'' (call_int e (C_brk a)) s
      else with_flag (handle_brk a) s)"

definition sbrk :: "linker \<Rightarrow> libc \<Rightarrow> 'p hooks \<Rightarrow> int \<Rightarrow> ('p, addr) interposed" where
  "sbrk l e h increment s =
     (if bypassed s then bypass l e h ''sbrk'' (call_addr e (C_sbrk increment)) s
      else with_flag (handle_sbrk increment) s)"

definition mbind :: "linker \<Rightarrow> libc \<Rightarrow> 'p hooks \<Rightarrow> addr \<Rightarrow> u64 \<Rightarrow> int \<Rightarrow> ('p, int) interposed" where
  "mbind l e h a len mode s =
     (if bypassed s then bypass l e h ''mbind'' (call_int e (C_mbind a len mode)) s
      else with_flag (handle_mbind e a len mode) s)"

section \<open>Calls of the program\<close>

fun interposed_request :: "linker \<Rightarrow> libc \<Rightarrow> 'p hooks \<Rightarrow> request \<Rightarrow> ('p, addr) interposed" where
  "interposed_request l e h (R_malloc n) = malloc l e h n"
| "interposed_request l e h (R_calloc k n) = calloc l e h k n"
| "interposed_request l e h (R_realloc p n) = realloc l e h p n"
| "interposed_request l e h (R_reallocarray p k n) = reallocarray l e h p k n"
| "interposed_request l e h (R_free p) = then_step (free_block l e h p) (\<lambda>_. done_step 0)"
| "interposed_request l e h (R_posix_memalign al n) =
     then_step (posix_memalign l e h al n) (\<lambda>(_, p). done_step p)"
| "interposed_request l e h (R_mmap a n prot flags fd off) = mmap l e h a n prot flags fd off"
| "interposed_request l e h (R_munmap a n) = then_step (munmap l e h a n) (\<lambda>_. done_step 0)"

fun interposed_all :: "linker \<Rightarrow> libc \<Rightarrow> 'p hooks \<Rightarrow> request list \<Rightarrow> ('p, addr list) interposed" where
  "interposed_all l e h [] = done_step []"
| "interposed_all l e h (r # rs) =
     then_step (interposed_request l e h r) (\<lambda>p.
     then_step (interposed_all l e h rs) (\<lambda>ps. done_step (p # ps)))"

fun handle_all :: "libc \<Rightarrow> 'p hooks \<Rightarrow> request list \<Rightarrow> ('p, addr list) mapping_step" where
  "handle_all e h [] = done_step []"
| "handle_all e h (r # rs) =
     then_step (handle_request e h r) (\<lambda>p.
     then_step (handle_all e h rs) (\<lambda>ps. done_step (p # ps)))"

section \<open>Around the handlers\<close>

named_theorems interposed_runs "what a part of a wrapped function does when it returns"

lemma on_memory_Inr [interposed_runs]:
  "on_memory f s = (s', Inr x) \<longleftrightarrow> (\<exists>m. f (memory s) = (m, Inr x) \<and> s' = s\<lparr>memory := m\<rparr>)"
  by (auto simp: on_memory_def split: prod.splits)

lemma with_flag_Inr [interposed_runs]:
  "with_flag f s = (s', Inr x) \<longleftrightarrow>
     (\<exists>m. f (memory s) = (m, Inr x) \<and> s' = s\<lparr>inside_unstickymem := False, memory := m\<rparr>)"
  by (auto simp: with_flag_def then_step_Inr_iff set_inside_def on_memory_Inr)

text \<open>States that differ in the calls made and the use of the buffer.\<close>

definition only_calls :: "'p interposition \<Rightarrow> 'p interposition \<Rightarrow> bool" where
  "only_calls s s' \<longleftrightarrow>
     is_initialized s' = is_initialized s \<and> inside_unstickymem s' = inside_unstickymem s \<and>
     inside_dlsym s' = inside_dlsym s \<and>
     (memory s')\<lparr>mem_calls := []\<rparr> = (memory s)\<lparr>mem_calls := []\<rparr>"

lemma only_calls_refl [simp]: "only_calls s s"
  by (simp add: only_calls_def)

lemma only_calls_trans: "only_calls s t \<Longrightarrow> only_calls t u \<Longrightarrow> only_calls s u"
  by (simp add: only_calls_def)

lemma only_calls_flags:
  "only_calls s s' \<Longrightarrow> bypassed s' = bypassed s \<and> inside_dlsym s' = inside_dlsym s"
  by (simp add: only_calls_def bypassed_def)

lemma callocs_only_calls:
  assumes c: "\<And>n k s s' p. c n k s = (s', Inr p) \<Longrightarrow> P s \<Longrightarrow> only_calls s s' \<and> P s'"
  shows "callocs c ns s = (s', Inr u) \<Longrightarrow> P s \<Longrightarrow> only_calls s s' \<and> P s'"
proof (induction ns arbitrary: s)
  case (Cons nk ns)
  obtain n k where nk: "nk = (n, k)" by fastforce
  with Cons.prems(1) obtain t p where t: "c n k s = (t, Inr p)" "callocs c ns t = (s', Inr u)"
    by (auto simp: then_step_Inr_iff)
  from c [OF t(1) Cons.prems(2)] Cons.IH [OF t(2)] show ?case by (blast intro: only_calls_trans)
qed simp

lemma look_up_Inr:
  "look_up c l name s = (s', Inr u) \<longleftrightarrow> callocs c (dlsym_callocs l name) s = (s', Inr ()) \<and> symbol_found l name"
  by (auto simp: look_up_def then_step_Inr_iff)

lemma calloc_in_dlsym_Inr [interposed_runs]:
  "calloc_in_dlsym l s = (s', Inr p) \<longleftrightarrow>
     \<not> calloc_buffer_in_use s \<and> s' = s\<lparr>calloc_buffer_in_use := True\<rparr> \<and> p = buffer_address l"
  by (auto simp: calloc_in_dlsym_def then_step_Inr_iff)

lemma calloc_in_dlsym_only_calls: "calloc_in_dlsym l s = (s', Inr p) \<Longrightarrow> only_calls s s'"
  by (auto simp: calloc_in_dlsym_Inr only_calls_def)

lemma calloc_bypassed:
  assumes "bypassed s" "\<not> inside_dlsym s" "calloc l e h k n s = (s', Inr p)"
  shows "only_calls s s' \<and> last (mem_calls (memory s')) = C_calloc k n"
proof -
  from assms obtain s2 where
    l: "callocs (\<lambda>n k. calloc_in_dlsym l) (dlsym_callocs l ''calloc'') (s\<lparr>inside_dlsym := True\<rparr>) = (s2, Inr ())" and
    s': "s' = s2\<lparr>memory := (memory s2)\<lparr>mem_calls := mem_calls (memory s2) @ [C_calloc k n]\<rparr>, inside_dlsym := False\<rparr>"
    by (auto simp: calloc_def then_step_Inr_iff set_inside_dlsym_def look_up_Inr on_memory_Inr call_addr_def)
  from callocs_only_calls [of "\<lambda>n k. calloc_in_dlsym l" "\<lambda>_. True", OF _ l] calloc_in_dlsym_only_calls
  have "only_calls (s\<lparr>inside_dlsym := True\<rparr>) s2" by blast
  with assms(2) show ?thesis by (simp add: only_calls_def s')
qed

lemma bypass_run:
  assumes "bypassed s" "\<not> inside_dlsym s" "bypass l e h name f s = (s', Inr x)"
  obtains t m where "only_calls s t" "f (memory t) = (m, Inr x)" "s' = t\<lparr>memory := m\<rparr>"
proof -
  from assms(3) obtain t m where t: "callocs (calloc l e h) (dlsym_callocs l name) s = (t, Inr ())"
    "f (memory t) = (m, Inr x)" "s' = t\<lparr>memory := m\<rparr>"
    by (auto simp: bypass_def then_step_Inr_iff look_up_Inr on_memory_Inr)
  have "only_calls s t \<and> (bypassed t \<and> \<not> inside_dlsym t)"
  proof (rule callocs_only_calls [where P = "\<lambda>s. bypassed s \<and> \<not> inside_dlsym s", OF _ t(1)])
    fix n k s s' p
    assume c: "calloc l e h n k s = (s', Inr p)" "bypassed s \<and> \<not> inside_dlsym s"
    then have "only_calls s s'" using calloc_bypassed by blast
    with c(2) only_calls_flags show "only_calls s s' \<and> bypassed s' \<and> \<not> inside_dlsym s'" by blast
  qed (use assms in simp)
  with t that show thesis by blast
qed

text \<open>One call, on either side of the flag.\<close>

fun real_call :: "request \<Rightarrow> mem_call" where
  "real_call (R_malloc n) = C_malloc n"
| "real_call (R_calloc k n) = C_calloc k n"
| "real_call (R_realloc p n) = C_realloc p n"
| "real_call (R_reallocarray p k n) = C_reallocarray p k n"
| "real_call (R_free p) = C_free p"
| "real_call (R_posix_memalign al n) = C_posix_memalign al n"
| "real_call (R_mmap a n prot flags fd off) = C_mmap a n prot flags fd off"
| "real_call (R_munmap a n) = C_munmap a n"

lemmas wrapped_functions = malloc_def realloc_def reallocarray_def free_block_def posix_memalign_def
  mmap_def munmap_def

lemma bypass_last:
  assumes "bypassed s" "\<not> inside_dlsym s" "bypass l e h name f s = (s', Inr x)"
    and "\<And>m m'. f m = (m', Inr x) \<Longrightarrow> m' = m\<lparr>mem_calls := mem_calls m @ [c]\<rparr>"
  shows "only_calls s s' \<and> last (mem_calls (memory s')) = c"
proof -
  obtain t m where t: "only_calls s t" "f (memory t) = (m, Inr x)" "s' = t\<lparr>memory := m\<rparr>"
    by (rule bypass_run [OF assms(1-3)])
  with assms(4) [OF t(2)] show ?thesis by (simp add: only_calls_def)
qed

lemma request_bypassed:
  assumes "bypassed s" "\<not> inside_dlsym s" "r \<noteq> R_free (buffer_address l)"
    and "interposed_request l e h r s = (s', Inr p)"
  shows "only_calls s s' \<and> last (mem_calls (memory s')) = real_call r"
proof -
  show ?thesis
  proof (cases r)
    case (R_calloc k n)
    have "calloc l e h k n s = (s', Inr p)" using assms(4) R_calloc by simp
    from calloc_bypassed [OF assms(1,2) this] R_calloc show ?thesis by simp
  next
    case (R_posix_memalign al n)
    with assms(1,4) obtain x where "bypass l e h ''posix_memalign'' (real_posix_memalign e al n) s = (s', Inr x)"
      by (auto simp: wrapped_functions then_step_Inr_iff)
    from bypass_last [OF assms(1,2) this, of "C_posix_memalign al n"] R_posix_memalign show ?thesis
      by (auto simp: real_posix_memalign_def Let_def then_step_Inr_iff call_runs)
  next
    case (R_free q)
    with assms have "bypass l e h ''free'' (call_void (C_free q)) s = (s', Inr ())"
      by (auto simp: wrapped_functions then_step_Inr_iff)
    from bypass_last [OF assms(1,2) this, of "C_free q"] R_free show ?thesis by (auto simp: call_runs)
  next
    case (R_munmap a n)
    with assms(1,4) obtain x where "bypass l e h ''munmap'' (call_int e (C_munmap a n)) s = (s', Inr x)"
      by (auto simp: wrapped_functions then_step_Inr_iff)
    from bypass_last [OF assms(1,2) this, of "C_munmap a n"] R_munmap show ?thesis by (auto simp: call_runs)
  qed (use assms(1,4) in \<open>auto simp: wrapped_functions call_runs elim!: bypass_last [OF assms(1,2), THEN conjunct1]
        bypass_last [OF assms(1,2), THEN conjunct2]\<close>)
qed

lemma request_handled:
  assumes "\<not> bypassed s" "\<not> inside_dlsym s" "r \<noteq> R_free (buffer_address l)"
    and "interposed_request l e h r s = (s', Inr p)"
  shows "\<exists>m. handle_request e h r (memory s) = (m, Inr p) \<and> s' = s\<lparr>memory := m\<rparr>"
proof -
  have "s\<lparr>inside_unstickymem := False, memory := m\<rparr> = s\<lparr>memory := m\<rparr>" for m
    using assms(1) by (simp add: bypassed_def)
  with assms show ?thesis
    by (cases r) (auto simp: wrapped_functions calloc_def with_flag_Inr then_step_Inr_iff)
qed

lemma all_bypassed:
  "bypassed s \<Longrightarrow> \<not> inside_dlsym s \<Longrightarrow> R_free (buffer_address l) \<notin> set rs \<Longrightarrow>
     interposed_all l e h rs s = (s', Inr ps) \<Longrightarrow> only_calls s s'"
proof (induction rs arbitrary: s ps)
  case (Cons r rs)
  then obtain t p qs where t: "interposed_request l e h r s = (t, Inr p)" "interposed_all l e h rs t = (s', Inr qs)"
    by (auto simp: then_step_Inr_iff)
  from Cons.prems(3) have r: "r \<noteq> R_free (buffer_address l)" by auto
  have st: "only_calls s t" using request_bypassed [OF Cons.prems(1,2) r t(1)] by blast
  with Cons.prems only_calls_flags [OF st] have "only_calls t s'" by (intro Cons.IH [OF _ _ _ t(2)]) auto
  with st show ?case by (rule only_calls_trans)
qed simp

lemma all_handled:
  "\<not> bypassed s \<Longrightarrow> \<not> inside_dlsym s \<Longrightarrow> R_free (buffer_address l) \<notin> set rs \<Longrightarrow>
     interposed_all l e h rs s = (s', Inr ps) \<Longrightarrow>
     \<exists>m. handle_all e h rs (memory s) = (m, Inr ps) \<and> s' = s\<lparr>memory := m\<rparr>"
proof (induction rs arbitrary: s ps)
  case (Cons r rs)
  then obtain t p qs where t: "interposed_request l e h r s = (t, Inr p)" "interposed_all l e h rs t = (s', Inr qs)"
    and ps: "ps = p # qs"
    by (auto simp: then_step_Inr_iff)
  from Cons.prems(3) have r: "r \<noteq> R_free (buffer_address l)" by auto
  obtain m where m: "handle_request e h r (memory s) = (m, Inr p)" "t = s\<lparr>memory := m\<rparr>"
    using request_handled [OF Cons.prems(1,2) r t(1)] by blast
  have "\<exists>m. handle_all e h rs (memory t) = (m, Inr qs) \<and> s' = t\<lparr>memory := m\<rparr>"
    using Cons.prems m(2) by (intro Cons.IH [OF _ _ _ t(2)]) (simp_all add: bypassed_def)
  with m ps show ?case by (auto simp: then_step_Inr_iff)
qed simp

section \<open>A concrete linker\<close>

text \<open>Every look-up allocates once, as that of glibc does in a new thread.\<close>

definition demo_linker :: linker where
  "demo_linker =
     \<lparr>symbol_found = (\<lambda>_. True), dlsym_callocs = (\<lambda>_. [(1, 32)]), buffer_address = 0x900000\<rparr>"

definition demo_start :: "bool \<Rightarrow> unit interposition" where
  "demo_start b =
     \<lparr>is_initialized = b, inside_unstickymem = False, inside_dlsym = False, calloc_buffer_in_use = False,
      memory = demo_map\<rparr>"

section \<open>Properties\<close>

text \<open>
  C6: which calls reach the memory map. A sequence of calls of an initialised library, outside
  its own handlers, does to the map exactly what its handlers do one after the other, with
  the same results, and leaves the flag clear. A sequence of calls before the initialisation,
  or from inside a handler, makes the real calls and leaves the map as it is.
\<close>

theorem interposed_calls_reach_handlers:
  assumes "interposed_all l e h rs s = (s', Inr ps)" and "\<not> inside_dlsym s"
    and "R_free (buffer_address l) \<notin> set rs"
  shows "if is_initialized s \<and> \<not> inside_unstickymem s
    then handle_all e h rs (memory s) = (memory s', Inr ps) \<and> s' = s\<lparr>memory := memory s'\<rparr>
    else only_calls s s'"
proof (cases "bypassed s")
  case True
  then have "\<not> (is_initialized s \<and> \<not> inside_unstickymem s)" by (simp add: bypassed_def)
  with all_bypassed [OF True assms(2,3,1)] show ?thesis by (simp only: if_False)
next
  case False
  from all_handled [OF False assms(2,3,1)] False show ?thesis by (auto simp: bypassed_def)
qed

lemma interposed_calls_reach_handlers_witness:
  "only_calls (demo_start False) (fst (interposed_all demo_linker demo_libc no_hooks [R_malloc 64] (demo_start False)))"
proof -
  let ?run = "interposed_all demo_linker demo_libc no_hooks [R_malloc 64] (demo_start False)"
  have "snd ?run = Inr [0x700000]" by code_simp
  then have "?run = (fst ?run, Inr [0x700000])" by (simp add: prod_eq_iff)
  from interposed_calls_reach_handlers [OF this] show ?thesis
    by (simp add: demo_start_def demo_linker_def del: interposed_all.simps)
qed

lemma calloc_before_init:
  assumes "\<not> is_initialized s" "\<not> inside_dlsym s" "dlsym_callocs l ''calloc'' = [x]" "symbol_found l ''calloc''"
  shows "calloc l e h k n s =
    (if calloc_buffer_in_use s
     then (s\<lparr>inside_dlsym := True\<rparr>, Inl (Aborted ''calling dlsym requires more buffers''))
     else (s\<lparr>calloc_buffer_in_use := True,
             memory := (memory s)\<lparr>mem_calls := mem_calls (memory s) @ [C_calloc k n]\<rparr>\<rparr>,
           Inr (ret_addr e (mem_calls (memory s)) (C_calloc k n))))"
  using assms
  by (cases x) (simp add: calloc_def bypassed_def look_up_def calloc_in_dlsym_def set_inside_dlsym_def on_memory_def
      call_addr_def step_simps then_step_def)

lemma malloc_before_init:
  assumes "\<not> is_initialized s" "\<not> inside_dlsym s"
    and "\<forall>name. length (dlsym_callocs l name) = 1 \<and> symbol_found l name"
  shows "if calloc_buffer_in_use s
    then snd (malloc l e h n s) = Inl (Aborted ''calling dlsym requires more buffers'')
    else \<exists>s' p. malloc l e h n s = (s', Inr p) \<and> calloc_buffer_in_use s' \<and> \<not> is_initialized s' \<and> \<not> inside_dlsym s'"
proof -
  have one: "\<exists>a b. xs = [(a, b)]" if "length xs = 1" for xs :: "(u64 \<times> u64) list"
    using that by (cases xs) auto
  obtain x y where x: "dlsym_callocs l ''calloc'' = [(x, y)]" using one assms(3) by blast
  obtain k j where kj: "dlsym_callocs l ''malloc'' = [(k, j)]" using one assms(3) by blast
  from assms(3) have f: "symbol_found l ''calloc''" "symbol_found l ''malloc''" by simp_all
  note c = calloc_before_init [OF assms(1,2) x f(1)]
  show ?thesis
    using assms(1,2) f(2)
    by (simp add: malloc_def bypassed_def bypass_def look_up_def kj then_step_def c step_simps on_memory_def call_addr_def)
qed

text \<open>
  C39: the buffer serves one look-up. If every look-up allocates once, a call before the
  initialisation puts the buffer in use; a second call aborts, unless the buffer has been
  given back to \<open>free\<close>.
\<close>

theorem one_look_up_per_buffer:
  assumes "\<not> is_initialized s" and "\<not> inside_dlsym s"
    and "\<forall>name. length (dlsym_callocs l name) = 1 \<and> symbol_found l name"
  shows "if calloc_buffer_in_use s
    then snd (malloc l e h n s) = Inl (Aborted ''calling dlsym requires more buffers'')
    else (\<exists>s' p. malloc l e h n s = (s', Inr p) \<and> calloc_buffer_in_use s' \<and>
      snd (malloc l e h k s') = Inl (Aborted ''calling dlsym requires more buffers'') \<and>
      (\<exists>s2 s3 q. free_block l e h (buffer_address l) s' = (s2, Inr ()) \<and> malloc l e h k s2 = (s3, Inr q)))"
proof -
  note once = malloc_before_init [OF _ _ assms(3), of _ e h]
  show ?thesis
  proof (cases "calloc_buffer_in_use s")
    case True
    with once [OF assms(1,2), of n] show ?thesis by simp
  next
    case False
    with once [OF assms(1,2), of n] obtain s' p where s': "malloc l e h n s = (s', Inr p)"
      "calloc_buffer_in_use s'" "\<not> is_initialized s'" "\<not> inside_dlsym s'" by auto
    define s2 where "s2 = s'\<lparr>calloc_buffer_in_use := False\<rparr>"
    have "free_block l e h (buffer_address l) s' = (s2, Inr ())" by (simp add: free_block_def s2_def)
    moreover have "\<exists>s3 q. malloc l e h k s2 = (s3, Inr q)" using s' once [of s2 k] by (auto simp: s2_def)
    moreover have "snd (malloc l e h k s') = Inl (Aborted ''calling dlsym requires more buffers'')"
      using s' once [of s' k] by simp
    ultimately show ?thesis using False s'(1,2) by auto
  qed
qed

lemma one_look_up_per_buffer_witness:
  "\<exists>s' p. malloc demo_linker demo_libc no_hooks 64 (demo_start False) = (s', Inr p) \<and> calloc_buffer_in_use s' \<and>
     snd (malloc demo_linker demo_libc no_hooks 64 s') = Inl (Aborted ''calling dlsym requires more buffers'')"
  using one_look_up_per_buffer [of "demo_start False" demo_linker demo_libc no_hooks 64 64]
  by (auto simp: demo_start_def demo_linker_def)

end
