(* ===== verification/Page_Moves.thy ===== *)
theory Page_Moves
  imports Placement_Tiling
begin

text \<open>
  The placement functions of src/unstickymem/PagePlacement.cpp that work through
  \<open>move_pages\<close>: \<open>move_pages_remote\<close>, which the tuning modes use for every segment, and
  \<open>move_pages_initial\<close>. Both fill one array of page addresses and one of target nodes and
  make a single call. The products \<open>i * pagesize\<close> are \<open>int\<close> products: an overflow is
  undefined behaviour.
\<close>

section \<open>Arrays of pages\<close>

definition in_int32 :: "int \<Rightarrow> bool" where
  "in_int32 n \<longleftrightarrow> - (2 ^ 31) \<le> n \<and> n < 2 ^ 31"

text \<open>\<open>int page_count = len / pagesize\<close>: an \<open>unsigned long\<close> quotient narrowed to \<open>int\<close>.\<close>

definition page_count_of :: "'b platform \<Rightarrow> u64 \<Rightarrow> int" where
  "page_count_of P len = sint (ucast (len div scast (numa_page_size P)) :: int32)"

definition page_address :: "'b platform \<Rightarrow> addr \<Rightarrow> int \<Rightarrow> addr result" where
  "page_address P start i =
     (let off = i * sint (numa_page_size P)
      in if in_int32 off then Inr (start + of_int off)
         else Inl (Undefined ''i * pagesize overflows''))"

text \<open>\<open>addr[i] = pages + i * pagesize\<close> for the \<open>k\<close> indices from \<open>i\<close> on.\<close>

fun page_addresses :: "'b platform \<Rightarrow> addr \<Rightarrow> int \<Rightarrow> nat \<Rightarrow> addr list result" where
  "page_addresses P start i 0 = Inr []"
| "page_addresses P start i (Suc k) =
     bind_result (page_address P start i) (\<lambda>a.
     bind_result (page_addresses P start (i + 1) k) (\<lambda>as. Inr (a # as)))"

text \<open>
  The three arrays: the allocations are of \<open>8 * page_count\<close> bytes each; a null start or a
  failed allocation exits with status 1. A negative count is never a valid array size.
\<close>

definition allocate_arrays :: "'b platform \<Rightarrow> addr \<Rightarrow> int \<Rightarrow> unit result" where
  "allocate_arrays P start n =
     (if start = 0 \<or> \<not> malloc_ok P (of_int (8 * n)) then Inl (Exited 1)
      else if n < 0 then Inl (Undefined ''negative array size'') else Inr ())"

definition move_pages_or_exit :: "'b platform \<Rightarrow> addr list \<Rightarrow> int list \<Rightarrow> ('b, unit) step" where
  "move_pages_or_exit P as ns =
     then_step (do_syscall P (Move_pages as ns)) (\<lambda>(rc, err).
       if rc < 0 \<and> err \<noteq> ENOENT then fail_step (Exited 1) else done_step ())"

section \<open>\<open>move_pages_remote\<close>\<close>

definition local_node_of :: "int \<Rightarrow> int" where
  "local_node_of workers = (if workers = 2 then 0 else 0)"

definition remote_node_of :: "int \<Rightarrow> int" where
  "remote_node_of workers = (if workers = 2 then 0 else 0)"

text \<open>\<open>(ratio / 100 * (double) page_count) * MAX_NODES\<close>\<close>

definition interleaved_pages :: "fp \<Rightarrow> int \<Rightarrow> fp" where
  "interleaved_pages ratio n =
     fp_mul binary64
       (fp_mul binary64 (fp_div binary64 ratio (fp_of_int binary64 100)) (fp_of_int binary64 n))
       (fp_of_int binary64 (int MAX_NODES))"

text \<open>The node of page \<open>i\<close>: alternating over the first part, then \<open>rest_node\<close>.\<close>

definition remote_target :: "int \<Rightarrow> int \<Rightarrow> fp \<Rightarrow> int \<Rightarrow> int \<Rightarrow> int" where
  "remote_target local_node remote_node ip rest_node i =
     (if fp_less (fp_of_int binary64 i) ip
      then if i mod 2 = 0 then local_node else remote_node
      else rest_node)"

definition move_pages_remote :: "'b platform \<Rightarrow> addr \<Rightarrow> u64 \<Rightarrow> fp \<Rightarrow> ('b, unit) step" where
  "move_pages_remote P start len ratio g =
     (let n = page_count_of P len;
          l = local_node_of (num_workers g);
          r = remote_node_of (num_workers g);
          target =
            (if fp_le ratio (Fin 50) then remote_target l r (interleaved_pages ratio n) l
             else remote_target l r
               (interleaved_pages (fp_sub binary64 (fp_of_int binary64 100) ratio) n) r)
      in then_step (lift_result (allocate_arrays P start n)) (\<lambda>_.
         then_step (lift_result (page_addresses P start 0 (nat n))) (\<lambda>as.
         move_pages_or_exit P as (map (\<lambda>i. target (int i)) [0 ..< nat n]))) g)"

text \<open>\<open>place_pages\<close> on a segment, and \<open>place_all_pages\<close>, which also clears \<open>weight_initialized\<close>.\<close>

definition place_pages_segment :: "'b platform \<Rightarrow> memory_segment \<Rightarrow> fp \<Rightarrow> ('b, unit) step" where
  "place_pages_segment P s ratio =
     move_pages_remote P (page_aligned_start (sys_page_size P) s)
       (page_aligned_length (sys_page_size P) s) ratio"

fun place_segments :: "'b platform \<Rightarrow> memory_segment list \<Rightarrow> fp \<Rightarrow> ('b, unit) step" where
  "place_segments P [] ratio = done_step ()"
| "place_segments P (s # ss) ratio =
     then_step
       (if 2 ^ 20 < segment_length s then place_pages_segment P s ratio else done_step ())
       (\<lambda>_. place_segments P ss ratio)"

definition place_all_pages :: "'b platform \<Rightarrow> memory_segment list \<Rightarrow> fp \<Rightarrow> ('b, unit) step" where
  "place_all_pages P ss ratio =
     then_step (place_segments P ss ratio) (\<lambda>_ g. (g\<lparr>weight_initialized := False\<rparr>, Inr ()))"

section \<open>\<open>move_pages_initial\<close>\<close>

text \<open>\<open>for (j = i_k; j < upper_bound; j++) nodes[j] = node_ids.at(j % a)\<close>\<close>

fun assign_nodes :: "int list \<Rightarrow> int list \<Rightarrow> int \<Rightarrow> nat \<Rightarrow> int list result" where
  "assign_nodes ids nodes j 0 = Inr nodes"
| "assign_nodes ids nodes j (Suc k) =
     (if j < 0 then
        Inl (if j mod int (length ids) = 0 then Undefined ''nodes out of bounds''
             else Aborted ''std::out_of_range'')
      else if int (length nodes) \<le> j then Inl (Undefined ''nodes out of bounds'')
      else assign_nodes ids (nodes[nat j := ids ! (nat j mod length ids)]) (j + 1) k)"

text \<open>
  One turn per node record; \<open>node_ids\<close> holds as many ids as there are records left, so its
  length is the source's \<open>a\<close>, and \<open>j % a\<close> is in range for \<open>j \<ge> 0\<close>.
\<close>

fun initial_loop :: "int \<Rightarrow> node_record list \<Rightarrow> int list \<Rightarrow> fp \<Rightarrow> int \<Rightarrow> int list \<Rightarrow> int list result" where
  "initial_loop n [] ids w i_k nodes = Inr nodes"
| "initial_loop n (x # xs) ids w i_k nodes =
     (let b = fp_sub binary64 (fp_convert binary64 (node_weight x)) w;
          i_p0 = fp_mul binary64
            (fp_mul binary64 (fp_of_int binary64 (int (length (x # xs))))
              (fp_div binary64 b (fp_of_int binary64 100)))
            (fp_of_int binary64 n);
          r_pages = n - i_k
      in if \<not> in_int32 r_pages then Inl (Undefined ''r_pages overflows'')
      else
        let i_p = (if fp_less (fp_of_int binary64 r_pages) i_p0 then fp_of_int binary64 r_pages else i_p0)
        in if i_k = n then Inr nodes
        else
          bind_result
            (if \<not> fp_eq i_p (Fin 0)
             then bind_result (fp_to_int32 (fp_add binary64 (fp_of_int binary64 i_k) i_p)) (\<lambda>ub.
                    assign_nodes ids nodes i_k (nat (ub - i_k)))
             else Inr nodes) (\<lambda>nodes'.
          bind_result (fp_to_int32 (fp_add binary64 (fp_of_int binary64 i_k) i_p)) (\<lambda>i_k'.
          initial_loop n xs (tl ids) (fp_convert binary64 (node_weight x)) i_k' nodes')))"

definition move_pages_initial :: "'b platform \<Rightarrow> addr \<Rightarrow> u64 \<Rightarrow> ('b, unit) step" where
  "move_pages_initial P start len g =
     (let n = page_count_of P len
      in then_step (lift_result (allocate_arrays P start n)) (\<lambda>_.
         then_step (lift_result (page_addresses P start 0 (nat n))) (\<lambda>as.
         then_step (lift_result (initial_loop n (nodes_info g) (map node_id (nodes_info g)) (Fin 0) 0
             (replicate (nat n) 0))) (\<lambda>nodes.
         move_pages_or_exit P as nodes))) g)"

section \<open>Page addresses\<close>

lemma page_addresses_ok:
  assumes "0 \<le> i" "0 < sint (numa_page_size P)"
    and "\<forall>j. i \<le> j \<and> j < i + int k \<longrightarrow> j * sint (numa_page_size P) < 2 ^ 31"
  shows "page_addresses P start i k =
    Inr (map (\<lambda>j. start + of_int ((i + int j) * sint (numa_page_size P))) [0 ..< k])"
  using assms
proof (induction k arbitrary: i)
  case (Suc k)
  let ?p = "sint (numa_page_size P)"
  have "0 \<le> i * ?p" using Suc.prems by simp
  moreover have "i * ?p < 2 ^ 31" using Suc.prems(3) by auto
  ultimately have "page_address P start i = Inr (start + of_int (i * ?p))"
    by (simp add: page_address_def Let_def in_int32_def)
  moreover have "page_addresses P start (i + 1) k =
      Inr (map (\<lambda>j. start + of_int ((i + 1 + int j) * ?p)) [0 ..< k])"
    using Suc.prems by (intro Suc.IH) auto
  moreover have "i + 1 + int j = i + int (Suc j)" for j by simp
  ultimately show ?case
    by (simp only: page_addresses.simps bind_result_simps map_upt_Suc) simp
qed simp

text \<open>The index at which the product leaves \<open>int\<close> makes the whole loop undefined.\<close>

lemma page_addresses_overflow:
  assumes "i \<le> j" "j < i + int k" "2 ^ 31 \<le> j * sint (numa_page_size P)" "0 \<le> i" "0 < sint (numa_page_size P)"
  shows "page_addresses P start i k = Inl (Undefined ''i * pagesize overflows'')"
  using assms
proof (induction k arbitrary: i)
  case (Suc k)
  show ?case
  proof (cases "in_int32 (i * sint (numa_page_size P))")
    case True
    then have "i \<noteq> j" using Suc.prems(3) by (auto simp: in_int32_def)
    then have "page_addresses P start (i + 1) k = Inl (Undefined ''i * pagesize overflows'')"
      using Suc.prems by (intro Suc.IH) auto
    with True show ?thesis by (simp add: page_address_def Let_def)
  qed (simp add: page_address_def Let_def)
qed simp

lemma page_addresses_length:
  "page_addresses P start i k = Inr as \<Longrightarrow> length as = k"
  by (induction k arbitrary: i as) (auto simp: bind_result_Inr_iff)

section \<open>What a run asks for\<close>

text \<open>
  The contract shared by both functions: at most one call, on the pages of the region in
  ascending order, each with one node.
\<close>

definition one_move :: "'b platform \<Rightarrow> addr \<Rightarrow> u64 \<Rightarrow> 'b world \<Rightarrow> 'b world \<Rightarrow> int list \<Rightarrow> bool" where
  "one_move P start len g g' nodes \<longleftrightarrow>
     length nodes = nat (page_count_of P len) \<and>
     g' = g\<lparr>syscalls := syscalls g @
       [Move_pages (map (\<lambda>i. start + of_int (int i * sint (numa_page_size P)))
          [0 ..< nat (page_count_of P len)]) nodes]\<rparr>"

definition move_result :: "'b platform \<Rightarrow> 'b world \<Rightarrow> 'b syscall \<Rightarrow> unit result" where
  "move_result P g c =
     (let (rc, err) = kernel P (syscalls g) c
      in if rc < 0 \<and> err \<noteq> ENOENT then Inl (Exited 1) else Inr ())"

lemma move_pages_or_exit_eq:
  "move_pages_or_exit P as ns g =
     (g\<lparr>syscalls := syscalls g @ [Move_pages as ns]\<rparr>, move_result P g (Move_pages as ns))"
  by (simp add: move_pages_or_exit_def then_step_def do_syscall_def fail_step_def done_step_def
      move_result_def split: prod.splits)

text \<open>
  The regions for which the index arithmetic stays in \<open>int\<close>: fewer than \<open>2 ^ 31\<close> pages,
  and the offset of the last page below \<open>2 ^ 31\<close>, that is, a length of at most 2 GiB.
\<close>

lemma page_count_of_eq:
  assumes "page_size_ok (numa_page_size P)" "unat len < 2 ^ 31 * page_bytes (numa_page_size P)"
  shows "page_count_of P len = int (unat len div page_bytes (numa_page_size P))"
proof -
  let ?q = "unat len div page_bytes (numa_page_size P)"
  have "unat (len div scast (numa_page_size P)) = ?q"
    by (simp add: unat_div sint_page_size(2) [OF assms(1)])
  then have d: "uint (len div scast (numa_page_size P)) = int ?q" by (metis uint_nat)
  have "?q < 2 ^ 31" using assms(2) by (simp add: less_mult_imp_div_less)
  then have q: "int ?q < 2 ^ 31" by simp
  have "uint (ucast (len div scast (numa_page_size P)) :: int32) = int ?q"
    using q by (simp add: unsigned_ucast_eq d take_bit_int_eq_self)
  then show ?thesis
    using q order_trans [OF _ of_nat_0_le_iff [of ?q], of "- 2147483648"]
    by (simp add: page_count_of_def sint_uint signed_take_bit_int_eq_self_iff)
qed

lemma page_addresses_Inr:
  "page_addresses P start i k = Inr as \<Longrightarrow>
     as = map (\<lambda>j. start + of_int ((i + int j) * sint (numa_page_size P))) [0 ..< k]"
proof (induction k arbitrary: i as)
  case (Suc k)
  then obtain bs where as: "as = (start + of_int (i * sint (numa_page_size P))) # bs"
    "page_addresses P start (i + 1) k = Inr bs"
    by (auto simp: bind_result_Inr_iff page_address_def Let_def split: if_splits)
  have shift: "i + 1 + int j = i + int (Suc j)" for j by simp
  show ?case unfolding as(1) Suc.IH [OF as(2)] shift by (simp only: map_upt_Suc) simp
qed simp

text \<open>All addresses of a region: defined exactly up to a length of 2 GiB.\<close>

lemma page_addresses_region:
  assumes psz: "page_size_ok (numa_page_size P)"
  shows "page_addresses P start 0 n =
    (if n * page_bytes (numa_page_size P) \<le> 2 ^ 31
     then Inr (map (\<lambda>j. start + of_int (int j * sint (numa_page_size P))) [0 ..< n])
     else Inl (Undefined ''i * pagesize overflows''))"
proof -
  let ?p = "page_bytes (numa_page_size P)"
  obtain k where k: "k < 31" "numa_page_size P = 2 ^ k" using psz by (auto simp: page_size_ok_def)
  then have p: "?p = 2 ^ k" by (simp add: unat_pow2_int32)
  have split: "2 ^ 31 = 2 ^ (31 - k) * ?p" using k(1) by (simp add: p flip: power_add)
  have s: "sint (numa_page_size P) = int ?p" "0 < ?p"
    using sint_page_size(1) [OF psz] page_bytes_pos [OF psz] by auto
  have s0: "0 < sint (numa_page_size P)" unfolding s using s(2) by (simp only: of_nat_0_less_iff)
  show ?thesis
  proof (cases "n * ?p \<le> 2 ^ 31")
    case True
    have "int j * int ?p < 2 ^ 31" if "j < n" for j
    proof -
      have "j * ?p < n * ?p" using that s(2) by simp
      with True have "j * ?p < 2 ^ 31" by linarith
      then have "int (j * ?p) < int (2 ^ 31)" by (simp only: of_nat_less_iff)
      then show ?thesis by simp
    qed
    then have "\<forall>j. 0 \<le> j \<and> j < 0 + int n \<longrightarrow> j * sint (numa_page_size P) < 2 ^ 31"
      unfolding s by (metis add_0 of_nat_less_iff zero_le_imp_eq_int)
    from page_addresses_ok [OF order_refl s0 this] True show ?thesis by simp
  next
    case False
    then have "2 ^ (31 - k) < n" unfolding split using s(2) by simp
    then have "int (2 ^ (31 - k)) < int n" by (simp only: of_nat_less_iff)
    moreover have "2 ^ 31 \<le> int (2 ^ (31 - k)) * sint (numa_page_size P)"
      unfolding s using split by (metis of_nat_mult of_nat_numeral of_nat_power order_refl)
    ultimately have "page_addresses P start 0 n = Inl (Undefined ''i * pagesize overflows'')"
      using s0 by (intro page_addresses_overflow [of 0 "int (2 ^ (31 - k))"]) simp_all
    with False show ?thesis by simp
  qed
qed

section \<open>The weighted distribution of \<open>move_pages_initial\<close>\<close>

lemma pow2_7: "pow2 7 = 128"
  by (simp add: pow2_def)

lemma percentage_double:
  assumes "percentage a"
  shows "fp_convert binary64 (Fin a) = Fin a"
proof -
  have "\<bar>a\<bar> \<le> pow2 7" using assms by (simp add: percentage_def pow2_7)
  moreover have "pow2 7 < pow2 (overflow_exponent binary64)" by (simp add: binary64_def)
  ultimately have "\<bar>a\<bar> < pow2 (overflow_exponent binary64)" by (rule order_le_less_trans)
  moreover have "representable binary64 a"
    using assms by (intro representable32_in_64) (simp add: percentage_def)
  moreover have "0 < precision binary64" by (simp add: binary64_def)
  ultimately show ?thesis by (simp only: fp_convert.simps fp_of_rat_representable)
qed

lemma int32_double:
  assumes "\<bar>n\<bar> < 2 ^ 31"
  shows "fp_of_int binary64 n = Fin (of_int n)" and "round_rat binary64 (of_int n) = of_int n"
proof -
  have rep: "representable binary64 (of_int n)"
    using assms by (intro representable_of_int) (simp_all add: binary64_def)
  have "\<bar>of_int n :: rat\<bar> = of_int \<bar>n\<bar>" by simp
  also have "\<dots> \<le> of_int (2 ^ 31)" using assms by (simp only: of_int_le_iff)
  also have "\<dots> = pow2 31" using pow2_of_nat [of 31] by simp
  also have "\<dots> < pow2 1024" by simp
  finally have "\<bar>of_int n :: rat\<bar> < pow2 (overflow_exponent binary64)" by (simp add: binary64_def)
  with rep show "fp_of_int binary64 n = Fin (of_int n)"
    by (simp add: fp_of_int_def fp_of_rat_representable binary64_def)
  show "round_rat binary64 (of_int n) = of_int n"
    using rep by (intro round_rat_representable) (simp_all add: binary64_def)
qed

text \<open>The number of pages computed for one turn, with at most half a page of rounding error.\<close>

lemma initial_amount:
  assumes w: "percentage w'" "percentage w" "w' \<le> w" and c: "c = 1 \<or> c = 2"
    and n: "0 \<le> n" "n < 2 ^ 31"
  obtains x where
    "fp_mul binary64 (fp_mul binary64 (fp_of_int binary64 c)
       (fp_div binary64 (fp_sub binary64 (Fin w) (Fin w')) (fp_of_int binary64 100)))
       (fp_of_int binary64 n) = Fin x"
    "0 \<le> x" "\<bar>x - of_int c * ((w - w') / 100) * of_int n\<bar> \<le> 1 / 2"
proof -
  let ?R = "round_rat binary64" and ?d = "w - w'"
  have d: "0 \<le> ?d" "?d \<le> 100" using w by (auto simp: percentage_def)
  have d7: "\<bar>?d\<bar> \<le> pow2 7" unfolding pow2_7 using d by simp
  have sub: "fp_sub binary64 (Fin w) (Fin w') = Fin (?R ?d)" and rd: "\<bar>?R ?d\<bar> \<le> pow2 7"
    using fp_of_rat_bounded [of ?d 7 binary64] d7 by (simp_all add: fp_sub_def binary64_def)
  have d0: "?d = 0 \<or> pow2 (-149) \<le> ?d"
    using w representable32_granularity [of w' w] by (cases "w' = w") (simp_all add: percentage_def)
  have t: "pow2 (-1022) \<le> pow2 (-149)" "pow2 (-149) = 128 * pow2 (-156)"
    by (simp_all add: pow2_7 [symmetric] flip: pow2_add)
  have wd: "within_roundings (unit_roundoff binary64) 1 (?R ?d) ?d"
    using d d0 t by (intro b64.rnd_within) auto
  have rd0: "0 \<le> ?R ?d" by (rule b64.rnd_nonneg [OF d(1)])
  have fix149: "?R (pow2 (-149)) = pow2 (-149)" "?R (pow2 (-156)) = pow2 (-156)"
    by (rule round_rat_pow2; simp add: binary64_def)+
  have lo: "?R ?d = 0 \<or> 100 * pow2 (-156) \<le> ?R ?d"
  proof (cases "?d = 0")
    case False
    with d0 b64.rnd_ge_fixed [OF _ fix149(1), of ?d] have "128 * pow2 (-156) \<le> ?R ?d"
      by (simp add: t(2))
    moreover have "100 * pow2 (-156) \<le> 128 * pow2 (-156)" by simp
    ultimately show ?thesis by linarith
  qed (simp add: b64.rnd_zero)
  have nn: "fp_of_int binary64 n = Fin (of_int n)" using n by (intro int32_double) simp
  have "(of_int n :: rat) \<le> of_int (2 ^ 31)" using n(2) by (simp only: of_int_le_iff)
  also have "\<dots> = pow2 31" using pow2_of_nat [of 31] by simp
  also have "\<dots> \<le> pow2 47" by simp
  finally have n47: "0 \<le> (of_int n :: rat)" "(of_int n :: rat) \<le> pow2 47" using n(1) by auto
  define x where "x = ?R (?R (of_int c * ?R (?R ?d / 100)) * of_int n)"
  have eq: "fp_mul binary64 (fp_mul binary64 (fp_of_int binary64 c)
       (fp_div binary64 (fp_sub binary64 (Fin w) (Fin w')) (fp_of_int binary64 100)))
       (fp_of_int binary64 n) = Fin x"
    unfolding sub nn x_def using rd rd0 n47 c by (intro fp_share) auto
  have n1: "(of_int n :: rat) = 0 \<or> 1 \<le> (of_int n :: rat)" using n(1) by (cases "n = 0") auto
  have within: "within_roundings (unit_roundoff binary64) (1 + 0 + 3) x (of_int c * (?d / 100) * of_int n)"
    unfolding x_def using c fix149(2) n1 n47(1)
    by (intro b64.share_within [OF _ _ fix149(2)] wd d lo b64.within_exact) auto
  have pos: "0 \<le> of_int c * (?d / 100) * (of_int n :: rat)" using d n47 c by auto
  have "of_int c * (?d / 100) * (of_int n :: rat) \<le> 2 * 1 * 2 ^ 31"
    using d c n47(1) \<open>(of_int n :: rat) \<le> of_int (2 ^ 31)\<close> by (intro mult_mono) auto
  then have "((1 + unit_roundoff binary64) ^ (1 + 0 + 3) - 1) * (of_int c * (?d / 100) * of_int n) \<le>
      ((1 + unit_roundoff binary64) ^ (1 + 0 + 3) - 1) * (2 * 1 * 2 ^ 31)"
    by (intro mult_left_mono) (simp_all add: unit_roundoff_def)
  also have "\<dots> \<le> 1 / 2"
    by (simp add: unit_roundoff_def binary64_def pow2_def power_int_def field_simps)
  finally have small: "((1 + unit_roundoff binary64) ^ (1 + 0 + 3) - 1) *
      (of_int c * (?d / 100) * of_int n) \<le> 1 / 2" .
  show thesis
    by (rule that [OF eq b64.within_nonneg [OF within pos]
          order_trans [OF b64.within_error [OF within pos] small]])
qed

text \<open>The inner loop writes the ids of the nodes left, in turn, over one stretch of the array.\<close>

lemma assign_nodes_eq:
  assumes "0 \<le> j" "j + int k \<le> int (length nodes)"
  shows "assign_nodes ids nodes j k =
    Inr (map (\<lambda>i. if nat j \<le> i \<and> i < nat j + k then ids ! (i mod length ids) else nodes ! i)
      [0 ..< length nodes])"
  using assms
proof (induction k arbitrary: j nodes)
  case 0
  then show ?case by (auto intro: nth_equalityI simp: map_nth)
next
  case (Suc k)
  let ?nodes = "nodes[nat j := ids ! (nat j mod length ids)]"
  have "assign_nodes ids nodes j (Suc k) = assign_nodes ids ?nodes (j + 1) k"
    using Suc.prems by simp
  also have "\<dots> = Inr (map (\<lambda>i. if nat (j + 1) \<le> i \<and> i < nat (j + 1) + k
      then ids ! (i mod length ids) else ?nodes ! i) [0 ..< length ?nodes])"
    using Suc.prems by (intro Suc.IH) auto
  also have "\<dots> = Inr (map (\<lambda>i. if nat j \<le> i \<and> i < nat j + Suc k
      then ids ! (i mod length ids) else nodes ! i) [0 ..< length nodes])"
    using Suc.prems by (auto simp: nth_list_update nat_add_distrib)
  finally show ?case .
qed

text \<open>
  The upper bound of a stretch: the double sum of the index and the amount, truncated, is within one
  of the exact sum and stays between the index and the number of pages.
\<close>

lemma stretch_bound:
  assumes i: "0 \<le> i_k" "i_k \<le> n" "n < 2 ^ 31" and p: "0 \<le> p" "of_int i_k + p \<le> (of_int n :: rat)"
  defines "u \<equiv> \<lfloor>round_rat binary64 (of_int i_k + p)\<rfloor>"
  shows "i_k \<le> u" "u \<le> n" "\<bar>of_int u - (of_int i_k + p)\<bar> \<le> 1"
    "fp_to_int32 (fp_add binary64 (Fin (of_int i_k)) (Fin p)) = Inr u" "p = 0 \<longrightarrow> u = i_k"
proof -
  define z where "z = of_int i_k + p"
  have zb: "of_int i_k \<le> z" "z \<le> of_int n" using p by (simp_all add: z_def)
  then have fc: "i_k \<le> \<lfloor>z\<rfloor>" "\<lfloor>z\<rfloor> \<le> \<lceil>z\<rceil>" "\<lceil>z\<rceil> \<le> n"
    by (simp_all only: le_floor_iff ceiling_le_iff floor_le_ceiling)
  then have "\<bar>\<lfloor>z\<rfloor>\<bar> < 2 ^ 31" "\<bar>\<lceil>z\<rceil>\<bar> < 2 ^ 31" using i by linarith+
  note fz = this [THEN int32_double(2)]
  have fl: "of_int \<lfloor>z\<rfloor> \<le> round_rat binary64 z" by (rule b64.rnd_ge_fixed [OF _ fz(1)]) simp
  have ce: "round_rat binary64 z \<le> of_int \<lceil>z\<rceil>" by (rule b64.rnd_le_fixed [OF _ fz(2)]) simp
  have fu: "\<lfloor>z\<rfloor> \<le> u" using fl by (simp add: u_def z_def le_floor_iff)
  have cu: "u \<le> \<lceil>z\<rceil>" using floor_mono [OF ce] by (simp add: u_def z_def)
  show iu: "i_k \<le> u" and un: "u \<le> n" using fc fu cu by linarith+
  have "(of_int \<lfloor>z\<rfloor> :: rat) \<le> of_int u" "(of_int u :: rat) \<le> of_int \<lceil>z\<rceil>"
    using fu cu by (simp_all only: of_int_le_iff)
  then show "\<bar>of_int u - (of_int i_k + p)\<bar> \<le> 1"
    unfolding z_def [symmetric] using floor_correct [of z] ceiling_correct [of z] by linarith
  have "(of_int n :: rat) \<le> of_int (2 ^ 31)" using i(3) by (simp only: of_int_le_iff)
  also have "\<dots> = pow2 31" using pow2_of_nat [of 31] by simp
  finally have z31: "\<bar>of_int i_k + p\<bar> \<le> pow2 31" using p i(1) by simp
  have "(0 :: rat) \<le> of_int \<lfloor>z\<rfloor>" using fc(1) i(1) by (simp only: of_int_0_le_iff)
  then have "truncate_rat (round_rat binary64 z) = u" using fl by (simp add: truncate_rat_def u_def z_def)
  then show "fp_to_int32 (fp_add binary64 (Fin (of_int i_k)) (Fin p)) = Inr u"
    using fp_of_rat_bounded(1) [OF z31, of binary64] iu un i by (simp add: binary64_def z_def Let_def)
  have "round_rat binary64 (of_int i_k) = of_int i_k" using i by (intro int32_double) simp
  then show "p = 0 \<longrightarrow> u = i_k" by (simp add: u_def)
qed

text \<open>The body of a turn once the amount \<open>p\<close> is known: the stretch up to \<open>u\<close> is written.\<close>

lemma stretch_written:
  assumes conv: "fp_to_int32 (fp_add binary64 (Fin (of_int i_k)) (Fin p)) = Inr u"
    and zero: "p = 0 \<longrightarrow> u = i_k" and i: "0 \<le> i_k" "i_k \<le> u" "u \<le> int (length nodes)"
  shows "bind_result (if \<not> fp_eq (Fin p) (Fin 0)
      then bind_result (fp_to_int32 (fp_add binary64 (Fin (of_int i_k)) (Fin p))) (\<lambda>ub.
             assign_nodes ids nodes i_k (nat (ub - i_k)))
      else Inr nodes) k =
    k (map (\<lambda>i. if nat i_k \<le> i \<and> i < nat u then ids ! (i mod length ids) else nodes ! i)
        [0 ..< length nodes])"
proof (cases "p = 0")
  case True
  have "(nat i_k \<le> i \<and> i < nat i_k) = False" for i by auto
  then show ?thesis using True zero by (simp only:) (simp add: fp_eq_def map_nth)
next
  case False
  have "nat i_k + nat (u - i_k) = nat u" using i by simp
  with False conv show ?thesis
    using assign_nodes_eq [of i_k "nat (u - i_k)" nodes ids] i by (simp add: fp_eq_def)
qed

text \<open>
  One turn of the outer loop, from an index \<open>i_k\<close> inside the array: the amount is clamped to
  the pages left, the sum is truncated, and the stretch up to it is written.
\<close>

lemma initial_loop_turn:
  assumes w: "percentage w'" "percentage (weight)" "w' \<le> weight" "node_weight x = Fin weight"
    and n: "int (length nodes) = n" "n < 2 ^ 31" and i: "0 \<le> i_k" "i_k \<le> n"
    and c: "length xs \<le> 1"
  obtains u where "i_k \<le> u" "u \<le> n"
    "\<bar>of_int (u - i_k) - min (of_int (n - i_k))
        (of_nat (length (x # xs)) * ((weight - w') / 100) * of_int n)\<bar> \<le> (2 :: rat)"
    "initial_loop n (x # xs) ids (Fin w') i_k nodes =
       (if i_k = n then Inr nodes
        else initial_loop n xs (tl ids) (Fin weight) u
          (map (\<lambda>i. if nat i_k \<le> i \<and> i < nat u then ids ! (i mod length ids) else nodes ! i)
            [0 ..< length nodes]))"
proof -
  let ?c = "int (length (x # xs))"
  have c': "?c = 1 \<or> ?c = 2" using c by (cases xs) auto
  have n0: "0 \<le> n" using n(1) by simp
  obtain q where q: "fp_mul binary64 (fp_mul binary64 (fp_of_int binary64 ?c)
       (fp_div binary64 (fp_sub binary64 (Fin weight) (Fin w')) (fp_of_int binary64 100)))
       (fp_of_int binary64 n) = Fin q"
    "0 \<le> q" "\<bar>q - of_int ?c * ((weight - w') / 100) * of_int n\<bar> \<le> 1 / 2"
    by (rule initial_amount [OF w(1-3) c' n0 n(2)])
  define r where "r = n - i_k"
  have r: "0 \<le> r" "r < 2 ^ 31" "in_int32 r" using i n(2) by (auto simp: r_def in_int32_def)
  have fr: "fp_of_int binary64 r = Fin (of_int r)" using r by (intro int32_double) simp
  have fi: "fp_of_int binary64 i_k = Fin (of_int i_k)" using i n(2) by (intro int32_double) simp
  define p where "p = min (of_int r) q"
  have p: "0 \<le> p" "p \<le> of_int r" using q(2) r(1) by (auto simp: p_def)
  have clamp: "(if fp_less (fp_of_int binary64 r) (Fin q) then fp_of_int binary64 r else Fin q) = Fin p"
    by (auto simp: fr p_def min_def)
  have zn: "of_int i_k + p \<le> of_int n" using p(2) by (simp add: r_def)
  define u where "u = \<lfloor>round_rat binary64 (of_int i_k + p)\<rfloor>"
  note bound = stretch_bound [OF i n(2) p(1) zn, folded u_def]
  have "\<bar>of_int (u - i_k) - min (of_int (n - i_k))
      (of_nat (length (x # xs)) * ((weight - w') / 100) * of_int n)\<bar> \<le> (2 :: rat)"
  proof -
    define e where "e = of_nat (length (x # xs)) * ((weight - w') / 100) * (of_int n :: rat)"
    define R where "R = (of_int r :: rat)"
    have "\<bar>q - e\<bar> \<le> 1 / 2" using q(3) by (simp add: e_def)
    then have "\<bar>min R q - min R e\<bar> \<le> 1 / 2" unfolding min_def abs_le_iff by (auto split: if_splits)
    then have "\<bar>p - min R e\<bar> \<le> 1 / 2" by (simp add: p_def R_def)
    moreover have "\<bar>of_int (u - i_k) - p\<bar> \<le> 1" using bound(3) by (simp add: diff_diff_eq)
    ultimately have "\<bar>of_int (u - i_k) - min R e\<bar> \<le> 2" by linarith
    then show ?thesis by (simp only: R_def e_def r_def)
  qed
  moreover have "initial_loop n (x # xs) ids (Fin w') i_k nodes =
       (if i_k = n then Inr nodes
        else initial_loop n xs (tl ids) (Fin weight) u
          (map (\<lambda>i. if nat i_k \<le> i \<and> i < nat u then ids ! (i mod length ids) else nodes ! i)
            [0 ..< length nodes]))"
  proof -
    have conv_w: "fp_convert binary64 (Fin weight) = Fin weight" by (rule percentage_double [OF w(2)])
    have "u \<le> int (length nodes)" using bound(2) n(1) by simp
    note seg = stretch_written [OF bound(4,5) i(1) bound(1) this]
    show ?thesis
      unfolding initial_loop.simps Let_def w(4) conv_w q(1) r_def [symmetric] clamp fi
      unfolding seg unfolding bound(4) using r(3) by simp
  qed
  ultimately show thesis using that [OF bound(1,2)] by blast
qed


text \<open>
  The whole distribution over two nodes: the pages before \<open>u\<close> alternate between the nodes,
  those from \<open>u\<close> to \<open>v\<close> go to the heavier one, the rest keep the initial node 0.
\<close>

definition two_node_pages :: "int \<Rightarrow> int \<Rightarrow> int \<Rightarrow> int \<Rightarrow> nat \<Rightarrow> int list" where
  "two_node_pages light heavy u v n =
     map (\<lambda>i. if int i < u then (if even i then light else heavy) else if int i < v then heavy else 0) [0 ..< n]"

lemma pair_nth_parity: "[p, q] ! (i mod length [p, q]) = (if even i then p else q)"
proof (cases "even i")
  case False
  then have "i mod 2 = 1" by (rule odd_iff_mod_2_eq_one [THEN iffD1])
  with False show ?thesis by (simp flip: numeral_2_eq_2)
qed (simp flip: numeral_2_eq_2)

text \<open>The end of the second stretch: the heavier node takes all but four of the pages the first left.\<close>

lemma second_stretch_end:
  fixes T :: rat
  assumes u: "\<bar>of_int u - T\<bar> \<le> 2"
    and v: "\<bar>of_int (v - u) - min (of_int (int n - u)) (of_nat n - T)\<bar> \<le> 2"
  shows "int n - 4 \<le> v"
proof -
  have "of_int u - 2 \<le> T" "T \<le> of_int u + 2" using u by (simp_all add: abs_le_iff)
  then have "of_int (int n - u) - 2 \<le> min (of_int (int n - u)) (of_nat n - T)" by simp
  with v have "of_int (int n - u) - 4 \<le> (of_int (v - u) :: rat)" unfolding abs_le_iff by linarith
  then have "of_int (int n - 4) \<le> (of_int v :: rat)" by simp
  then show ?thesis by (simp only: of_int_le_iff)
qed

lemma second_share:
  assumes "a + b = (100 :: rat)"
  shows "of_nat (length [y]) * ((b - a) / 100) * of_int (int n) = of_nat n - 2 * a / 100 * of_nat n"
proof -
  have "b - a = 100 - 2 * a" using assms by simp
  then have "(b - a) / 100 = 1 - 2 * a / 100" by (simp add: diff_divide_distrib)
  then show ?thesis by (simp only:) (simp add: left_diff_distrib)
qed

lemma initial_loop_two_nodes:
  assumes "percentage a" "percentage b" "a \<le> b" "a + b = 100"
    and "node_weight x = Fin a" "node_weight y = Fin b" and n: "n < 2 ^ 31"
  obtains u v where "0 \<le> u" "u \<le> v" "v \<le> int n"
    "\<bar>of_int u - 2 * a / 100 * of_nat n\<bar> \<le> (2 :: rat)" "int n - 4 \<le> v"
    "initial_loop (int n) [x, y] [node_id x, node_id y] (Fin 0) 0 (replicate n 0) =
       Inr (two_node_pages (node_id x) (node_id y) u v n)"
proof (cases "n = 0")
  case True
  then show thesis by (intro that [of 0 0]) (simp_all add: two_node_pages_def in_int32_def Let_def)
next
  case n0: False
  have zero: "percentage 0" using representable_of_int [of 0 binary32] by (simp add: percentage_def binary32_def)
  have a: "0 \<le> a" "a \<le> 100" "2 * a \<le> 100" using assms(1,3,4) by (auto simp: percentage_def)
  let ?ids = "[node_id x, node_id y]"
  define N1 where "N1 u = map (\<lambda>i. if nat 0 \<le> i \<and> i < nat u
      then ?ids ! (i mod length ?ids) else replicate n (0 :: int) ! i) [0 ..< length (replicate n (0 :: int))]" for u
  obtain u where u: "0 \<le> u" "u \<le> int n"
    "\<bar>of_int (u - 0) - min (of_int (int n - 0)) (of_nat (length [x, y]) * ((a - 0) / 100) * of_int (int n))\<bar> \<le> (2 :: rat)"
    and turn1: "initial_loop (int n) [x, y] ?ids (Fin 0) 0 (replicate n 0) =
      (if 0 = int n then Inr (replicate n 0) else initial_loop (int n) [y] (tl ?ids) (Fin a) u (N1 u))"
    unfolding N1_def
    by (rule initial_loop_turn [of 0 a x "replicate n 0" "int n" 0 "[y]" ?ids]) (use zero assms a in auto)
  have len1: "length (N1 k) = n" for k by (simp add: N1_def)
  have nth1: "N1 k ! i = (if int i < k then if even i then node_id x else node_id y else 0)"
    if "i < n" "0 \<le> k" for i k
    using that pair_nth_parity [of "node_id x" "node_id y" i] by (auto simp: N1_def zless_nat_eq_int_zless)
  obtain v where v: "u \<le> v" "v \<le> int n"
    "\<bar>of_int (v - u) - min (of_int (int n - u)) (of_nat (length [y]) * ((b - a) / 100) * of_int (int n))\<bar> \<le> (2 :: rat)"
    and turn2: "initial_loop (int n) [y] (tl ?ids) (Fin a) u (N1 u) =
      (if u = int n then Inr (N1 u)
       else initial_loop (int n) [] (tl (tl ?ids)) (Fin b) v
         (map (\<lambda>i. if nat u \<le> i \<and> i < nat v then tl ?ids ! (i mod length (tl ?ids)) else N1 u ! i)
           [0 ..< length (N1 u)]))"
    by (rule initial_loop_turn [of a b y "N1 u" "int n" u "[]" "tl ?ids"])
      (use assms len1 u n in auto)
  have exact1: "of_nat (length [x, y]) * ((a - 0) / 100) * of_int (int n) = 2 * a / 100 * (of_nat n :: rat)"
    by simp
  have le1: "2 * a / 100 * (of_nat n :: rat) \<le> of_nat n"
    using mult_right_mono [of "2 * a / 100" 1 "of_nat n :: rat"] a by simp
  have b1: "\<bar>of_int u - 2 * a / 100 * of_nat n\<bar> \<le> (2 :: rat)"
    using u(3) le1 unfolding exact1 by simp
  show thesis
  proof (cases "u = int n")
    case True
    have "N1 u = two_node_pages (node_id x) (node_id y) u (int n) n"
      using True by (intro nth_equalityI) (auto simp: len1 nth1 two_node_pages_def)
    then have "initial_loop (int n) [x, y] ?ids (Fin 0) 0 (replicate n 0) =
        Inr (two_node_pages (node_id x) (node_id y) u (int n) n)"
      unfolding turn1 turn2 using True n0 by simp
    then show ?thesis by (rule that [OF u(1,2) order_refl b1, rotated]) simp
  next
    case False
    note vn = second_stretch_end [OF b1 v(3) [unfolded second_share [OF assms(4)]]]
    have "map (\<lambda>i. if nat u \<le> i \<and> i < nat v then tl ?ids ! (i mod length (tl ?ids)) else N1 u ! i)
        [0 ..< length (N1 u)] = two_node_pages (node_id x) (node_id y) u v n"
      using u(1) v(1) by (intro nth_equalityI) (auto simp: len1 nth1 two_node_pages_def
          zless_nat_eq_int_zless nat_le_iff not_less)
    then have "initial_loop (int n) [x, y] ?ids (Fin 0) 0 (replicate n 0) =
        Inr (two_node_pages (node_id x) (node_id y) u v n)"
      unfolding turn1 turn2 using False n0 by simp
    then show ?thesis by (rule that [OF u(1) v(1,2) b1 vn])
  qed
qed

section \<open>Runs of \<open>move_pages_remote\<close>\<close>

lemma move_result_eq:
  "move_result P g c =
     (if fst (kernel P (syscalls g) c) < 0 \<and> snd (kernel P (syscalls g) c) \<noteq> ENOENT
      then Inl (Exited 1) else Inr ())"
  by (simp add: move_result_def case_prod_beta)

text \<open>Both nodes are 0, so the choice of the target does not matter.\<close>

lemma remote_target_0:
  "remote_target (local_node_of w) (remote_node_of w) ip (local_node_of w) i = 0"
  "remote_target (local_node_of w) (remote_node_of w) ip (remote_node_of w) i = 0"
  by (simp_all add: remote_target_def local_node_of_def remote_node_of_def)

lemma move_pages_remote_run:
  "allocate_arrays P start (page_count_of P len) = Inl e \<Longrightarrow>
     move_pages_remote P start len ratio g = (g, Inl e)"
  "allocate_arrays P start (page_count_of P len) = Inr () \<Longrightarrow>
     page_addresses P start 0 (nat (page_count_of P len)) = Inl e \<Longrightarrow>
     move_pages_remote P start len ratio g = (g, Inl e)"
  "allocate_arrays P start (page_count_of P len) = Inr () \<Longrightarrow>
     page_addresses P start 0 (nat (page_count_of P len)) = Inr as \<Longrightarrow>
     move_pages_remote P start len ratio g =
       move_pages_or_exit P as (replicate (nat (page_count_of P len)) 0) g"
  by (simp_all add: move_pages_remote_def Let_def step_simps remote_target_0 map_replicate_const)

section \<open>Properties\<close>

text \<open>
  C33: whatever ratio and number of workers, \<open>move_pages_remote\<close> makes at most one call, and
  that call sends every page of the region to node 0: both node variables are 0.
\<close>

theorem move_pages_remote_to_node_0:
  "fst (move_pages_remote P start len ratio g) = g \<or>
   one_move P start len g (fst (move_pages_remote P start len ratio g))
     (replicate (nat (page_count_of P len)) 0)"
proof -
  let ?n = "page_count_of P len"
  consider e where "allocate_arrays P start ?n = Inl e"
    | e where "allocate_arrays P start ?n = Inr ()" "page_addresses P start 0 (nat ?n) = Inl e"
    | as where "allocate_arrays P start ?n = Inr ()" "page_addresses P start 0 (nat ?n) = Inr as"
    by (metis old.sum.exhaust unit.exhaust)
  then show ?thesis
  proof cases
    case (3 as)
    then show ?thesis
      using page_addresses_Inr [OF 3(2)]
      by (simp add: move_pages_remote_run(3) move_pages_or_exit_eq one_move_def)
  qed (simp_all add: move_pages_remote_run)
qed

text \<open>
  C34: on a region of whole \<open>int\<close>-many pages whose arrays can be allocated,
  \<open>move_pages_remote\<close> makes its one call, and exits with status 1 exactly when the kernel
  reports an error other than \<open>ENOENT\<close>, if the region is at most 2 GiB long; for any larger
  region the product \<open>i * pagesize\<close> overflows and the run is undefined before the call.
\<close>

theorem move_pages_remote_bound:
  assumes "page_size_ok (numa_page_size P)" and "unat len < 2 ^ 31 * page_bytes (numa_page_size P)"
    and "start \<noteq> 0" and "malloc_ok P (of_int (8 * page_count_of P len))"
  shows "if page_count_of P len * int (page_bytes (numa_page_size P)) \<le> 2 ^ 31
    then \<exists>c. move_pages_remote P start len ratio g =
        (g\<lparr>syscalls := syscalls g @ [c]\<rparr>,
         if fst (kernel P (syscalls g) c) < 0 \<and> snd (kernel P (syscalls g) c) \<noteq> ENOENT
         then Inl (Exited 1) else Inr ())
    else move_pages_remote P start len ratio g = (g, Inl (Undefined ''i * pagesize overflows''))"
proof -
  let ?n = "page_count_of P len" and ?p = "page_bytes (numa_page_size P)"
  have n: "0 \<le> ?n" by (simp add: page_count_of_eq [OF assms(1,2)])
  have arrays: "allocate_arrays P start ?n = Inr ()"
    using assms(3,4) n by (simp add: allocate_arrays_def)
  have "nat ?n * ?p \<le> 2 ^ 31 \<longleftrightarrow> int (nat ?n * ?p) \<le> int (2 ^ 31)" by (simp only: of_nat_le_iff)
  also have "\<dots> \<longleftrightarrow> ?n * int ?p \<le> 2 ^ 31" using n by simp
  finally have bound: "nat ?n * ?p \<le> 2 ^ 31 \<longleftrightarrow> ?n * int ?p \<le> 2 ^ 31" .
  show ?thesis
  proof (cases "?n * int ?p \<le> 2 ^ 31")
    case True
    with bound page_addresses_region [OF assms(1), of start "nat ?n"] obtain as
      where "page_addresses P start 0 (nat ?n) = Inr as" by simp
    from move_pages_remote_run(3) [OF arrays this, of ratio g] True show ?thesis
      unfolding move_pages_or_exit_eq move_result_eq by (simp only: if_True) blast
  next
    case False
    with bound page_addresses_region [OF assms(1), of start "nat ?n"]
    have "page_addresses P start 0 (nat ?n) = Inl (Undefined ''i * pagesize overflows'')" by simp
    from move_pages_remote_run(2) [OF arrays this, of ratio g] False show ?thesis
      by (simp only: if_False)
  qed
qed

lemma move_pages_remote_bound_witness:
  "move_pages_remote accepting 65536 2147487744 (Fin 20) (start_world 25 75) =
     (start_world 25 75, Inl (Undefined ''i * pagesize overflows''))"
proof -
  have n: "page_count_of accepting 2147487744 = 524289"
    by (simp add: page_count_of_def accepting_def set_platform_def)
  have "numa_page_size accepting = 4096" "malloc_ok accepting (of_int (8 * 524289))"
    by (simp_all add: accepting_def)
  with n show ?thesis
    using move_pages_remote_bound [of accepting 2147487744 65536 "Fin 20" "start_world 25 75"] by simp
qed

text \<open>
  C20: \<open>move_pages_initial\<close> with two records sorted by weight whose weights add up to 100. It
  reaches its call without any access outside its arrays; up to an index \<open>u\<close> that is within
  two pages of twice the lighter share the pages alternate between the two nodes, then all
  go to the heavier node, except at most four at the end, which stay on node 0.
\<close>

theorem move_pages_initial_shares:
  assumes "page_size_ok (numa_page_size P)" and "unat len < 2 ^ 31"
    and "start \<noteq> 0" and "malloc_ok P (of_int (8 * page_count_of P len))"
    and "nodes_info g = [x, y]" "node_weight x = Fin a" "node_weight y = Fin b"
    and "percentage a" "percentage b" "a \<le> b" "a + b = 100"
  shows "\<exists>u v g'. move_pages_initial P start len g =
      (g', move_result P g (last (syscalls g'))) \<and>
    one_move P start len g g'
      (two_node_pages (node_id x) (node_id y) u v (nat (page_count_of P len))) \<and>
    0 \<le> u \<and> u \<le> v \<and> v \<le> page_count_of P len \<and> page_count_of P len - 4 \<le> v \<and>
    \<bar>of_int u - 2 * a / 100 * of_int (page_count_of P len)\<bar> \<le> (2 :: rat)"
proof -
  let ?n = "page_count_of P len" and ?p = "page_bytes (numa_page_size P)"
  have p: "0 < ?p" by (rule page_bytes_pos [OF assms(1)])
  have q: "unat len div ?p * ?p \<le> 2 ^ 31" using assms(2) div_times_less_eq_dividend [of "unat len" ?p] by linarith
  have "2 ^ 31 * 1 \<le> 2 ^ 31 * ?p" using p by (intro mult_le_mono2) simp
  with assms(2) have len: "unat len < 2 ^ 31 * ?p" by simp
  have n: "?n = int (unat len div ?p)" by (rule page_count_of_eq [OF assms(1) len])
  define m where "m = unat len div ?p"
  have nm: "nat ?n = m" "?n = int m" by (simp_all add: n m_def)
  have m31: "m < 2 ^ 31" using len by (simp add: m_def less_mult_imp_div_less)
  have arrays: "allocate_arrays P start ?n = Inr ()"
    using assms(3,4) by (simp add: allocate_arrays_def n)
  have addrs: "page_addresses P start 0 m =
      Inr (map (\<lambda>j. start + of_int (int j * sint (numa_page_size P))) [0 ..< m])"
    using page_addresses_region [OF assms(1), of start m] q by (simp add: m_def)
  obtain u v where uv: "0 \<le> u" "u \<le> v" "v \<le> int m"
    "\<bar>of_int u - 2 * a / 100 * of_nat m\<bar> \<le> (2 :: rat)" "int m - 4 \<le> v"
    "initial_loop (int m) [x, y] [node_id x, node_id y] (Fin 0) 0 (replicate m 0) =
       Inr (two_node_pages (node_id x) (node_id y) u v m)"
    by (rule initial_loop_two_nodes [OF assms(8-11) assms(6,7) m31])
  let ?g' = "g\<lparr>syscalls := syscalls g @
    [Move_pages (map (\<lambda>j. start + of_int (int j * sint (numa_page_size P))) [0 ..< m])
      (two_node_pages (node_id x) (node_id y) u v m)]\<rparr>"
  have run: "move_pages_initial P start len g = (?g', move_result P g (last (syscalls ?g')))"
    using arrays addrs uv(6)
    by (simp add: move_pages_initial_def Let_def step_simps nm assms(5) move_pages_or_exit_eq
        del: initial_loop.simps)
  moreover have "one_move P start len g ?g' (two_node_pages (node_id x) (node_id y) u v (nat ?n))"
    by (simp add: one_move_def nm two_node_pages_def)
  ultimately show ?thesis
    using uv(1-5) by (intro exI [of _ u] exI [of _ v] exI [of _ ?g']) (simp add: nm)
qed

lemma move_pages_initial_shares_witness:
  "\<exists>u v g'. move_pages_initial accepting 65536 65536 (start_world 25 75) =
      (g', move_result accepting (start_world 25 75) (last (syscalls g'))) \<and>
    one_move accepting 65536 65536 (start_world 25 75) g' (two_node_pages 1 0 u v 16) \<and>
    12 \<le> v \<and> \<bar>of_int u - 8\<bar> \<le> (2 :: rat)"
proof -
  let ?x = "\<lparr>node_id = 1, node_weight = Fin 25, node_count = 0\<rparr>"
  let ?y = "\<lparr>node_id = 0, node_weight = Fin 75, node_count = 0\<rparr>"
  have n: "page_count_of accepting 65536 = 16"
    by (simp add: page_count_of_def accepting_def set_platform_def)
  have "representable binary32 (of_int 25)" "representable binary32 (of_int 75)"
    by (rule representable_of_int; simp add: binary32_def)+
  then have "percentage 25" "percentage 75" by (simp_all add: percentage_def)
  moreover have "numa_page_size accepting = 4096" "malloc_ok accepting (of_int (8 * 16))"
    by (simp_all add: accepting_def)
  moreover have "nodes_info (start_world 25 75) = [?x, ?y]" by (simp add: start_world_def two_nodes_def)
  ultimately show ?thesis
    using move_pages_initial_shares [of accepting 65536 65536 "start_world 25 75" ?x ?y 25 75] n by auto
qed

end
