(* ===== verification/Stall_Average.thy ===== *)
theory Stall_Average
  imports Floating
begin

text \<open>
  The last part of \<open>get_average_stall_rate\<close> in src/unstickymem/PerformanceCounters.cpp: the
  measurements are sorted, as many of them as asked for are cut off at both ends, and the
  rest is averaged in \<open>double\<close>.
\<close>

section \<open>Order on floating-point values\<close>

text \<open>A NaN, which the code's comparisons cannot order, is put last.\<close>

instantiation fp :: linorder
begin

fun less_eq_fp :: "fp \<Rightarrow> fp \<Rightarrow> bool" where
  "less_eq_fp (Fin x) (Fin y) \<longleftrightarrow> x \<le> y"
| "less_eq_fp NInf y \<longleftrightarrow> True"
| "less_eq_fp x NaN \<longleftrightarrow> True"
| "less_eq_fp NaN y \<longleftrightarrow> False"
| "less_eq_fp x PInf \<longleftrightarrow> True"
| "less_eq_fp PInf y \<longleftrightarrow> False"
| "less_eq_fp x NInf \<longleftrightarrow> False"

definition less_fp :: "fp \<Rightarrow> fp \<Rightarrow> bool" where
  "less_fp x y \<longleftrightarrow> x \<le> y \<and> \<not> y \<le> (x :: fp)"

instance
proof
  fix x y z :: fp
  show "x < y \<longleftrightarrow> x \<le> y \<and> \<not> y \<le> x" by (rule less_fp_def)
  show "x \<le> x" by (cases x) simp_all
  show "x \<le> y \<Longrightarrow> y \<le> z \<Longrightarrow> x \<le> z" by (cases x; cases y; cases z) simp_all
  show "x \<le> y \<Longrightarrow> y \<le> x \<Longrightarrow> x = y" by (cases x; cases y) simp_all
  show "x \<le> y \<or> y \<le> x" by (cases x; cases y) auto
qed

end

text \<open>Without a NaN it is the order of the code's \<open><\<close>.\<close>

lemma less_fp_is_fp_less: "x \<noteq> NaN \<Longrightarrow> y \<noteq> NaN \<Longrightarrow> x < y \<longleftrightarrow> fp_less x y"
  by (cases x; cases y) (auto simp: less_fp_def)

section \<open>Cutting off and averaging\<close>

text \<open>
  Sorting needs an order, which a NaN among several values breaks; erasing more elements than
  there are moves an iterator out of the vector. Both are undefined.
\<close>

definition filter_outliers :: "nat \<Rightarrow> fp list \<Rightarrow> fp list result" where
  "filter_outliers k ms =
     (if 1 < length ms \<and> NaN \<in> set ms then Inl (Undefined ''std::sort of unordered values'')
      else if length ms < k then Inl (Undefined ''erase before the begin of the vector'')
      else
        let ms1 = take (length ms - k) (sort ms)
        in if length ms1 < k then Inl (Undefined ''erase past the end of the vector'')
           else Inr (drop k ms1))"

definition average :: "fp list \<Rightarrow> fp" where
  "average ms =
     fp_div binary64 (foldl (fp_add binary64) (Fin 0) ms) (fp_of_int binary64 (int (length ms)))"

definition average_filtered :: "nat \<Rightarrow> fp list \<Rightarrow> fp result" where
  "average_filtered k ms = bind_result (filter_outliers k ms) (\<lambda>kept. Inr (average kept))"

section \<open>What is kept\<close>

lemma filter_outliers_Inr:
  assumes "NaN \<notin> set ms" "2 * k \<le> length ms"
  shows "filter_outliers k ms = Inr (drop k (take (length ms - k) (sort ms)))"
  using assms by (auto simp: filter_outliers_def Let_def)

text \<open>
  If at most \<open>k\<close> elements of a sorted list are below a bound, all elements from position
  \<open>k\<close> on reach it; the same from the other end.
\<close>

lemma sorted_below_prefix:
  assumes "sorted xs" "length (filter (\<lambda>x. x < b) xs) \<le> k" "k \<le> i" "i < length xs"
  shows "b \<le> (xs ! i :: 'a :: linorder)"
proof (rule ccontr)
  assume "\<not> b \<le> xs ! i"
  then have "x < b" if "x \<in> set (take (Suc i) xs)" for x
  proof -
    from that obtain j where "x = xs ! j" "j \<le> i" by (auto simp: in_set_conv_nth)
    with sorted_nth_mono [OF assms(1), of j i] \<open>\<not> b \<le> xs ! i\<close> assms(4) show ?thesis by auto
  qed
  then have "filter (\<lambda>x. x < b) (take (Suc i) xs) = take (Suc i) xs" by (simp add: filter_id_conv)
  then have "length (filter (\<lambda>x. x < b) (take (Suc i) xs)) = Suc i" using assms(4) by simp
  moreover have "length (filter (\<lambda>x. x < b) xs) =
      length (filter (\<lambda>x. x < b) (take (Suc i) xs)) + length (filter (\<lambda>x. x < b) (drop (Suc i) xs))"
    by (metis append_take_drop_id filter_append length_append)
  ultimately show False using assms(2,3) by simp
qed

lemma sorted_above_suffix:
  assumes "sorted xs" "length (filter (\<lambda>x. b < x) xs) \<le> k" "i + k < length xs"
  shows "xs ! i \<le> (b :: 'a :: linorder)"
proof (rule ccontr)
  assume n: "\<not> xs ! i \<le> b"
  have "b < x" if "x \<in> set (drop i xs)" for x
  proof -
    from that obtain j where "x = xs ! (i + j)" "i + j < length xs" by (auto simp: in_set_conv_nth)
    with sorted_nth_mono [OF assms(1), of i "i + j"] n show ?thesis by auto
  qed
  then have "filter (\<lambda>x. b < x) (drop i xs) = drop i xs" by (simp add: filter_id_conv)
  then have "length (filter (\<lambda>x. b < x) (drop i xs)) = length xs - i" by simp
  moreover have "length (filter (\<lambda>x. b < x) xs) =
      length (filter (\<lambda>x. b < x) (take i xs)) + length (filter (\<lambda>x. b < x) (drop i xs))"
    by (metis append_take_drop_id filter_append length_append)
  ultimately show False using assms(2,3) by simp
qed

lemma length_filter_sort: "length (filter P (sort xs)) = length (filter P xs)"
  by (metis mset_filter mset_sort size_mset)

lemma kept_within:
  assumes "length (filter (\<lambda>x. x < lo) ms) \<le> k" "length (filter (\<lambda>x. hi < x) ms) \<le> k"
    and "x \<in> set (drop k (take (length ms - k) (sort ms)))"
  shows "lo \<le> x \<and> x \<le> (hi :: 'a :: linorder)"
proof -
  obtain i where i: "x = sort ms ! i" "k \<le> i" "i + k < length ms"
  proof -
    from assms(3) obtain j where j: "j < length ms - k - k" "x = drop k (take (length ms - k) (sort ms)) ! j"
      by (auto simp: in_set_conv_nth)
    then show thesis by (intro that [of "k + j"]) simp_all
  qed
  then show ?thesis
    using sorted_below_prefix [of "sort ms" lo k i] sorted_above_suffix [of "sort ms" hi k i] assms(1,2)
    by (simp add: length_filter_sort)
qed


section \<open>Rounding of the average\<close>

lemma sum_error:
  assumes "\<bar>a\<bar> + of_nat (length xs) * 1025 \<le> pow2 31" "\<forall>x \<in> set xs. \<bar>x\<bar> \<le> 1024"
  shows "\<exists>b. foldl (fp_add binary64) (Fin a) (map Fin xs) = Fin b \<and>
    \<bar>b - (a + sum_list xs)\<bar> \<le> of_nat (length xs) * pow2 (- 22)"
  using assms
proof (induction xs arbitrary: a)
  case (Cons x xs)
  have len: "\<bar>a\<bar> + 1025 + of_nat (length xs) * 1025 \<le> pow2 31" "\<bar>x\<bar> \<le> 1024"
    using Cons.prems by (simp_all add: algebra_simps)
  have n: "(0 :: rat) \<le> of_nat (length xs) * 1025" by simp
  then have "\<bar>a + x\<bar> \<le> pow2 31" using len by linarith
  from fp_near [OF _ this, of binary64] obtain c where c: "fp_of_rat binary64 (a + x) = Fin c"
    "\<bar>c - (a + x)\<bar> \<le> pow2 (- 22)" by (auto simp: binary64_def)
  have "pow2 (- 22) \<le> 1" by (simp add: pow2_def power_int_def power_divide)
  then have "\<bar>c\<bar> + of_nat (length xs) * 1025 \<le> pow2 31" using len c(2) by linarith
  from Cons.IH [OF this] Cons.prems(2) obtain b where b: "foldl (fp_add binary64) (Fin c) (map Fin xs) = Fin b"
    "\<bar>b - (c + sum_list xs)\<bar> \<le> of_nat (length xs) * pow2 (- 22)" by auto
  have "\<bar>b - (a + (x + sum_list xs))\<bar> \<le> pow2 (- 22) + of_nat (length xs) * pow2 (- 22)"
    using b(2) c(2) by linarith
  also have "\<dots> = of_nat (length (x # xs)) * pow2 (- 22)" by (simp add: algebra_simps)
  finally show ?case using b(1) c(1) by (intro exI [of _ b]) simp
qed simp

lemma sum_list_bounds:
  assumes "\<forall>x \<in> set xs. lo \<le> x \<and> x \<le> (hi :: rat)"
  shows "of_nat (length xs) * lo \<le> sum_list xs \<and> sum_list xs \<le> of_nat (length xs) * hi"
  using assms by (induction xs) (auto simp: algebra_simps)

lemma average_near:
  assumes "xs \<noteq> []" "length xs \<le> 2 ^ 20" "\<forall>x \<in> set xs. lo \<le> x \<and> x \<le> hi" "- 1024 \<le> lo" "hi \<le> 1024"
  obtains a where "average (map Fin xs) = Fin a" "lo - pow2 (- 21) \<le> a" "a \<le> hi + pow2 (- 21)"
proof -
  define n where "n = (of_nat (length xs) :: rat)"
  have n1: "1 \<le> n" using assms(1) by (cases xs) (simp_all add: n_def)
  have "n \<le> of_nat (2 ^ 20)" using assms(2) unfolding n_def by (simp only: of_nat_le_iff)
  then have n20: "n \<le> 2 ^ 20" by simp
  then have "\<bar>0\<bar> + of_nat (length xs) * 1025 \<le> pow2 31" by (simp add: pow2_def flip: n_def)
  moreover have ab: "\<forall>x \<in> set xs. \<bar>x\<bar> \<le> 1024" using assms(3-5) by (auto simp: abs_le_iff)
  ultimately obtain b where b: "foldl (fp_add binary64) (Fin 0) (map Fin xs) = Fin b"
    "\<bar>b - sum_list xs\<bar> \<le> n * pow2 (- 22)"
    using sum_error [of 0 xs] by (auto simp: n_def)
  have "n * lo \<le> sum_list xs" "sum_list xs \<le> n * hi"
    using sum_list_bounds [OF assms(3)] by (simp_all add: n_def)
  with b(2) have "n * (lo - pow2 (- 22)) \<le> b" "b \<le> n * (hi + pow2 (- 22))"
    by (simp_all add: algebra_simps abs_le_iff)
  then have q: "lo - pow2 (- 22) \<le> b / n" "b / n \<le> hi + pow2 (- 22)"
    using n1 by (simp_all add: pos_le_divide_eq pos_divide_le_eq mult.commute)
  have small: "pow2 (- 22) \<le> 1" by (simp add: pow2_def power_int_def power_divide)
  have p11: "pow2 11 = 2048" by (simp add: pow2_def)
  have "lo \<le> hi" using assms(1,3) by (cases xs) auto
  then have "\<bar>b / n\<bar> \<le> pow2 11" using q small assms(4,5) unfolding p11 by (simp add: abs_le_iff)
  from fp_near [OF _ this, of binary64] obtain a where a: "fp_of_rat binary64 (b / n) = Fin a"
    "\<bar>a - b / n\<bar> \<le> pow2 (- 42)" by (auto simp: binary64_def)
  have "pow2 (- 42) \<le> pow2 (- 22)" by (simp only: pow2_le_iff)
  moreover have "pow2 (- 21) = 2 * pow2 (- 22)" using pow2_Suc [of "- 22"] by simp
  ultimately have r: "lo - pow2 (- 21) \<le> a" "a \<le> hi + pow2 (- 21)" using q a(2) by linarith+
  have "fp_of_rat binary64 n = Fin n"
    unfolding n_def using fp_of_rat_dyadic [of "of_nat (length xs)" 0 "int (length xs)" binary64] assms(2) by simp
  then have "average (map Fin xs) = Fin a"
    using b(1) a(1) n1 by (simp add: average_def fp_of_int_def flip: n_def)
  with r show thesis by (intro that)
qed


section \<open>Properties\<close>

text \<open>
  C12: the average is robust. If at most \<open>k\<close> of the measurements are below \<open>lo\<close> and at most
  \<open>k\<close> are above \<open>hi\<close> (infinite ones included), the average without \<open>k\<close> outliers at each end
  is a finite value between \<open>lo\<close> and \<open>hi\<close>, up to the rounding of the sum.
\<close>

theorem average_filtered_robust:
  assumes "NaN \<notin> set ms" and "2 * k < length ms" and "length ms \<le> 2 ^ 20"
    and "length (filter (\<lambda>m. m < Fin lo) ms) \<le> k" and "length (filter (\<lambda>m. Fin hi < m) ms) \<le> k"
    and "- 1024 \<le> lo" and "hi \<le> 1024"
  shows "\<exists>a. average_filtered k ms = Inr (Fin a) \<and> lo - pow2 (- 21) \<le> a \<and> a \<le> hi + pow2 (- 21)"
proof -
  define kept where "kept = drop k (take (length ms - k) (sort ms))"
  have w: "Fin lo \<le> x \<and> x \<le> Fin hi" if "x \<in> set kept" for x
    using kept_within [OF assms(4,5)] that unfolding kept_def by blast
  define value_of where "value_of x = (case x of Fin r \<Rightarrow> r | _ \<Rightarrow> 0)" for x
  have fin: "x = Fin (value_of x) \<and> lo \<le> value_of x \<and> value_of x \<le> hi" if "x \<in> set kept" for x
    using w [OF that] by (cases x) (simp_all add: value_of_def)
  define xs where "xs = map value_of kept"
  have kept: "kept = map Fin xs" using fin unfolding xs_def by (simp add: map_idI)
  have "length kept = length ms - 2 * k" using assms(2) by (simp add: kept_def)
  then have "xs \<noteq> []" "length xs \<le> 2 ^ 20" using assms(2,3) by (auto simp: xs_def)
  moreover have "\<forall>x \<in> set xs. lo \<le> x \<and> x \<le> hi" using fin by (auto simp: xs_def)
  ultimately obtain a where "average (map Fin xs) = Fin a" "lo - pow2 (- 21) \<le> a" "a \<le> hi + pow2 (- 21)"
    using average_near assms(6,7) by blast
  moreover have "average_filtered k ms = Inr (average kept)"
    using filter_outliers_Inr [OF assms(1), of k] assms(2) by (simp add: average_filtered_def kept_def)
  ultimately show ?thesis using kept by auto
qed

lemma average_filtered_robust_witness:
  "\<exists>a. average_filtered 1 [Fin (1 / 2), PInf, Fin (3 / 4), Fin (- 900)] = Inr (Fin a) \<and>
     1 / 2 - pow2 (- 21) \<le> a \<and> a \<le> 3 / 4 + pow2 (- 21)"
  using average_filtered_robust [of "[Fin (1 / 2), PInf, Fin (3 / 4), Fin (- 900)]" 1 "1 / 2" "3 / 4"]
  by (simp add: less_fp_def)

text \<open>
  The boundary cases. Without a NaN the average is undefined exactly when the outliers to
  cut off at the two ends outnumber the measurements, and it is a NaN when nothing is left;
  neither is checked.
\<close>

theorem average_filtered_outcome:
  assumes "NaN \<notin> set ms"
  shows "((\<exists>what. average_filtered k ms = Inl (Undefined what)) = (length ms < 2 * k)) \<and>
    (length ms = 2 * k \<longrightarrow> average_filtered k ms = Inr NaN)"
proof -
  have "(\<exists>what. average_filtered k ms = Inl (Undefined what)) = (length ms < 2 * k)"
    using assms by (auto simp: average_filtered_def filter_outliers_def Let_def)
  moreover have "fp_of_int binary64 0 = Fin 0" by (simp add: fp_of_int_def exact_fp)
  ultimately show ?thesis
    using assms by (simp add: average_filtered_def filter_outliers_Inr average_def fp_inf_def)
qed

lemma average_filtered_outcome_witness:
  "(\<exists>what. average_filtered 2 [Fin 1, Fin 2, Fin 3] = Inl (Undefined what)) \<and>
   average_filtered 1 [Fin 1, Fin 2] = Inr NaN"
  using average_filtered_outcome [of "[Fin 1, Fin 2, Fin 3]" 2] average_filtered_outcome [of "[Fin 1, Fin 2]" 1]
  by simp

end
