(* ===== verification/Perf_Counters.thy ===== *)
theory Perf_Counters
  imports Stall_Average "HOL-Library.Signed_Division"
begin

text \<open>
  src/unstickymem/PerformanceCounters.cpp: starting likwid, and the stall rates computed from
  its counters. likwid, the time stamp counter and the topology are outside the repository:
  the answers to the calls are the fields of a \<open>pmu\<close>, and each may depend on all calls made
  before. The state holds the file's globals, the static variables of its functions and the
  calls made so far.
\<close>

section \<open>State\<close>

datatype pmu_call =
    Topology_init | Affinity_init | Perfmon_init int "int list" | Add_event_set string
  | Setup_counters int | Start_counters | Stop_counters | Get_result int int int
  | Read_tsc | Read_pmc int
  | Perfmon_finalize | Affinity_finalize | Topology_finalize | Usleep nat

record pmu =
  pmu_status :: "pmu_call list \<Rightarrow> pmu_call \<Rightarrow> int"    \<comment> \<open>calls that return a status\<close>
  pmu_value :: "pmu_call list \<Rightarrow> fp"                  \<comment> \<open>\<open>perfmon_getResult\<close>\<close>
  pmu_edx_eax :: "pmu_call list \<Rightarrow> 32 word \<times> 32 word"  \<comment> \<open>rdtsc, rdpmc: high and low half\<close>
  is_intel :: int                                     \<comment> \<open>\<open>get_cpuInfo()->isIntel\<close>\<close>
  hw_threads :: int                                   \<comment> \<open>\<open>get_cpuTopology()->numHWThreads\<close>\<close>
  apic_ids :: "int list"                              \<comment> \<open>of the thread pool\<close>
  numa_nodes :: int                                   \<comment> \<open>\<open>numa_num_configured_nodes()\<close>\<close>
  cpus_allocated :: bool                              \<comment> \<open>does the allocation of \<open>cpus\<close> succeed\<close>
  log_opened :: bool                                  \<comment> \<open>could unstickymem_log.txt be opened\<close>
  elapsed_log_opened :: bool                          \<comment> \<open>the other log file\<close>

text \<open>The settings of unstickymem.cpp that the file reads.\<close>

record settings =
  monitoring_core :: bool
  monitoring_core_value :: int
  pmc_value :: int

text \<open>\<open>cpus\<close>: null before start-up, dangling after \<open>stop_all_counters\<close>.\<close>

datatype cpus_array = Null_cpus | Cpus "int list" | Freed_cpus

datatype log_entry = Ratio_rate fp fp | Ratio_only fp | Elapsed_rate string fp

record counters =
  likwid_ready :: bool             \<comment> \<open>\<open>initiatialized\<close>\<close>
  err :: int
  cpus :: cpus_array
  gid :: int
  info :: "int option"             \<comment> \<open>\<open>isIntel\<close> behind the pointer \<open>info\<close>, if it is not null\<close>
  nnodes :: int
  ncpus_per_node :: int
  ncpus :: int
  active_cpus :: int
  amd_estr :: string
  intel_estr :: string
  elapsed_stalls :: fp             \<comment> \<open>statics of \<open>get_elapsed_stall_rate\<close>\<close>
  elapsed_clockcounts :: u64
  prev_stalls :: fp                \<comment> \<open>statics of \<open>get_stall_rate_v2\<close>\<close>
  prev_clockcounts :: u64
  pmc_clockcounts :: u64           \<comment> \<open>statics of \<open>get_stall_rate\<close>\<close>
  pmc_pmcounts :: u64
  log_entries :: "log_entry list"
  pmu_calls :: "pmu_call list"

definition initial_counters :: counters where
  "initial_counters =
     \<lparr>likwid_ready = False, err = 0, cpus = Null_cpus, gid = 0, info = None, nnodes = 0,
      ncpus_per_node = 0, ncpus = 0, active_cpus = 0, amd_estr = ''DISPATCH_STALLS:PMC0'',
      intel_estr = ''RESOURCE_STALLS_ANY:PMC0'', elapsed_stalls = Fin 0, elapsed_clockcounts = 0,
      prev_stalls = Fin 0, prev_clockcounts = 0, pmc_clockcounts = 0, pmc_pmcounts = 0,
      log_entries = [], pmu_calls = []\<rparr>"

section \<open>Calls\<close>

type_synonym 'a counting = "(counters, 'a) run"

definition pmu_do :: "pmu_call \<Rightarrow> unit counting" where
  "pmu_do c s = (s\<lparr>pmu_calls := pmu_calls s @ [c]\<rparr>, Inr ())"

text \<open>A call whose status is stored in the global \<open>err\<close>.\<close>

definition pmu_check :: "pmu \<Rightarrow> pmu_call \<Rightarrow> int counting" where
  "pmu_check p c s =
     (let e = pmu_status p (pmu_calls s) c
      in (s\<lparr>pmu_calls := pmu_calls s @ [c], err := e\<rparr>, Inr e))"

text \<open>The clean-up before \<open>exit(-1)\<close>.\<close>

fun pmu_quit :: "pmu_call list \<Rightarrow> 'a counting" where
  "pmu_quit [] = fail_step (Exited (- 1))"
| "pmu_quit (c # cs) = then_step (pmu_do c) (\<lambda>_. pmu_quit cs)"

definition pmu_require :: "pmu \<Rightarrow> pmu_call \<Rightarrow> pmu_call list \<Rightarrow> unit counting" where
  "pmu_require p c cleanup =
     then_step (pmu_check p c) (\<lambda>e. if e < 0 then pmu_quit cleanup else done_step ())"

text \<open>\<open>readtsc\<close> and \<open>readpmc\<close> put the two halves of the counter together.\<close>

definition join_halves :: "32 word \<times> 32 word \<Rightarrow> u64" where
  "join_halves h = (case h of (hi, lo) \<Rightarrow> ucast lo OR push_bit 32 (ucast hi))"

definition readtsc :: "pmu \<Rightarrow> u64 counting" where
  "readtsc p s =
     (s\<lparr>pmu_calls := pmu_calls s @ [Read_tsc]\<rparr>, Inr (join_halves (pmu_edx_eax p (pmu_calls s))))"

definition readpmc :: "pmu \<Rightarrow> int \<Rightarrow> u64 counting" where
  "readpmc p n s =
     (s\<lparr>pmu_calls := pmu_calls s @ [Read_pmc n]\<rparr>, Inr (join_halves (pmu_edx_eax p (pmu_calls s))))"

definition perfmon_getResult :: "pmu \<Rightarrow> int \<Rightarrow> int \<Rightarrow> int \<Rightarrow> fp counting" where
  "perfmon_getResult p g i j s =
     (s\<lparr>pmu_calls := pmu_calls s @ [Get_result g i j]\<rparr>, Inr (pmu_value p (pmu_calls s)))"

section \<open>Log files\<close>

definition unstickymem_log :: "pmu \<Rightarrow> fp \<Rightarrow> fp \<Rightarrow> unit counting" where
  "unstickymem_log p ratio sr =
     then_step (lift_result (die_if (\<not> log_opened p) ''error opening file''))
       (\<lambda>_ s. (s\<lparr>log_entries := log_entries s @ [Ratio_rate ratio sr]\<rparr>, Inr ()))"

definition unstickymem_log_ratio :: "pmu \<Rightarrow> fp \<Rightarrow> unit counting" where
  "unstickymem_log_ratio p ratio =
     then_step (lift_result (die_if (\<not> log_opened p) ''error opening file''))
       (\<lambda>_ s. (s\<lparr>log_entries := log_entries s @ [Ratio_only ratio]\<rparr>, Inr ()))"

definition unstickymem_log_v1 :: "pmu \<Rightarrow> fp \<Rightarrow> string \<Rightarrow> unit counting" where
  "unstickymem_log_v1 p sr mode =
     then_step (lift_result (die_if (\<not> elapsed_log_opened p) ''error opening file''))
       (\<lambda>_ s. (s\<lparr>log_entries := log_entries s @ [Elapsed_rate mode sr]\<rparr>, Inr ()))"

section \<open>Starting likwid\<close>

definition check_pmc :: "settings \<Rightarrow> unit counting" where
  "check_pmc c s =
     (if pmc_value c = 1
      then (s\<lparr>amd_estr := ''DISPATCH_STALLS:PMC1'', intel_estr := ''RESOURCE_STALLS_ANY:PMC1''\<rparr>, Inr ())
      else (s, Inr ()))"

text \<open>Topology and affinity, up to the allocation of \<open>cpus\<close>.\<close>

definition read_topology :: "pmu \<Rightarrow> unit counting" where
  "read_topology p =
     then_step (pmu_require p Topology_init []) (\<lambda>_ s.
     then_step (pmu_do Affinity_init) (\<lambda>_ s.
       let s1 = s\<lparr>ncpus := hw_threads p, nnodes := numa_nodes p\<rparr>
       in if numa_nodes p = 0 then (s1, Inl (Undefined ''division by zero''))
          else (s1\<lparr>ncpus_per_node := hw_threads p sdiv numa_nodes p, active_cpus := 1\<rparr>, Inr ()))
       (s\<lparr>info := Some (is_intel p)\<rparr>))"

text \<open>One CPU is monitored: the chosen core, or the first of the thread pool.\<close>

definition select_cpus :: "pmu \<Rightarrow> settings \<Rightarrow> unit counting" where
  "select_cpus p c s =
     (if \<not> cpus_allocated p then (s, Inl (Exited (- 1)))
      else if monitoring_core c then (s\<lparr>cpus := Cpus [monitoring_core_value c]\<rparr>, Inr ())
      else case apic_ids p of
        [] \<Rightarrow> (s, Inl (Undefined ''thread pool out of bounds''))
      | i # _ \<Rightarrow> (s\<lparr>cpus := Cpus [i]\<rparr>, Inr ()))"

definition cpu_list :: "counters \<Rightarrow> int list" where
  "cpu_list s = (case cpus s of Cpus is \<Rightarrow> is | _ \<Rightarrow> [])"

definition add_events :: "pmu \<Rightarrow> unit counting" where
  "add_events p s =
     (if info s = Some 1 \<or> info s = Some 0
      then
        let c = Add_event_set (if info s = Some 1 then intel_estr s else amd_estr s);
            g = pmu_status p (pmu_calls s) c;
            s1 = s\<lparr>pmu_calls := pmu_calls s @ [c], gid := g\<rparr>
        in if g < 0 then pmu_quit [Perfmon_finalize, Topology_finalize] s1 else (s1, Inr ())
      else (s, Inl (Exited (- 1))))"

definition initialize_likwid :: "pmu \<Rightarrow> settings \<Rightarrow> unit counting" where
  "initialize_likwid p c s =
     (if likwid_ready s then (s, Inr ())
      else
        then_step (check_pmc c) (\<lambda>_.
        then_step (read_topology p) (\<lambda>_.
        then_step (select_cpus p c) (\<lambda>_ s1.
        then_step (pmu_require p (Perfmon_init (active_cpus s1) (cpu_list s1)) [Topology_finalize]) (\<lambda>_.
        then_step (add_events p) (\<lambda>_ s2.
        then_step (pmu_require p (Setup_counters (gid s2)) [Perfmon_finalize, Topology_finalize]) (\<lambda>_.
        then_step (pmu_require p Start_counters [Perfmon_finalize, Topology_finalize]) (\<lambda>_ s3.
          (s3\<lparr>likwid_ready := True\<rparr>, Inr ()))) s2)) s1))) s)"

section \<open>Stall rates\<close>

text \<open>
  The common body of \<open>get_elapsed_stall_rate\<close> and \<open>get_stall_rate_v2\<close>, between stopping and
  restarting the counters: \<open>old\<close> reads and \<open>new\<close> writes the function's static variables.
\<close>

definition read_stalls :: "pmu \<Rightarrow> (fp \<times> u64) counting" where
  "read_stalls p s =
     (case info s of
        None \<Rightarrow> (s, Inl (Undefined ''null pointer info''))
      | Some i \<Rightarrow>
          if i \<noteq> 1 \<and> i \<noteq> 0 then (s, Inl (Exited (- 1)))
          else
            then_step (perfmon_getResult p (gid s) 0 0) (\<lambda>result.
            then_step (readtsc p) (\<lambda>clock s1.
              (s1, Inr (fp_div binary64 (fp_add binary64 (Fin 0) result)
                 (fp_of_int binary64 (active_cpus s1)), clock)))) s)"

definition rate_between :: "fp \<times> u64 \<Rightarrow> fp \<times> u64 \<Rightarrow> fp" where
  "rate_between old new =
     fp_div binary64 (fp_sub binary64 (fst new) (fst old))
       (fp_of_int binary64 (uint (snd new - snd old)))"

definition get_elapsed_stall_rate :: "pmu \<Rightarrow> fp counting" where
  "get_elapsed_stall_rate p =
     then_step (pmu_require p Stop_counters [Perfmon_finalize, Topology_finalize]) (\<lambda>_.
     then_step (read_stalls p) (\<lambda>new s.
       let rate = rate_between (elapsed_stalls s, elapsed_clockcounts s) new
       in then_step (pmu_require p Start_counters [Perfmon_finalize, Topology_finalize])
            (\<lambda>_. done_step rate)
            (s\<lparr>elapsed_stalls := fst new, elapsed_clockcounts := snd new\<rparr>)))"

definition get_stall_rate_v2 :: "pmu \<Rightarrow> fp counting" where
  "get_stall_rate_v2 p =
     then_step (pmu_require p Stop_counters [Perfmon_finalize, Topology_finalize]) (\<lambda>_.
     then_step (read_stalls p) (\<lambda>new s.
       let rate = rate_between (prev_stalls s, prev_clockcounts s) new
       in then_step (pmu_require p Start_counters [Perfmon_finalize, Topology_finalize])
            (\<lambda>_. done_step rate)
            (s\<lparr>prev_stalls := fst new, prev_clockcounts := snd new\<rparr>)))"

definition stop_all_counters :: "pmu \<Rightarrow> unit counting" where
  "stop_all_counters p =
     then_step (pmu_require p Stop_counters [Perfmon_finalize, Topology_finalize]) (\<lambda>_ s.
       if cpus s = Freed_cpus then (s, Inl (Undefined ''double free of cpus''))
       else
         then_step (pmu_do Perfmon_finalize) (\<lambda>_.
         then_step (pmu_do Affinity_finalize) (\<lambda>_. pmu_do Topology_finalize))
           (s\<lparr>cpus := (case cpus s of Null_cpus \<Rightarrow> Null_cpus | _ \<Rightarrow> Freed_cpus)\<rparr>))"

definition get_stall_rate :: "pmu \<Rightarrow> fp counting" where
  "get_stall_rate p =
     then_step (readtsc p) (\<lambda>clock.
     then_step (readpmc p 0) (\<lambda>pmc s.
       (s\<lparr>pmc_pmcounts := pmc, pmc_clockcounts := clock\<rparr>,
        Inr (fp_div binary64 (fp_of_int binary64 (uint (pmc - pmc_pmcounts s)))
          (fp_of_int binary64 (uint (clock - pmc_clockcounts s)))))))"

fun take_measurements :: "pmu \<Rightarrow> nat \<Rightarrow> nat \<Rightarrow> fp list counting" where
  "take_measurements p usec 0 = done_step []"
| "take_measurements p usec (Suc n) =
     then_step (get_stall_rate_v2 p) (\<lambda>m.
     then_step (pmu_do (Usleep usec)) (\<lambda>_.
     then_step (take_measurements p usec n) (\<lambda>ms. done_step (m # ms))))"

definition get_average_stall_rate :: "pmu \<Rightarrow> nat \<Rightarrow> nat \<Rightarrow> nat \<Rightarrow> fp counting" where
  "get_average_stall_rate p num usec outliers =
     then_step (get_stall_rate_v2 p) (\<lambda>_.
     then_step (pmu_do (Usleep usec)) (\<lambda>_.
     then_step (take_measurements p usec num) (\<lambda>ms. lift_result (average_filtered outliers ms))))"


section \<open>Sequences that return\<close>

named_theorems counting_simps "evaluation of the operations on the counters"

lemma pmu_quit_eq [counting_simps]:
  "pmu_quit cs s = (s\<lparr>pmu_calls := pmu_calls s @ cs\<rparr>, Inl (Exited (- 1)))"
  by (induction cs arbitrary: s) (simp_all add: step_simps then_step_def pmu_do_def)

declare pmu_quit.simps [simp del]

lemma pmu_require_eq:
  "pmu_require p c cleanup s =
     (let e = pmu_status p (pmu_calls s) c; s1 = s\<lparr>pmu_calls := pmu_calls s @ [c], err := e\<rparr>
      in if e < 0 then (s1\<lparr>pmu_calls := pmu_calls s @ c # cleanup\<rparr>, Inl (Exited (- 1))) else (s1, Inr ()))"
  by (simp add: pmu_require_def pmu_check_def then_step_def counting_simps step_simps Let_def)

lemma pmu_require_Inr [counting_simps]:
  "pmu_require p c cleanup s = (s', Inr u) \<longleftrightarrow>
     0 \<le> pmu_status p (pmu_calls s) c \<and>
     s' = s\<lparr>pmu_calls := pmu_calls s @ [c], err := pmu_status p (pmu_calls s) c\<rparr>"
  by (auto simp: pmu_require_eq Let_def)

lemma read_stalls_Inr:
  "read_stalls p s = (s', Inr new) \<longleftrightarrow>
     info s \<in> {Some 0, Some 1} \<and>
     s' = s\<lparr>pmu_calls := pmu_calls s @ [Get_result (gid s) 0 0, Read_tsc]\<rparr> \<and>
     new = (fp_div binary64 (fp_add binary64 (Fin 0) (pmu_value p (pmu_calls s)))
              (fp_of_int binary64 (active_cpus s)),
            join_halves (pmu_edx_eax p (pmu_calls s @ [Get_result (gid s) 0 0])))"
  by (auto simp: read_stalls_def then_step_def perfmon_getResult_def readtsc_def split: option.splits)

text \<open>One sample: the calls it makes and what it keeps.\<close>

definition sample_calls :: "int \<Rightarrow> pmu_call list" where
  "sample_calls g = [Stop_counters, Get_result g 0 0, Read_tsc, Start_counters]"

definition same_setup :: "counters \<Rightarrow> counters \<Rightarrow> bool" where
  "same_setup s s' \<longleftrightarrow>
     likwid_ready s' = likwid_ready s \<and> info s' = info s \<and> gid s' = gid s \<and> cpus s' = cpus s \<and>
     active_cpus s' = active_cpus s \<and> log_entries s' = log_entries s"

lemma same_setup_refl [simp]: "same_setup s s" by (simp add: same_setup_def)

lemma same_setup_trans: "same_setup s s1 \<Longrightarrow> same_setup s1 s2 \<Longrightarrow> same_setup s s2"
  by (simp add: same_setup_def)

lemma get_stall_rate_v2_run:
  assumes "get_stall_rate_v2 p s = (s', Inr r)"
  shows "pmu_calls s' = pmu_calls s @ sample_calls (gid s) \<and> same_setup s s'"
  using assms
  by (auto simp: get_stall_rate_v2_def then_step_Inr_iff counting_simps read_stalls_Inr Let_def
      sample_calls_def same_setup_def)

lemma get_elapsed_stall_rate_run:
  assumes "get_elapsed_stall_rate p s = (s', Inr r)"
  shows "pmu_calls s' = pmu_calls s @ sample_calls (gid s) \<and> same_setup s s'"
  using assms
  by (auto simp: get_elapsed_stall_rate_def then_step_Inr_iff counting_simps read_stalls_Inr Let_def
      sample_calls_def same_setup_def)

lemma take_measurements_run:
  assumes "take_measurements p usec n s = (s', Inr ms)"
  shows "pmu_calls s' = pmu_calls s @ concat (replicate n (sample_calls (gid s) @ [Usleep usec])) \<and>
    same_setup s s' \<and> length ms = n"
  using assms
proof (induction n arbitrary: s ms)
  case (Suc n)
  then obtain s1 m ms' where m: "get_stall_rate_v2 p s = (s1, Inr m)"
    "take_measurements p usec n (s1\<lparr>pmu_calls := pmu_calls s1 @ [Usleep usec]\<rparr>) = (s', Inr ms')" "ms = m # ms'"
    by (auto simp: then_step_Inr_iff pmu_do_def)
  from get_stall_rate_v2_run [OF m(1)] Suc.IH [OF m(2)] m(3) show ?case
    by (simp add: same_setup_def)
qed simp

lemma get_average_stall_rate_run:
  assumes "get_average_stall_rate p n usec k s = (s', Inr r)"
  shows "pmu_calls s' = pmu_calls s @ concat (replicate (n + 1) (sample_calls (gid s) @ [Usleep usec]))"
    and "same_setup s s'"
    and "\<exists>ms. length ms = n \<and> average_filtered k ms = Inr r"
proof -
  obtain s1 m ms where m: "get_stall_rate_v2 p s = (s1, Inr m)"
    "take_measurements p usec n (s1\<lparr>pmu_calls := pmu_calls s1 @ [Usleep usec]\<rparr>) = (s', Inr ms)"
    "average_filtered k ms = Inr r"
    using assms by (auto simp: get_average_stall_rate_def then_step_Inr_iff pmu_do_def)
  note run = get_stall_rate_v2_run [OF m(1)] take_measurements_run [OF m(2)]
  from run show "pmu_calls s' = pmu_calls s @ concat (replicate (n + 1) (sample_calls (gid s) @ [Usleep usec]))"
    "same_setup s s'"
    by (simp_all add: same_setup_def)
  from run m(3) show "\<exists>ms. length ms = n \<and> average_filtered k ms = Inr r" by blast
qed


section \<open>Starting and stopping\<close>

definition chosen_events :: "settings \<Rightarrow> int \<Rightarrow> string" where
  "chosen_events c intel =
     (if intel = 1 then (if pmc_value c = 1 then ''RESOURCE_STALLS_ANY:PMC1'' else ''RESOURCE_STALLS_ANY:PMC0'')
      else if pmc_value c = 1 then ''DISPATCH_STALLS:PMC1'' else ''DISPATCH_STALLS:PMC0'')"

definition start_calls :: "settings \<Rightarrow> pmu \<Rightarrow> int \<Rightarrow> int \<Rightarrow> pmu_call list" where
  "start_calls c p core g =
     [Topology_init, Affinity_init, Perfmon_init 1 [core], Add_event_set (chosen_events c (is_intel p)),
      Setup_counters g, Start_counters]"

lemma read_topology_Inr [counting_simps]:
  "read_topology p s = (s', Inr u) \<longleftrightarrow>
     0 \<le> pmu_status p (pmu_calls s) Topology_init \<and> numa_nodes p \<noteq> 0 \<and>
     s' = s\<lparr>pmu_calls := pmu_calls s @ [Topology_init, Affinity_init],
       err := pmu_status p (pmu_calls s) Topology_init, info := Some (is_intel p),
       ncpus := hw_threads p, nnodes := numa_nodes p,
       ncpus_per_node := hw_threads p sdiv numa_nodes p, active_cpus := 1\<rparr>"
  by (auto simp: read_topology_def then_step_Inr_iff counting_simps pmu_do_def Let_def)

definition monitored_core :: "pmu \<Rightarrow> settings \<Rightarrow> int" where
  "monitored_core p c = (if monitoring_core c then monitoring_core_value c else hd (apic_ids p))"

lemma select_cpus_Inr [counting_simps]:
  "select_cpus p c s = (s', Inr u) \<longleftrightarrow>
     cpus_allocated p \<and> (monitoring_core c \<or> apic_ids p \<noteq> []) \<and>
     s' = s\<lparr>cpus := Cpus [monitored_core p c]\<rparr>"
  by (auto simp: select_cpus_def monitored_core_def split: list.splits)

lemma add_events_Inr [counting_simps]:
  "add_events p s = (s', Inr u) \<longleftrightarrow>
     (let c = Add_event_set (if info s = Some 1 then intel_estr s else amd_estr s);
          g = pmu_status p (pmu_calls s) c
      in info s \<in> {Some 0, Some 1} \<and> 0 \<le> g \<and> s' = s\<lparr>pmu_calls := pmu_calls s @ [c], gid := g\<rparr>)"
  by (auto simp: add_events_def counting_simps Let_def)

lemma check_pmc_Inr [counting_simps]:
  "check_pmc c s = (s', Inr u) \<longleftrightarrow>
     s' = (if pmc_value c = 1
       then s\<lparr>amd_estr := ''DISPATCH_STALLS:PMC1'', intel_estr := ''RESOURCE_STALLS_ANY:PMC1''\<rparr> else s)"
  by (auto simp: check_pmc_def)

lemma initialize_likwid_run:
  assumes "initialize_likwid p c s = (s', Inr u)" "\<not> likwid_ready s"
    and "amd_estr s = ''DISPATCH_STALLS:PMC0''" "intel_estr s = ''RESOURCE_STALLS_ANY:PMC0''"
  shows "pmu_calls s' = pmu_calls s @ start_calls c p (monitored_core p c) (gid s')"
    and "likwid_ready s'" "info s' = Some (is_intel p)" "is_intel p \<in> {0, 1}"
    and "cpus s' = Cpus [monitored_core p c]" "active_cpus s' = 1" "0 \<le> gid s'"
proof -
  obtain a b d e f h i where chain: "check_pmc c s = (a, Inr ())" "read_topology p a = (b, Inr ())"
    "select_cpus p c b = (d, Inr ())"
    "pmu_require p (Perfmon_init (active_cpus d) (cpu_list d)) [Topology_finalize] d = (e, Inr ())"
    "add_events p e = (f, Inr ())"
    "pmu_require p (Setup_counters (gid f)) [Perfmon_finalize, Topology_finalize] f = (h, Inr ())"
    "pmu_require p Start_counters [Perfmon_finalize, Topology_finalize] h = (i, Inr ())"
    "s' = i\<lparr>likwid_ready := True\<rparr>"
    using assms(1,2) by (simp add: initialize_likwid_def then_step_Inr_iff) blast
  note eqs = chain(1,3,4,6,7) [unfolded counting_simps] chain(8)
  from chain(2) have b: "b = a\<lparr>pmu_calls := pmu_calls a @ [Topology_init, Affinity_init],
       err := pmu_status p (pmu_calls a) Topology_init, info := Some (is_intel p),
       ncpus := hw_threads p, nnodes := numa_nodes p,
       ncpus_per_node := hw_threads p sdiv numa_nodes p, active_cpus := 1\<rparr>"
    by (simp only: read_topology_Inr)
  have a: "pmu_calls a = pmu_calls s" "intel_estr a = (if pmc_value c = 1 then ''RESOURCE_STALLS_ANY:PMC1'' else ''RESOURCE_STALLS_ANY:PMC0'')"
    "amd_estr a = (if pmc_value c = 1 then ''DISPATCH_STALLS:PMC1'' else ''DISPATCH_STALLS:PMC0'')"
    using eqs(1) assms(3,4) by simp_all
  have e: "info e = Some (is_intel p)" "intel_estr e = intel_estr a" "amd_estr e = amd_estr a"
    "cpus e = Cpus [monitored_core p c]" "active_cpus e = 1"
    "pmu_calls e = pmu_calls s @ [Topology_init, Affinity_init, Perfmon_init 1 [monitored_core p c]]"
    using eqs(2,3) by (simp_all add: b a(1) cpu_list_def)
  have f: "pmu_calls f = pmu_calls e @ [Add_event_set (chosen_events c (is_intel p))]"
    "info f = info e" "cpus f = cpus e" "active_cpus f = active_cpus e" "0 \<le> gid f" "is_intel p \<in> {0, 1}"
    using chain(5) unfolding add_events_Inr Let_def e by (auto simp: chosen_events_def a e)
  show "pmu_calls s' = pmu_calls s @ start_calls c p (monitored_core p c) (gid s')"
    "likwid_ready s'" "info s' = Some (is_intel p)" "is_intel p \<in> {0, 1}"
    "cpus s' = Cpus [monitored_core p c]" "active_cpus s' = 1" "0 \<le> gid s'"
    using eqs(4,5,6) f e by (simp_all add: start_calls_def)
qed

text \<open>Once started, starting again does nothing.\<close>

lemma initialize_likwid_again: "likwid_ready s \<Longrightarrow> initialize_likwid p c s = (s, Inr ())"
  by (simp add: initialize_likwid_def)

lemma stop_all_counters_run:
  assumes "stop_all_counters p s = (s', Inr u)"
  shows "pmu_calls s' = pmu_calls s @ [Stop_counters, Perfmon_finalize, Affinity_finalize, Topology_finalize]"
    and "likwid_ready s' = likwid_ready s"
  using assms
  by (auto simp: stop_all_counters_def then_step_Inr_iff counting_simps pmu_do_def split: if_splits)

section \<open>The order of likwid's calls\<close>

text \<open>The states of likwid's modules, and the calls that each of them allows.\<close>

datatype phase = Off | Topology | Monitoring | Grouped | Set_up | Running

definition go :: "phase list \<Rightarrow> phase \<Rightarrow> phase \<Rightarrow> phase option" where
  "go from to ph = (if ph \<in> set from then Some to else None)"

fun next_phase :: "phase \<Rightarrow> pmu_call \<Rightarrow> phase option" where
  "next_phase ph Topology_init = go [Off] Topology ph"
| "next_phase ph Affinity_init = go [Topology] Topology ph"
| "next_phase ph (Perfmon_init n is) = go [Topology] Monitoring ph"
| "next_phase ph (Add_event_set es) = go [Monitoring] Grouped ph"
| "next_phase ph (Setup_counters g) = go [Grouped] Set_up ph"
| "next_phase ph Start_counters = go [Set_up] Running ph"
| "next_phase ph Stop_counters = go [Running] Set_up ph"
| "next_phase ph (Get_result g i j) = go [Set_up] Set_up ph"
| "next_phase ph Perfmon_finalize = go [Monitoring, Grouped, Set_up] Topology ph"
| "next_phase ph Affinity_finalize = go [Topology] Topology ph"
| "next_phase ph Topology_finalize = go [Topology] Off ph"
| "next_phase ph Read_tsc = Some ph"
| "next_phase ph (Read_pmc n) = Some ph"
| "next_phase ph (Usleep n) = Some ph"

fun protocol :: "phase \<Rightarrow> pmu_call list \<Rightarrow> phase option" where
  "protocol ph [] = Some ph"
| "protocol ph (c # cs) = (case next_phase ph c of None \<Rightarrow> None | Some ph' \<Rightarrow> protocol ph' cs)"

lemma protocol_append:
  "protocol ph (cs @ ds) = (case protocol ph cs of None \<Rightarrow> None | Some ph' \<Rightarrow> protocol ph' ds)"
  by (induction ph cs rule: protocol.induct) (auto split: option.splits)

lemma protocol_sample [simp]: "protocol Running (sample_calls g) = Some Running"
  by (simp add: sample_calls_def go_def)

lemma protocol_replicate: "protocol ph cs = Some ph \<Longrightarrow> protocol ph (concat (replicate n cs)) = Some ph"
  by (induction n) (simp_all add: protocol_append)

text \<open>What a process does with the counters: start them, then take rates in any order.\<close>

inductive session :: "pmu \<Rightarrow> settings \<Rightarrow> counters \<Rightarrow> counters \<Rightarrow> bool" for p c where
  started: "initialize_likwid p c s = (s', Inr u) \<Longrightarrow> session p c s s'"
| started_again: "session p c s s1 \<Longrightarrow> initialize_likwid p c s1 = (s2, Inr u) \<Longrightarrow> session p c s s2"
| sampled: "session p c s s1 \<Longrightarrow> get_stall_rate_v2 p s1 = (s2, Inr r) \<Longrightarrow> session p c s s2"
| elapsed: "session p c s s1 \<Longrightarrow> get_elapsed_stall_rate p s1 = (s2, Inr r) \<Longrightarrow> session p c s s2"
| averaged: "session p c s s1 \<Longrightarrow> get_average_stall_rate p n usec k s1 = (s2, Inr r) \<Longrightarrow> session p c s s2"

definition fresh :: "counters \<Rightarrow> bool" where
  "fresh s \<longleftrightarrow> \<not> likwid_ready s \<and> pmu_calls s = [] \<and>
     amd_estr s = ''DISPATCH_STALLS:PMC0'' \<and> intel_estr s = ''RESOURCE_STALLS_ANY:PMC0''"

definition counting_inv :: "pmu \<Rightarrow> settings \<Rightarrow> counters \<Rightarrow> bool" where
  "counting_inv p c s \<longleftrightarrow>
     likwid_ready s \<and> protocol Off (pmu_calls s) = Some Running \<and>
     info s = Some (is_intel p) \<and> is_intel p \<in> {0, 1} \<and>
     cpus s = Cpus [monitored_core p c] \<and> active_cpus s = 1 \<and> 0 \<le> gid s"

lemma counting_inv_extend:
  "counting_inv p c s \<Longrightarrow> same_setup s s' \<Longrightarrow> pmu_calls s' = pmu_calls s @ cs
     \<Longrightarrow> protocol Running cs = Some Running \<Longrightarrow> counting_inv p c s'"
  by (simp add: counting_inv_def same_setup_def protocol_append)

lemma counting_inv_started:
  assumes "initialize_likwid p c s = (s', Inr u)" "fresh s"
  shows "counting_inv p c s'"
proof -
  note run = initialize_likwid_run [OF assms(1)]
  have "pmu_calls s' = start_calls c p (monitored_core p c) (gid s')"
    using run(1) assms(2) by (simp add: fresh_def)
  then have "protocol Off (pmu_calls s') = Some Running" by (simp add: start_calls_def go_def)
  with run(2-7) assms(2) show ?thesis by (simp add: counting_inv_def fresh_def)
qed

lemma session_inv: "session p c s s' \<Longrightarrow> fresh s \<Longrightarrow> counting_inv p c s'"
proof (induction rule: session.induct)
  case (started s s' u)
  then show ?case by (rule counting_inv_started)
next
  case (started_again s s1 s2 u)
  then have "s2 = s1" using initialize_likwid_again [of s1 p c] by (simp add: counting_inv_def)
  with started_again show ?case by simp
next
  case (sampled s s1 s2 r)
  with get_stall_rate_v2_run [of p s1 s2 r] show ?case by (auto intro: counting_inv_extend)
next
  case (elapsed s s1 s2 r)
  with get_elapsed_stall_rate_run [of p s1 s2 r] show ?case by (auto intro: counting_inv_extend)
next
  case (averaged s s1 n usec k s2 r)
  note run = get_average_stall_rate_run [OF averaged(2)]
  have "protocol Running (sample_calls (gid s1) @ [Usleep usec]) = Some Running"
    by (simp add: protocol_append)
  from protocol_replicate [OF this, of "n + 1"] averaged.IH [OF averaged.prems] run(1,2)
  show ?case by (auto intro: counting_inv_extend)
qed


section \<open>Ticks\<close>

text \<open>What rdtsc leaves in its two registers when the counter stands at \<open>t\<close>.\<close>

definition halves_of :: "nat \<Rightarrow> 32 word \<times> 32 word" where
  "halves_of t = (of_nat (t div 2 ^ 32), of_nat t)"

lemma join_halves_of: "join_halves (halves_of t) = of_nat t"
proof -
  have "unat (join_halves (halves_of t)) = (t div 2 ^ 32 mod 2 ^ 32) * 2 ^ 32 + t mod 2 ^ 32"
    unfolding join_halves_def halves_of_def prod.case unat_join by (simp add: unat_of_nat)
  also have "\<dots> = t mod (2 ^ 32 * 2 ^ 32)" by (simp only: mod_mult2_eq) (simp add: mult.commute)
  also have "\<dots> = unat (of_nat t :: u64)" by (simp add: unat_of_nat)
  finally show ?thesis by (simp only: word_unat_eq_iff)
qed

section \<open>Properties\<close>

text \<open>
  C13: what a session of the counters asks of likwid. However the process starts likwid and
  takes stall rates, as long as the calls return, likwid's modules are used in their order:
  every read of a counter happens between a stop and the next start, and the counters are
  running at the end; \<open>stop_all_counters\<close> then brings them down completely.
\<close>

theorem session_follows_protocol:
  assumes "session p c s s'" and "fresh s"
  shows "protocol Off (pmu_calls s') = Some Running \<and> likwid_ready s' \<and>
    (\<forall>s2 u. stop_all_counters p s' = (s2, Inr u) \<longrightarrow> protocol Off (pmu_calls s2) = Some Off)"
proof -
  from session_inv [OF assms] have inv: "counting_inv p c s'" .
  have "protocol Off (pmu_calls s2) = Some Off" if "stop_all_counters p s' = (s2, Inr u)" for s2 u
    using stop_all_counters_run(1) [OF that] inv by (simp add: counting_inv_def protocol_append go_def)
  with inv show ?thesis by (simp add: counting_inv_def)
qed

text \<open>A machine on which every call succeeds.\<close>

definition calm_pmu :: pmu where
  "calm_pmu =
     \<lparr>pmu_status = (\<lambda>_ _. 0), pmu_value = (\<lambda>cs. Fin (of_nat (length cs))),
      pmu_edx_eax = (\<lambda>cs. (0, of_nat (2 * length cs))), is_intel = 1, hw_threads = 8,
      apic_ids = [0, 1, 2, 3, 4, 5, 6, 7], numa_nodes = 2, cpus_allocated = True,
      log_opened = True, elapsed_log_opened = True\<rparr>"

definition plain_settings :: settings where
  "plain_settings = \<lparr>monitoring_core = False, monitoring_core_value = 0, pmc_value = 0\<rparr>"

lemma fresh_initial [simp]: "fresh initial_counters"
  by (simp add: fresh_def initial_counters_def)

lemmas concrete_counting = initialize_likwid_def check_pmc_def read_topology_def select_cpus_def
  cpu_list_def add_events_def pmu_require_eq pmu_do_def step_simps then_step_def calm_pmu_def
  plain_settings_def initial_counters_def

lemma calm_start: "snd (initialize_likwid calm_pmu plain_settings initial_counters) = Inr ()"
  by (simp add: concrete_counting)

lemma calm_session: "session calm_pmu plain_settings initial_counters
    (fst (initialize_likwid calm_pmu plain_settings initial_counters))"
  by (rule session.started [where u = "()"]) (simp add: prod_eq_iff calm_start)

lemma session_follows_protocol_witness:
  "protocol Off (pmu_calls (fst (initialize_likwid calm_pmu plain_settings initial_counters))) = Some Running"
  using session_follows_protocol [OF calm_session fresh_initial] by blast

text \<open>
  A start of likwid that returns made six calls, for one CPU: the chosen core or the first
  of the thread pool, and the stall event of the chosen counter for Intel or AMD; and the
  counters then run.
\<close>

theorem initialize_likwid_calls:
  assumes "fresh s" and "initialize_likwid p c s = (s', Inr u)"
  shows "is_intel p \<in> {0, 1} \<and> 0 \<le> gid s' \<and>
    pmu_calls s' =
      [Topology_init, Affinity_init, Perfmon_init 1 [monitored_core p c],
       Add_event_set (chosen_events c (is_intel p)), Setup_counters (gid s'), Start_counters]"
  using initialize_likwid_run [OF assms(2)] assms(1) by (simp add: fresh_def start_calls_def)

lemma initialize_likwid_calls_witness:
  "pmu_calls (fst (initialize_likwid calm_pmu plain_settings initial_counters)) =
     [Topology_init, Affinity_init, Perfmon_init 1 [0], Add_event_set ''RESOURCE_STALLS_ANY:PMC0'',
      Setup_counters 0, Start_counters]"
proof -
  let ?s = "fst (initialize_likwid calm_pmu plain_settings initial_counters)"
  have "gid ?s = 0" by (simp add: concrete_counting)
  moreover have "monitored_core calm_pmu plain_settings = 0"
    "chosen_events plain_settings (is_intel calm_pmu) = ''RESOURCE_STALLS_ANY:PMC0''"
    by (simp_all add: monitored_core_def chosen_events_def calm_pmu_def plain_settings_def)
  moreover have "initialize_likwid calm_pmu plain_settings initial_counters = (?s, Inr ())"
    by (simp add: prod_eq_iff calm_start)
  ultimately show ?thesis using initialize_likwid_calls [OF fresh_initial] by metis
qed

text \<open>
  Before \<open>initialize_likwid\<close> no stall rate can be had: each of the functions exits, or
  reads through the null pointer \<open>info\<close>.
\<close>

theorem no_rate_before_likwid:
  assumes "info s = None"
  shows "isl (snd (get_stall_rate_v2 p s)) \<and> isl (snd (get_elapsed_stall_rate p s)) \<and>
    isl (snd (get_average_stall_rate p n usec k s))"
proof -
  have stop: "isl (snd (then_step (pmu_require p Stop_counters cleanup)
      (\<lambda>_. then_step (read_stalls p) rest) s))" for cleanup rest
    using assms by (auto simp: then_step_def pmu_require_eq Let_def read_stalls_def)
  then have "isl (snd (get_stall_rate_v2 p s))" "isl (snd (get_elapsed_stall_rate p s))"
    by (simp_all only: get_stall_rate_v2_def get_elapsed_stall_rate_def)
  then show ?thesis by (simp add: get_average_stall_rate_def isl_then_step)
qed

lemma no_rate_before_likwid_witness:
  "isl (snd (get_average_stall_rate calm_pmu 20 200000 5 initial_counters))"
  using no_rate_before_likwid [of initial_counters] by (simp add: initial_counters_def)


text \<open>
  The clock of a stall rate. Reading the time stamp counter at \<open>t0\<close> and then at \<open>t1\<close>,
  less than \<open>2 ^ 64\<close> ticks later, the rate is the difference of the stalls over the ticks
  between the reads, also when the 64-bit counter wrapped around.
\<close>

theorem rate_over_ticks:
  assumes "t0 \<le> t1" and "t1 - t0 < 2 ^ 64"
  shows "rate_between (x, join_halves (halves_of t0)) (y, join_halves (halves_of t1)) =
    fp_div binary64 (fp_sub binary64 y x) (fp_of_int binary64 (int (t1 - t0)))"
proof -
  have "(of_nat t1 :: u64) - of_nat t0 = of_nat (t1 - t0)" using assms(1) by (simp add: of_nat_diff)
  moreover have "uint (of_nat (t1 - t0) :: u64) = int (t1 - t0)"
    using assms(2) by (simp add: unsigned_of_nat take_bit_nat_eq_self)
  ultimately show ?thesis by (simp only: rate_between_def join_halves_of fst_conv snd_conv)
qed

lemma rate_over_ticks_witness:
  "rate_between (Fin 100, join_halves (halves_of (2 ^ 64 - 1))) (Fin 108, join_halves (halves_of (2 ^ 64 + 15))) =
     Fin (1 / 2)"
proof -
  have "fp_of_rat binary64 (1 / 2) = Fin (1 / 2)" by (simp add: exact_fp)
  then show ?thesis
    using rate_over_ticks [of "2 ^ 64 - 1" "2 ^ 64 + 15" "Fin 100" "Fin 108"]
    by (simp add: fp_sub_def fp_of_int_def exact_fp)
qed

end
