(* ===== verification/Modes.thy ===== *)
theory Modes
  imports Placement_Tiling Page_Moves Perf_Counters Segment_Live
begin

text \<open>
  The modes of src/unstickymem/mode/ and include/unstickymem/mode/: the registry, the callbacks
  with which a mode hears of new and removed segments, what the modes do when they are
  started, and their threads. A thread is run alone; the list of segments that it finds at
  its n-th look, which other threads may have changed since, is an argument of its
  definition.
\<close>

section \<open>State of the process\<close>

record 'b process =
  numa :: "'b world"
  counting :: counters
  MEM_INIT :: int
  naps :: "nat list"              \<comment> \<open>the microseconds slept, one entry per call\<close>

type_synonym ('b, 'a) process_step = "('b process, 'a) run"

definition on_numa :: "('b, 'a) step \<Rightarrow> ('b, 'a) process_step" where
  "on_numa f s = (case f (numa s) of (g, r) \<Rightarrow> (s\<lparr>numa := g\<rparr>, r))"

definition on_counters :: "(counters, 'a) run \<Rightarrow> ('b, 'a) process_step" where
  "on_counters f s = (case f (counting s) of (c, r) \<Rightarrow> (s\<lparr>counting := c\<rparr>, r))"

definition nap :: "nat \<Rightarrow> ('b, unit) process_step" where
  "nap usec s = (s\<lparr>naps := naps s @ [usec]\<rparr>, Inr ())"

section \<open>Registry\<close>

datatype mode_kind = Adaptive | Disabled | Fixed_ratio | Scan | Weighted_adaptive

fun mode_name :: "mode_kind \<Rightarrow> string" where
  "mode_name Adaptive = ''adaptive''"
| "mode_name Disabled = ''disabled''"
| "mode_name Fixed_ratio = ''fixed''"
| "mode_name Scan = ''scan''"
| "mode_name Weighted_adaptive = ''wadaptive''"

type_synonym registry = "string \<Rightarrow> mode_kind option"

definition registerMode :: "string \<Rightarrow> mode_kind \<Rightarrow> (registry, unit) run" where
  "registerMode name k r =
     (if r name \<noteq> None then (r, Inl (Aborted ''Mode already registered'')) else (r(name \<mapsto> k), Inr ()))"

definition getMode :: "registry \<Rightarrow> string \<Rightarrow> mode_kind result" where
  "getMode r name =
     (case r name of
        None \<Rightarrow> Inl (Aborted ''Please select one of the available modes :-)'')
      | Some k \<Rightarrow> Inr k)"

text \<open>The static registrars, in whatever order the program's initialisation runs them.\<close>

fun register_all :: "mode_kind list \<Rightarrow> (registry, unit) run" where
  "register_all [] = done_step ()"
| "register_all (k # ks) = then_step (registerMode (mode_name k) k) (\<lambda>_. register_all ks)"

section \<open>Callbacks\<close>

text \<open>
  \<open>processSegmentAddition\<close> of the scan and the weighted adaptive mode; that of the fixed ratio
  mode has an empty body and the other modes inherit one. No mode overrides
  \<open>processSegmentRemoval\<close>.
\<close>

definition place_new_segment :: "'b platform \<Rightarrow> memory_segment \<Rightarrow> ('b, unit) step" where
  "place_new_segment P s =
     (if 2 ^ 14 < segment_length s then place_pages_weighted_initial_segment P s else done_step ())"

definition ignore_segment :: "memory_segment \<Rightarrow> ('b, unit) step" where
  "ignore_segment s = done_step ()"

fun mode_hooks :: "'b platform \<Rightarrow> mode_kind \<Rightarrow> 'b world hooks" where
  "mode_hooks P Scan = \<lparr>on_addition = place_new_segment P, on_removal = ignore_segment\<rparr>"
| "mode_hooks P Weighted_adaptive = \<lparr>on_addition = place_new_segment P, on_removal = ignore_segment\<rparr>"
| "mode_hooks P k = \<lparr>on_addition = ignore_segment, on_removal = ignore_segment\<rparr>"

text \<open>\<open>place_all_pages_adaptive\<close> and \<open>place_all_pages\<close> without a map use the singleton's list.\<close>

definition place_pages_over ::
  "(memory_segment list \<Rightarrow> fp \<Rightarrow> ('b, unit) step) \<Rightarrow> 'b world memory_map \<Rightarrow> fp \<Rightarrow> ('b, unit) step" where
  "place_pages_over f m ratio = f (map snd (segments m)) ratio"

section \<open>Scan mode and the initial placement\<close>

text \<open>The loop over the segments that \<open>ScanMode::start\<close> and \<open>memInitThread\<close> run.\<close>

fun place_large_segments :: "'b platform \<Rightarrow> memory_segment list \<Rightarrow> ('b, unit) step" where
  "place_large_segments P [] = done_step ()"
| "place_large_segments P (s # ss) =
     then_step (if 2 ^ 14 < segment_length s then place_pages_weighted_initial_segment P s else done_step ())
       (\<lambda>_. place_large_segments P ss)"

definition scan_start :: "'b platform \<Rightarrow> memory_segment list \<Rightarrow> ('b, unit) step" where
  "scan_start P segs = place_large_segments P segs"

text \<open>
  \<open>memInitThread\<close>: place, sleep a second, until \<open>MEM_INIT\<close> is set. \<open>seen k\<close> is the value that
  the k-th test reads, \<open>segs k\<close> the list of the k-th turn. It may never end.
\<close>

partial_function (option) memInitThread ::
  "'b platform \<Rightarrow> (nat \<Rightarrow> int) \<Rightarrow> (nat \<Rightarrow> memory_segment list) \<Rightarrow> nat \<Rightarrow> 'b process \<Rightarrow>
    ('b process \<times> unit result) option" where
  "memInitThread P seen segs k s =
     (if seen k \<noteq> 0 then Some (s, Inr ())
      else case on_numa (place_large_segments P (segs k)) s of
        (s1, Inl e) \<Rightarrow> Some (s1, Inl e)
      | (s1, Inr _) \<Rightarrow> memInitThread P seen segs (k + 1) (fst (nap 1000000 s1)))"

section \<open>Weighted adaptive mode\<close>

record my_shared_memory =
  pageAlignedStartAddress :: addr
  pageAlignedLength :: u64
  processID :: int

text \<open>
  The list of segments larger than 1 MiB in shared memory. \<open>room n\<close>: does a vector of \<open>n\<close>
  elements fit into the 65536 bytes; if not, the exception ends the process.
\<close>

fun share_segments ::
  "'b platform \<Rightarrow> (nat \<Rightarrow> bool) \<Rightarrow> int \<Rightarrow> memory_segment list \<Rightarrow> my_shared_memory list \<Rightarrow>
    my_shared_memory list result" where
  "share_segments P room pid [] v = Inr v"
| "share_segments P room pid (s # ss) v =
     (if 2 ^ 20 < segment_length s
      then
        if room (length v + 1)
        then share_segments P room pid ss
          (v @ [\<lparr>pageAlignedStartAddress = page_aligned_start (sys_page_size P) s,
                 pageAlignedLength = page_aligned_length (sys_page_size P) s, processID = pid\<rparr>])
        else Inl (Aborted ''terminate: boost::interprocess::bad_alloc'')
      else share_segments P room pid ss v)"

definition weighted_adaptiveThread ::
  "'b platform \<Rightarrow> (nat \<Rightarrow> bool) \<Rightarrow> int \<Rightarrow> memory_segment list \<Rightarrow> my_shared_memory list result" where
  "weighted_adaptiveThread P room pid segs = share_segments P room pid segs []"

definition weighted_adaptive_start ::
  "'b platform \<Rightarrow> (nat \<Rightarrow> bool) \<Rightarrow> int \<Rightarrow> memory_segment list \<Rightarrow> ('b, my_shared_memory list) process_step" where
  "weighted_adaptive_start P room pid segs s =
     (s\<lparr>MEM_INIT := 1\<rparr>, weighted_adaptiveThread P room pid segs)"

section \<open>Adaptive mode\<close>

record mode_options =
  wait_start :: nat
  num_polls :: nat
  num_poll_outliers :: nat
  poll_sleep :: nat

definition ADAPTATION_STEP :: nat where
  "ADAPTATION_STEP = 10"

text \<open>\<open>std::min(a, b)\<close> and the tolerance of one in a thousand.\<close>

definition fp_min :: "fp \<Rightarrow> fp \<Rightarrow> fp" where
  "fp_min a b = (if fp_less b a then b else a)"

definition worse_than :: "fp \<Rightarrow> fp \<Rightarrow> bool" where
  "worse_than rate best = fp_less (fp_mul binary64 best (fp_of_rat binary64 (1001 / 1000))) rate"

definition first_percentage :: "int \<Rightarrow> nat" where
  "first_percentage nodes = nat (100 div nodes + 4) div 5 * 5"

definition percentage_ratio :: "nat \<Rightarrow> fp" where
  "percentage_ratio pct = fp_div binary64 (fp_of_int binary64 (int pct)) (fp_of_int binary64 100)"

text \<open>\<open>unsigned int\<close> products.\<close>

definition twice :: "nat \<Rightarrow> nat" where
  "twice n = n * 2 mod 2 ^ 32"

text \<open>One placement and its measurement: ratio \<open>r\<close>, at the k-th look at the list.\<close>

definition try_ratio ::
  "'b platform \<Rightarrow> pmu \<Rightarrow> mode_options \<Rightarrow> memory_segment list \<Rightarrow> fp \<Rightarrow> ('b, fp) process_step" where
  "try_ratio P p opt segs r =
     then_step (on_numa (place_all_pages_adaptive P segs r)) (\<lambda>_.
     then_step (nap 200000) (\<lambda>_.
     then_step (on_counters (unstickymem_log_ratio p r)) (\<lambda>_.
     then_step (on_counters (get_average_stall_rate p (num_polls opt) (poll_sleep opt) (num_poll_outliers opt))) (\<lambda>rate.
     then_step (on_counters (unstickymem_log p r rate)) (\<lambda>_.
       done_step rate)))))"

text \<open>Is a worse rate confirmed by twice as many measurements?\<close>

definition confirm_worse :: "pmu \<Rightarrow> mode_options \<Rightarrow> fp \<Rightarrow> fp \<Rightarrow> ('b, bool) process_step" where
  "confirm_worse p opt rate best =
     (if worse_than rate best
      then then_step (on_counters (get_average_stall_rate p (twice (num_polls opt)) (poll_sleep opt)
             (twice (num_poll_outliers opt)))) (\<lambda>again. done_step (worse_than again best))
      else done_step False)"

text \<open>The result: the ratio of the last placement and the best rate measured.\<close>

function adaptive_loop ::
  "'b platform \<Rightarrow> pmu \<Rightarrow> mode_options \<Rightarrow> (nat \<Rightarrow> memory_segment list) \<Rightarrow> nat \<Rightarrow> nat \<Rightarrow> fp \<Rightarrow> fp \<Rightarrow>
    ('b, fp \<times> fp) process_step" where
  "adaptive_loop P p opt segs k pct ratio best =
     (if 100 < pct then done_step (ratio, best)
      else if pct mod 10 = 0 \<and> pct \<noteq> 100
      then adaptive_loop P p opt segs k (pct + ADAPTATION_STEP) ratio best
      else
        then_step (try_ratio P p opt (segs k) (percentage_ratio pct)) (\<lambda>rate.
          let best' = fp_min best rate
          in then_step (confirm_worse p opt rate best') (\<lambda>stop.
            if stop then done_step (percentage_ratio pct, best')
            else adaptive_loop P p opt segs (k + 1) (pct + ADAPTATION_STEP) (percentage_ratio pct) best')))"
  by pat_completeness auto
termination
  by (relation "measure (\<lambda>(P, p, opt, segs, k, pct, ratio, best). 101 - pct)")
    (auto simp: ADAPTATION_STEP_def)

declare adaptive_loop.simps [simp del]

definition adaptiveThread ::
  "'b platform \<Rightarrow> pmu \<Rightarrow> mode_options \<Rightarrow> (nat \<Rightarrow> memory_segment list) \<Rightarrow> ('b, fp \<times> fp) process_step" where
  "adaptiveThread P p opt segs =
     then_step (on_counters (get_stall_rate_v2 p)) (\<lambda>_.
     then_step (on_counters (get_elapsed_stall_rate p)) (\<lambda>_.
     then_step (nap (wait_start opt * 1000000)) (\<lambda>_.
       adaptive_loop P p opt segs 0 (first_percentage (configured_nodes P))
         (fp_div binary64 (Fin 1) (fp_of_int binary64 (configured_nodes P))) PInf)))"

section \<open>Fixed ratio mode\<close>

text \<open>The thread ends itself at the end of the first turn of its endless loop.\<close>

definition pollerThread ::
  "'b platform \<Rightarrow> pmu \<Rightarrow> mode_options \<Rightarrow> memory_segment list \<Rightarrow> fp \<Rightarrow> ('b, unit) process_step" where
  "pollerThread P p opt segs ratio =
     then_step (on_numa (place_all_pages_adaptive P segs ratio)) (\<lambda>_.
     then_step (on_counters (unstickymem_log_ratio p ratio)) (\<lambda>_.
     then_step (nap 200000) (\<lambda>_.
     then_step (on_counters (get_average_stall_rate p (num_polls opt) (poll_sleep opt) (num_poll_outliers opt))) (\<lambda>rate.
       on_counters (unstickymem_log p ratio rate)))))"

end
