(* ===== verification/Weighted_Shares.thy ===== *)
theory Weighted_Shares
  imports Placement_Tiling
begin

text \<open>
  What the weighted interleave is for: each node receives its weight's share of the region.
  The amounts are computed in \<open>float\<close>, so the shares hold up to rounding to whole pages and
  to a relative error of \<open>2 powi (-20)\<close> of the region. The node records are sorted by
  weight, as \<open>read_weights\<close> leaves them.
\<close>

section \<open>The amount of one turn\<close>

text \<open>A weight or a difference of weights that is not lost in the arithmetic.\<close>

definition sizeable :: "rat \<Rightarrow> bool" where
  "sizeable d \<longleftrightarrow> d = 0 \<or> pow2 (-20) \<le> d"

lemma size_float:
  assumes "unat (sz :: u64) \<le> 2 ^ 47"
  obtains s where "fp_of_int binary32 (uint sz) = Fin s" "0 \<le> s" "s \<le> pow2 47" "s = 0 \<or> 1 \<le> s"
    "within_roundings (unit_roundoff binary32) 1 s (of_nat (unat sz))"
proof -
  define S where "S = (of_nat (unat sz) :: rat)"
  have "S \<le> of_nat (2 ^ 47)" using assms unfolding S_def by (simp only: of_nat_le_iff)
  also have "\<dots> = pow2 47" using pow2_of_nat [of 47] by simp
  finally have S47: "S \<le> pow2 47" .
  have "0 \<le> S" unfolding S_def by (rule of_nat_0_le_iff)
  note S = this S47
  have int: "(of_int (uint sz) :: rat) = S" by (simp add: S_def)
  have fin: "fp_of_int binary32 (uint sz) = Fin (round_rat binary32 S)" "round_rat binary32 S \<le> pow2 47"
    unfolding fp_of_int_def int
    using fp_of_rat_bounded [of S 47 binary32] S by (auto simp: binary32_def)
  have S01: "S = 0 \<or> 1 \<le> S" by (cases "unat sz") (auto simp: S_def)
  have one: "round_rat binary32 1 = 1"
    using round_rat_pow2 [of binary32 0] by (simp add: binary32_def)
  have "round_rat binary32 S = 0 \<or> 1 \<le> round_rat binary32 S"
    using S01 b32.rnd_ge_fixed [OF _ one] by (auto simp: b32.rnd_zero)
  moreover have "pow2 (-126) \<le> pow2 0" by (simp only: pow2_le_iff)
  then have "within_roundings (unit_roundoff binary32) 1 (round_rat binary32 S) S"
    using S S01 by (intro b32.rnd_within) auto
  ultimately show thesis
    using that fin b32.rnd_nonneg [OF S(1)] by (simp add: S_def)
qed

lemma weight_difference:
  assumes "percentage w'" "percentage w" "w' \<le> w" "sizeable (w - w')"
  obtains d where "fp_sub binary32 (Fin w) (Fin w') = Fin d" "0 \<le> d" "d \<le> pow2 7"
    "d = 0 \<or> 100 * pow2 (-126) \<le> d" "within_roundings (unit_roundoff binary32) 1 d (w - w')"
proof -
  let ?d = "w - w'" and ?R = "round_rat binary32"
  have d: "0 \<le> ?d" "\<bar>?d\<bar> \<le> pow2 7"
    using assms(1-3) by (auto simp: percentage_def pow2_def)
  have fin: "fp_sub binary32 (Fin w) (Fin w') = Fin (?R ?d)" "\<bar>?R ?d\<bar> \<le> pow2 7"
    using fp_of_rat_bounded [of ?d 7 binary32] d(2) by (simp_all add: fp_sub_def binary32_def)
  have fix20: "?R (pow2 (-20)) = pow2 (-20)" by (rule round_rat_pow2) (simp_all add: binary32_def)
  have "100 * pow2 (-126) \<le> pow2 7 * pow2 (-126)"
    by (intro mult_right_mono) (simp_all add: pow2_def)
  also have "\<dots> \<le> pow2 (-20)" by (simp flip: pow2_add)
  finally have small: "100 * pow2 (-126) \<le> pow2 (-20)" .
  have "?R ?d = 0 \<or> 100 * pow2 (-126) \<le> ?R ?d"
  proof (cases "?d = 0")
    case False
    with assms(4) b32.rnd_ge_fixed [OF _ fix20, of ?d] have "pow2 (-20) \<le> ?R ?d"
      by (simp add: sizeable_def)
    with small show ?thesis by linarith
  qed (simp add: b32.rnd_zero)
  moreover have "pow2 (-126) \<le> pow2 (-20)" by simp
  then have "?d = 0 \<or> pow2 (-126) \<le> ?d" using assms(4) unfolding sizeable_def by linarith
  then have "within_roundings (unit_roundoff binary32) 1 (?R ?d) ?d"
    using d by (intro b32.rnd_within) simp_all
  ultimately show thesis
    using that fin b32.rnd_nonneg [OF d(1)] by auto
qed

definition share_error :: "nat \<Rightarrow> rat" where
  "share_error len = of_nat len / 2 ^ 20"

text \<open>The amount is the exact share of the size, up to the error and the truncation.\<close>

lemma weighted_size_share:
  assumes w: "percentage w'" "percentage w" "w' \<le> w" "sizeable (w - w')"
    and c: "c = 1 \<or> c = 2" and sz: "unat sz \<le> 2 ^ 47"
  obtains t where "weighted_size c (fp_sub binary32 (Fin w) (Fin w')) sz = Inr t"
    "of_nat (unat t) \<le> of_nat c * ((w - w') / 100) * of_nat (unat sz) + share_error (unat sz)"
    "of_nat c * ((w - w') / 100) * of_nat (unat sz) - share_error (unat sz) - 1 \<le> of_nat (unat t)"
proof -
  let ?R = "round_rat binary32" and ?u = "unit_roundoff binary32"
  define S where "S = (of_nat (unat sz) :: rat)"
  define e where "e = of_nat c * ((w - w') / 100) * S"
  obtain s where s: "fp_of_int binary32 (uint sz) = Fin s" "0 \<le> s" "s \<le> pow2 47" "s = 0 \<or> 1 \<le> s"
    "within_roundings ?u 1 s S"
    unfolding S_def by (rule size_float [OF sz])
  obtain d where d: "fp_sub binary32 (Fin w) (Fin w') = Fin d" "0 \<le> d" "d \<le> pow2 7"
    "d = 0 \<or> 100 * pow2 (-126) \<le> d" "within_roundings ?u 1 d (w - w')"
    by (rule weight_difference [OF w])
  define x where "x = ?R (?R (of_int (int c) * ?R (d / 100)) * s)"
  have c1: "int c = 1 \<or> int c = 2" using c by auto
  have size: "weighted_size c (fp_sub binary32 (Fin w) (Fin w')) sz = fp_to_u64 (Fin x)"
    unfolding weighted_size_def d(1) s(1)
    using fp_share [OF _ d(2,3) s(2,3) c1, of binary32] by (simp add: x_def)
  have S0: "0 \<le> S" unfolding S_def by (rule of_nat_0_le_iff)
  have dw: "0 \<le> w - w'" "w - w' \<le> 100" using w(1-3) by (auto simp: percentage_def)
  have fix126: "?R (pow2 (-126)) = pow2 (-126)" by (rule round_rat_pow2) (simp_all add: binary32_def)
  have within: "within_roundings ?u (1 + 1 + 3) x e"
    unfolding x_def e_def of_int_of_nat_eq using c
    by (intro b32.share_within [OF _ _ fix126 d(5) dw(1) d(4) s(5) S0 s(4)]) auto
  have e0: "0 \<le> e" using S0 dw c by (auto simp: e_def)
  have "e \<le> 2 * 1 * S"
    unfolding e_def using S0 dw c by (intro mult_mono) auto
  then have e2: "e \<le> 2 * S" by simp
  have "\<bar>x - e\<bar> \<le> ((1 + ?u) ^ (1 + 1 + 3) - 1) * e" by (rule b32.within_error [OF within e0])
  also have "\<dots> \<le> ((1 + ?u) ^ (1 + 1 + 3) - 1) * (2 * S)"
    using e2 by (intro mult_left_mono) (simp_all add: unit_roundoff_def)
  also have "\<dots> \<le> 1 / 2 ^ 21 * (2 * S)"
    using S0 by (intro mult_right_mono)
      (simp_all add: unit_roundoff_def binary32_def pow2_def power_int_def field_simps)
  finally have xe: "\<bar>x - e\<bar> \<le> share_error (unat sz)" by (simp add: share_error_def S_def)
  have x0: "0 \<le> x" by (rule b32.within_nonneg [OF within e0])
  have "S \<le> of_nat (2 ^ 47)" using sz unfolding S_def by (simp only: of_nat_le_iff)
  moreover have "share_error (unat sz) = S / 2 ^ 20" by (simp only: share_error_def S_def)
  then have "x \<le> e + S / 2 ^ 20" using xe by linarith
  ultimately have "x < 2 ^ 64" using e2 by simp
  then have fl: "0 \<le> \<lfloor>x\<rfloor>" "\<lfloor>x\<rfloor> < 2 ^ 64" using x0 by (simp_all add: floor_less_iff)
  then have "uint (of_int \<lfloor>x\<rfloor> :: u64) = \<lfloor>x\<rfloor>" by (simp add: unsigned_of_int take_bit_int_eq_self)
  then have "int (unat (of_int \<lfloor>x\<rfloor> :: u64)) = \<lfloor>x\<rfloor>" by simp
  then have "(of_nat (unat (of_int \<lfloor>x\<rfloor> :: u64)) :: rat) = of_int \<lfloor>x\<rfloor>" by (metis of_int_of_nat_eq)
  moreover have "weighted_size c (fp_sub binary32 (Fin w) (Fin w')) sz = Inr (of_int \<lfloor>x\<rfloor>)"
    using fl x0 by (simp add: size truncate_rat_def)
  moreover have "of_int \<lfloor>x\<rfloor> \<le> e + share_error (unat sz)" "e - share_error (unat sz) - 1 \<le> of_int \<lfloor>x\<rfloor>"
    using xe floor_correct [of x] by linarith+
  ultimately show thesis by (intro that [of "of_int \<lfloor>x\<rfloor>"]) (simp_all only: e_def S_def)
qed

section \<open>Two nodes\<close>

text \<open>The calls of a run that returns, for two records whose amounts are known.\<close>

lemma mbind_or_die_Inr:
  "mbind_or_die P c msg g = (g', Inr ()) \<longleftrightarrow>
     fst (kernel P (syscalls g) (Mbind c)) = 0 \<and> g' = g\<lparr>syscalls := syscalls g @ [Mbind c]\<rparr>"
  by (auto simp: mbind_or_die_eq die_if_def)

lemma optional_call_run:
  assumes "then_step (if m \<noteq> 0 then mbind_or_die P c msg else done_step ()) k g = (g', Inr u)"
  shows "\<exists>g1. issued g (if m \<noteq> 0 then [c] else []) g1 \<and> k () g1 = (g', Inr u)"
proof (cases "m = 0")
  case True
  with assms show ?thesis by (intro exI [of _ g]) (simp add: step_simps)
next
  case False
  obtain g1 r1 where c: "mbind_or_die P c msg g = (g1, r1)" by fastforce
  with assms False have "r1 = Inr ()" "k () g1 = (g', Inr u)"
    by (auto simp: then_step_def split: sum.splits)
  with False mbind_or_die_issued [OF c] show ?thesis by auto
qed

lemma weighted_loop_two:
  assumes "weighted_loop P len [x, y] a (Fin 0) 0 ns g = (g', Inr u)"
    and t: "weighted_size 2 (fp_sub binary32 (node_weight x) (Fin 0)) len = Inr t0"
      "weighted_size 1 (fp_sub binary32 (node_weight y) (node_weight x)) len = Inr t1"
    and m: "m0 = min (page_align_up (sys_page_size P) t0) len"
      "m1 = min (page_align_up (sys_page_size P) t1) (len - m0)"
    and ns': "ns' = (if mask_isset P ns (bit_index (node_id x))
      then mask_clearbit P ns (bit_index (node_id x)) else ns)"
    and c: "c0 = \<lparr>mb_addr = a, mb_len = m0, mb_policy = MPOL_INTERLEAVE, mb_mask = ns\<rparr>"
      "c1 = \<lparr>mb_addr = a + m0, mb_len = m1, mb_policy = MPOL_INTERLEAVE, mb_mask = ns'\<rparr>"
  shows "issued g (filter (\<lambda>c. mb_len c \<noteq> 0) [c0, c1]) g'"
proof (cases "len = 0")
  case True
  with assms(1) have "g' = g" by (simp add: step_simps)
  moreover have "m0 = 0" "m1 = 0" by (simp_all add: m True min_def)
  ultimately show ?thesis by (simp add: c)
next
  case False
  have t2: "weighted_size (length [x, y]) (fp_sub binary32 (node_weight x) (Fin 0)) len = Inr t0"
    "weighted_size (length [y]) (fp_sub binary32 (node_weight y) (node_weight x)) len = Inr t1"
    using t by (simp_all flip: numeral_2_eq_2)
  have m0: "m0 = min (page_align_up (sys_page_size P) t0) (len - 0)" by (simp add: m)
  from False have "(0 :: u64) \<noteq> len" by simp
  from assms(1) [unfolded weighted_loop_turn [OF this t2(1) m0 ns'], folded c]
  obtain g1 where g1: "issued g (if m0 \<noteq> 0 then [c0] else []) g1"
    "weighted_loop P len [y] (a + m0) (node_weight x) m0 ns' g1 = (g', Inr u)"
    by (auto dest: optional_call_run)
  show ?thesis
  proof (cases "m0 = len")
    case True
    with g1(2) have "g' = g1" by (simp add: step_simps)
    moreover have "m1 = 0" by (simp add: m(2) True min_def)
    ultimately show ?thesis using g1(1) by (simp add: c split: if_splits)
  next
    case ne: False
    from g1(2) [unfolded weighted_loop_turn [OF ne t2(2) m(2) refl], folded c]
    obtain g2 where "issued g1 (if m1 \<noteq> 0 then [c1] else []) g2" "g' = g2"
      by (auto dest!: optional_call_run simp: step_simps)
    with issued_trans [OF g1(1)] have "issued g ((if m0 \<noteq> 0 then [c0] else []) @ (if m1 \<noteq> 0 then [c1] else [])) g'"
      by blast
    then show ?thesis by (simp add: c split: if_splits)
  qed
qed

text \<open>Empty calls add nothing to a node's bytes.\<close>

lemma node_bytes_nonempty: "node_bytes P i (filter (\<lambda>c. mb_len c \<noteq> 0) cs) = node_bytes P i cs"
  by (induction cs) (auto simp: node_share_def)

text \<open>The rounded-up amount.\<close>

lemma page_align_up_rat:
  assumes "page_size_ok psz" "unat t + page_bytes psz \<le> 2 ^ 64"
  shows "(of_nat (unat t) :: rat) \<le> of_nat (unat (page_align_up psz t))"
    "(of_nat (unat (page_align_up psz t)) :: rat) \<le> of_nat (unat t) + of_nat (page_bytes psz)"
proof -
  have "unat t \<le> unat (page_align_up psz t)" "unat (page_align_up psz t) < unat t + page_bytes psz"
    using round_up_bounds [OF page_bytes_pos [OF assms(1)], of "unat t"] unat_page_align_up [OF assms]
    by simp_all
  then show "(of_nat (unat t) :: rat) \<le> of_nat (unat (page_align_up psz t))"
    "(of_nat (unat (page_align_up psz t)) :: rat) \<le> of_nat (unat t) + of_nat (page_bytes psz)"
    by (simp_all only: of_nat_le_iff less_imp_le flip: of_nat_add)
qed

lemma page_bytes_bound: "page_size_ok psz \<Longrightarrow> page_bytes psz \<le> 2 ^ 30"
proof -
  assume "page_size_ok psz"
  then obtain k where "k < 31" "psz = 2 ^ k" by (auto simp: page_size_ok_def)
  then show ?thesis using power_increasing [of k 30 "2 :: nat"] by (simp add: unat_pow2_int32)
qed

text \<open>The numbers of a region: its bytes, its pages and the error of a share, as rationals.\<close>

lemma region_numbers:
  assumes ur: "user_region psz a len"
  shows "0 \<le> (of_nat (unat len) :: rat)" "(of_nat (unat len) :: rat) \<le> 2 ^ 47"
    "share_error (unat len) = of_nat (unat len) / 2 ^ 20"
    "0 \<le> share_error (unat len)" "share_error (unat len) \<le> of_nat (unat len)"
    "1 \<le> (of_nat (page_bytes psz) :: rat)"
proof -
  note urd = user_regionD [OF ur]
  show S0: "0 \<le> (of_nat (unat len) :: rat)" by (rule of_nat_0_le_iff)
  have "(of_nat (unat len) :: rat) \<le> of_nat (2 ^ 47)" using urd(5) by (simp only: of_nat_le_iff)
  then show "(of_nat (unat len) :: rat) \<le> 2 ^ 47" by simp
  show r: "share_error (unat len) = of_nat (unat len) / 2 ^ 20" by (simp only: share_error_def)
  show "0 \<le> share_error (unat len)" "share_error (unat len) \<le> of_nat (unat len)"
    unfolding r using S0 by simp_all
  have "1 \<le> page_bytes psz" using page_bytes_pos [OF urd(1)] by simp
  then have "(of_nat 1 :: rat) \<le> of_nat (page_bytes psz)" by (simp only: of_nat_le_iff)
  then show "1 \<le> (of_nat (page_bytes psz) :: rat)" by simp
qed

lemma percentage_zero: "percentage 0"
  using representable_of_int [of 0 binary32] by (simp add: percentage_def binary32_def)

text \<open>The two sizes before they are rounded to pages.\<close>

lemma first_size:
  assumes "user_region psz a len" "percentage u" "sizeable u"
  obtains t where "weighted_size 2 (fp_sub binary32 (Fin u) (Fin 0)) len = Inr t"
    "of_nat (unat t) \<le> 2 * u / 100 * of_nat (unat len) + share_error (unat len)"
    "2 * u / 100 * of_nat (unat len) - share_error (unat len) - 1 \<le> of_nat (unat t)"
proof -
  have u0: "0 \<le> u" using assms(2) by (simp add: percentage_def)
  show thesis
    by (rule weighted_size_share [OF percentage_zero assms(2) u0 _ _ user_regionD(5) [OF assms(1)], of 2])
      (use that assms(3) in simp_all)
qed

lemma second_size:
  assumes "user_region psz a len" "percentage u" "percentage v" "u \<le> v" "sizeable (v - u)"
  obtains t where "weighted_size 1 (fp_sub binary32 (Fin v) (Fin u)) len = Inr t"
    "of_nat (unat t) \<le> (v - u) / 100 * of_nat (unat len) + share_error (unat len)"
    "(v - u) / 100 * of_nat (unat len) - share_error (unat len) - 1 \<le> of_nat (unat t)"
  by (rule weighted_size_share [OF assms(2-5) _ user_regionD(5) [OF assms(1)], of 1]) (use that in simp_all)

lemma two_sizes:
  assumes ur: "user_region psz a len"
    and w: "percentage u" "percentage v" "u \<le> v" "sizeable u" "sizeable (v - u)"
    and t: "weighted_size 2 (fp_sub binary32 (Fin u) (Fin 0)) len = Inr t0"
      "weighted_size 1 (fp_sub binary32 (Fin v) (Fin u)) len = Inr t1"
  shows "of_nat (unat t0) \<le> 2 * u / 100 * of_nat (unat len) + share_error (unat len)"
    "2 * u / 100 * of_nat (unat len) - share_error (unat len) - 1 \<le> of_nat (unat t0)"
    "of_nat (unat t1) \<le> (v - u) / 100 * of_nat (unat len) + share_error (unat len)"
    "(v - u) / 100 * of_nat (unat len) - share_error (unat len) - 1 \<le> of_nat (unat t1)"
  using t by (auto intro: first_size [OF ur w(1,4)] second_size [OF ur w(1-3,5)])

text \<open>Two weights whose sum is 100 up to the rounding: their ideal shares fill the region up to the error.\<close>

lemma two_ideal_shares:
  assumes w: "u \<le> v" "\<bar>u + v - 100\<bar> \<le> 1 / 2 ^ 14" and S: "0 \<le> S" and r: "r = S / 2 ^ 20"
  shows "2 * u / 100 * S \<le> S + r" "S - 2 * u / 100 * S - r \<le> (v - u) / 100 * S"
    "(v - u) / 100 * S \<le> S - 2 * u / 100 * S + (r :: rat)"
proof -
  have "2 * u \<le> 100 + 1 / 2 ^ 14" using w(1) abs_le_D1 [OF w(2)] by linarith
  then have "2 * u / 100 * S \<le> (100 + 1 / 2 ^ 14) / 100 * S" using S by (intro mult_right_mono) auto
  also have "\<dots> \<le> S + r" using S by (simp add: r field_simps)
  finally show "2 * u / 100 * S \<le> S + r" .
  define e where "e = (u + v - 100) / 100"
  have "\<bar>e\<bar> \<le> 1 / 2 ^ 20" using w(2) by (simp add: e_def abs_le_iff)
  then have "\<bar>e * S\<bar> \<le> 1 / 2 ^ 20 * S" using S unfolding abs_mult by (intro mult_mono) auto
  then have "e * S \<le> r" "- r \<le> e * S" unfolding r abs_le_iff by simp_all
  moreover have "(v - u) / 100 * S = S - 2 * u / 100 * S + e * S" by (simp add: e_def field_simps)
  ultimately show "S - 2 * u / 100 * S - r \<le> (v - u) / 100 * S"
    "(v - u) / 100 * S \<le> S - 2 * u / 100 * S + r" by linarith+
qed

lemma page_align_up_49:
  assumes "page_size_ok psz" "of_nat (unat t) \<le> (2 :: rat) ^ 49"
  shows "(of_nat (unat t) :: rat) \<le> of_nat (unat (page_align_up psz t))"
    "(of_nat (unat (page_align_up psz t)) :: rat) \<le> of_nat (unat t) + of_nat (page_bytes psz)"
proof -
  have "of_nat (unat t) \<le> (of_nat (2 ^ 49) :: rat)" using assms(2) by simp
  then have "unat t \<le> 2 ^ 49" by (simp only: of_nat_le_iff)
  then have "unat t + page_bytes psz \<le> 2 ^ 64" using page_bytes_bound [OF assms(1)] by simp
  note page_align_up_rat [OF assms(1) this]
  then show "(of_nat (unat t) :: rat) \<le> of_nat (unat (page_align_up psz t))"
    "(of_nat (unat (page_align_up psz t)) :: rat) \<le> of_nat (unat t) + of_nat (page_bytes psz)" .
qed

lemma min_word_rat: "(of_nat (unat (min x y)) :: rat) = min (of_nat (unat x)) (of_nat (unat (y :: u64)))"
  by (simp only: min_def word_le_nat_alt of_nat_le_iff if_distrib [of unat] if_distrib [of of_nat])

text \<open>The two lengths are the ideal ones up to whole pages and the error.\<close>

lemma two_lengths:
  assumes ur: "user_region psz a len"
    and w: "percentage u" "percentage v" "u \<le> v" "\<bar>u + v - 100\<bar> \<le> 1 / 2 ^ 14" "sizeable u" "sizeable (v - u)"
    and t: "weighted_size 2 (fp_sub binary32 (Fin u) (Fin 0)) len = Inr t0"
      "weighted_size 1 (fp_sub binary32 (Fin v) (Fin u)) len = Inr t1"
    and m: "m0 = min (page_align_up psz t0) len" "m1 = min (page_align_up psz t1) (len - m0)"
  shows "\<bar>of_nat (unat m0) - 2 * u / 100 * of_nat (unat len)\<bar> \<le> of_nat (page_bytes psz) + share_error (unat len)"
    "\<bar>of_nat (unat m1) - (v - u) / 100 * of_nat (unat len)\<bar> \<le> of_nat (page_bytes psz) + 2 * share_error (unat len)"
proof -
  note page = user_regionD(1) [OF ur]
  define S p r where "S = (of_nat (unat len) :: rat)" and "p = (of_nat (page_bytes psz) :: rat)"
    and "r = share_error (unat len)"
  note num = region_numbers [OF ur, folded S_def p_def r_def]
    and T = two_sizes [OF ur w(1-3,5,6) t, folded S_def r_def]
  note share = two_ideal_shares [OF w(3,4) num(1,3)]
  have u0: "0 \<le> 2 * u / 100 * S" using w(1) num(1) by (simp add: percentage_def)
  have "3 * S \<le> 2 ^ 49" using num(2) by simp
  then have small: "of_nat (unat t0) \<le> (2 :: rat) ^ 49" "of_nat (unat t1) \<le> (2 :: rat) ^ 49"
    using T share num(1,5) u0 by linarith+
  note up0 = page_align_up_49 [OF page small(1), folded p_def]
    and up1 = page_align_up_49 [OF page small(2), folded p_def]
  define M0 M1 where "M0 = (of_nat (unat m0) :: rat)" and "M1 = (of_nat (unat m1) :: rat)"
  have "m0 \<le> len" by (simp add: m(1))
  then have rest: "(of_nat (unat (len - m0)) :: rat) = S - M0"
    by (simp only: unat_diff_le S_def M0_def of_nat_diff word_le_nat_alt)
  have M0: "M0 = min (of_nat (unat (page_align_up psz t0))) S" by (simp only: M0_def m(1) min_word_rat S_def)
  have M1: "M1 = min (of_nat (unat (page_align_up psz t1))) (S - M0)" by (simp only: M1_def m(2) min_word_rat rest)
  have d0: "\<bar>M0 - 2 * u / 100 * S\<bar> \<le> p + r"
    using T(1,2) up0 share(1) num(4,6) unfolding M0 min_def by (auto simp: abs_le_iff)
  have d1: "\<bar>M1 - (v - u) / 100 * S\<bar> \<le> p + 2 * r"
    using T(3,4) up1 share(2,3) abs_le_D1 [OF d0] abs_le_D2 [OF d0] num(4,6) unfolding M1 abs_le_iff
    by (cases "of_nat (unat (page_align_up psz t1)) \<le> S - M0")
      (simp_all only: min_def if_True if_False; linarith)+
  from d0 d1 show "\<bar>of_nat (unat m0) - 2 * u / 100 * of_nat (unat len)\<bar> \<le> of_nat (page_bytes psz) + share_error (unat len)"
    "\<bar>of_nat (unat m1) - (v - u) / 100 * of_nat (unat len)\<bar> \<le> of_nat (page_bytes psz) + 2 * share_error (unat len)"
    by (simp_all only: M0_def M1_def S_def p_def r_def)
qed

section \<open>The shares of the nodes\<close>

text \<open>The masks of the two turns: both nodes, then only the heavier one.\<close>

lemma two_node_masks:
  assumes lib: "libnuma_ok P" and ids: "{node_id x, node_id y} = {0, 1}"
  defines "ns \<equiv> mask_setall P (mask_alloc P MAX_NODES)"
  shows "mask_nodes P ns = {0, 1}"
    "mask_nodes P (if mask_isset P ns (bit_index (node_id x)) then mask_clearbit P ns (bit_index (node_id x)) else ns) =
      {nat (node_id y)}"
    "nat (node_id x) \<in> {0, 1}" "nat (node_id y) \<in> {0, 1}" "nat (node_id x) \<noteq> nat (node_id y)"
proof -
  have id: "node_id x = 0 \<and> node_id y = 1 \<or> node_id x = 1 \<and> node_id y = 0"
    using ids by (auto simp: doubleton_eq_iff)
  show all: "mask_nodes P ns = {0, 1}" unfolding ns_def loop_masks(1) [OF lib] by (auto simp: MAX_NODES_def)
  show "mask_nodes P (if mask_isset P ns (bit_index (node_id x)) then mask_clearbit P ns (bit_index (node_id x)) else ns) =
      {nat (node_id y)}"
    unfolding ns_def mask_nodes_cleared [OF lib] all [unfolded ns_def] using id by (auto simp: bit_index_def)
  from id show "nat (node_id x) \<in> {0, 1}" "nat (node_id y) \<in> {0, 1}" "nat (node_id x) \<noteq> nat (node_id y)" by auto
qed

lemma loop_shares:
  assumes lib: "libnuma_ok P" and ur: "user_region (sys_page_size P) a len"
    and x: "node_weight x = Fin u" "node_weight y = Fin v" and ids: "{node_id x, node_id y} = {0, 1}"
    and w: "percentage u" "percentage v" "u \<le> v" "\<bar>u + v - 100\<bar> \<le> 1 / 2 ^ 14" "sizeable u" "sizeable (v - u)"
    and run: "weighted_loop P len [x, y] a (Fin 0) 0 (mask_setall P (mask_alloc P MAX_NODES)) g = (g', Inr ())"
  shows "\<bar>node_bytes P (nat (node_id x)) (mbinds (new_syscalls g g')) - u / 100 * of_nat (unat len)\<bar>
      \<le> of_nat (page_bytes (sys_page_size P)) + share_error (unat len)"
    "\<bar>node_bytes P (nat (node_id y)) (mbinds (new_syscalls g g')) - v / 100 * of_nat (unat len)\<bar>
      \<le> 2 * of_nat (page_bytes (sys_page_size P)) + 4 * share_error (unat len)"
proof -
  let ?ns = "mask_setall P (mask_alloc P MAX_NODES)"
  note urd = user_regionD [OF ur]
  obtain t0 where t0: "weighted_size 2 (fp_sub binary32 (Fin u) (Fin 0)) len = Inr t0"
    by (rule first_size [OF ur w(1,5)])
  obtain t1 where t1: "weighted_size 1 (fp_sub binary32 (Fin v) (Fin u)) len = Inr t1"
    by (rule second_size [OF ur w(1-3,6)])
  define m0 where "m0 = min (page_align_up (sys_page_size P) t0) len"
  define m1 where "m1 = min (page_align_up (sys_page_size P) t1) (len - m0)"
  define ns' where "ns' = (if mask_isset P ?ns (bit_index (node_id x))
    then mask_clearbit P ?ns (bit_index (node_id x)) else ?ns)"
  define c0 where "c0 = \<lparr>mb_addr = a, mb_len = m0, mb_policy = MPOL_INTERLEAVE, mb_mask = ?ns\<rparr>"
  define c1 where "c1 = \<lparr>mb_addr = a + m0, mb_len = m1, mb_policy = MPOL_INTERLEAVE, mb_mask = ns'\<rparr>"
  have "issued g (filter (\<lambda>c. mb_len c \<noteq> 0) [c0, c1]) g'"
    by (rule weighted_loop_two [OF run _ _ m0_def m1_def ns'_def c0_def c1_def]) (use t0 t1 x in simp_all)
  then have calls: "mbinds (new_syscalls g g') = filter (\<lambda>c. mb_len c \<noteq> 0) [c0, c1]"
    by (simp add: issued_def new_syscalls_def del: filter.simps)
  note masks = two_node_masks [OF lib ids, folded ns'_def]
  have bytes: "node_bytes P i (mbinds (new_syscalls g g')) = node_share P i c0 + node_share P i c1" for i
    unfolding calls node_bytes_nonempty by simp
  have bx: "node_bytes P (nat (node_id x)) (mbinds (new_syscalls g g')) = of_nat (unat m0) / 2"
    using masks by (auto simp: bytes node_share_def c0_def c1_def)
  have "card {0, 1 :: nat} = 2" by simp
  then have byy: "node_bytes P (nat (node_id y)) (mbinds (new_syscalls g g')) = of_nat (unat m0) / 2 + of_nat (unat m1)"
    using masks(1,2,4) by (simp add: bytes node_share_def c0_def c1_def)
  note len = two_lengths [OF ur w t0 t1 m0_def m1_def]
  define M0 M1 S p r where "M0 = (of_nat (unat m0) :: rat)" and "M1 = (of_nat (unat m1) :: rat)"
    and "S = (of_nat (unat len) :: rat)" and "p = (of_nat (page_bytes (sys_page_size P)) :: rat)"
    and "r = share_error (unat len)"
  have "0 \<le> p" unfolding p_def by (rule of_nat_0_le_iff)
  moreover have "0 \<le> r" unfolding r_def share_error_def by (intro divide_nonneg_nonneg of_nat_0_le_iff) simp
  moreover have "u / 100 * S = 2 * u / 100 * S / 2" "v / 100 * S = 2 * u / 100 * S / 2 + (v - u) / 100 * S"
    by (simp_all add: field_simps)
  ultimately have "\<bar>M0 / 2 - u / 100 * S\<bar> \<le> p + r" "\<bar>M0 / 2 + M1 - v / 100 * S\<bar> \<le> 2 * p + 4 * r"
    using len [folded M0_def M1_def S_def p_def r_def] by (simp_all only: abs_le_iff) linarith+
  then show "\<bar>node_bytes P (nat (node_id x)) (mbinds (new_syscalls g g')) - u / 100 * of_nat (unat len)\<bar>
      \<le> of_nat (page_bytes (sys_page_size P)) + share_error (unat len)"
    "\<bar>node_bytes P (nat (node_id y)) (mbinds (new_syscalls g g')) - v / 100 * of_nat (unat len)\<bar>
      \<le> 2 * of_nat (page_bytes (sys_page_size P)) + 4 * share_error (unat len)"
    unfolding bx byy by (simp_all only: M0_def M1_def S_def p_def r_def)
qed

text \<open>The two lengths leave no page out as long as the error is below one page.\<close>

lemma up_ge:
  assumes "page_size_ok psz" "unat t \<le> 2 ^ 60"
  shows "unat t \<le> unat (page_align_up psz t)" "page_bytes psz dvd unat (page_align_up psz t)"
proof -
  have "unat t + page_bytes psz \<le> 2 ^ 64" using assms(2) page_bytes_bound [OF assms(1)] by simp
  then show "unat t \<le> unat (page_align_up psz t)" "page_bytes psz dvd unat (page_align_up psz t)"
    using round_up_bounds(1) [OF page_bytes_pos [OF assms(1)], of "unat t"]
    by (simp_all add: unat_page_align_up [OF assms(1)])
qed

lemma two_lengths_cover:
  assumes ur: "user_region psz a len"
    and w: "percentage u" "percentage v" "u \<le> v" "u + v = 100" "sizeable u" "sizeable (v - u)"
    and small: "2 * share_error (unat len) + 2 < of_nat (page_bytes psz)"
    and t: "weighted_size 2 (fp_sub binary32 (Fin u) (Fin 0)) len = Inr t0"
      "weighted_size 1 (fp_sub binary32 (Fin v) (Fin u)) len = Inr t1"
    and m: "m0 = min (page_align_up psz t0) len" "m1 = min (page_align_up psz t1) (len - m0)"
  shows "unat m0 + unat m1 = unat len"
proof (rule ccontr)
  assume ne: "unat m0 + unat m1 \<noteq> unat len"
  note urd = user_regionD [OF ur]
  define S r where "S = (of_nat (unat len) :: rat)" and "r = share_error (unat len)"
  note num = region_numbers [OF ur, folded S_def r_def] and T = two_sizes [OF ur w(1-3,5,6) t, folded S_def r_def]
  have v: "v = 100 - u" using w(4) by simp
  have sum: "2 * u / 100 * S + (v - u) / 100 * S = S" unfolding v by (simp add: field_simps)
  have nn: "0 \<le> 2 * u / 100 * S" "0 \<le> (v - u) / 100 * S"
    using w(1,3) num(1) by (simp_all add: percentage_def)
  have small_t: "unat t \<le> 2 ^ 60" if "(of_nat (unat t) :: rat) \<le> 2 * S" for t :: u64
  proof -
    have "(of_nat (unat t) :: rat) \<le> of_nat (2 ^ 60)" using that num(2) by simp
    then show ?thesis by (simp only: of_nat_le_iff)
  qed
  have "unat t0 \<le> 2 ^ 60" "unat t1 \<le> 2 ^ 60" using T(1,3) sum nn num(5) by (intro small_t; linarith)+
  note up0 = up_ge [OF urd(1) this(1)] and up1 = up_ge [OF urd(1) this(2)]
  have le0: "m0 \<le> len" by (simp add: m(1))
  then have rest: "unat (len - m0) = unat len - unat m0" "unat m0 \<le> unat len"
    by (simp_all add: unat_diff_le word_le_nat_alt)
  have m0: "unat m0 = unat (page_align_up psz t0)"
  proof -
    have "m0 \<noteq> len" using ne rest by (auto simp: m(2))
    then show ?thesis by (simp add: m(1) min_def split: if_splits)
  qed
  have m1: "unat m1 = unat (page_align_up psz t1)"
  proof -
    have "m1 \<noteq> len - m0" using ne rest by auto
    then show ?thesis by (simp add: m(2) min_def split: if_splits)
  qed
  have "m1 \<le> len - m0" by (simp add: m(2))
  then have "unat m0 + unat m1 < unat len" using ne rest by (simp add: word_le_nat_alt)
  note lt = this
  have "page_bytes psz dvd unat len - (unat m0 + unat m1)"
    using up0(2) up1(2) urd(3) by (intro dvd_diff_nat) (simp_all add: m0 m1)
  then have "page_bytes psz \<le> unat len - (unat m0 + unat m1)" by (rule dvd_imp_le) (use lt in simp)
  then have "page_bytes psz + unat t0 + unat t1 \<le> unat len" using lt up0(1) up1(1) m0 m1 by linarith
  then have "(of_nat (page_bytes psz + unat t0 + unat t1) :: rat) \<le> of_nat (unat len)"
    by (simp only: of_nat_le_iff)
  then have "of_nat (page_bytes psz) + of_nat (unat t0) + of_nat (unat t1) \<le> S"
    by (simp only: of_nat_add S_def)
  with T(2,4) sum small [folded r_def] show False by linarith
qed

text \<open>The bytes that the two calls bind, whatever the amounts are.\<close>

lemma weighted_initial_bytes:
  assumes lib: "libnuma_ok P" and ur: "user_region (sys_page_size P) a len" and nodes: "nodes_info g = [x, y]"
    and t0: "weighted_size 2 (fp_sub binary32 (node_weight x) (Fin 0)) len = Inr t0"
    and t1: "weighted_size 1 (fp_sub binary32 (node_weight y) (node_weight x)) len = Inr t1"
    and m: "m0 = min (page_align_up (sys_page_size P) t0) len"
      "m1 = min (page_align_up (sys_page_size P) t1) (len - m0)"
    and run: "place_pages_weighted_initial P a len g = (g', Inr ())"
  shows "(\<Union>c \<in> set (mbinds (new_syscalls g g')). chunk_bytes (mbind_range c)) =
    {unat a ..< unat a + (unat m0 + unat m1)}"
proof -
  let ?ns = "mask_setall P (mask_alloc P MAX_NODES)"
  define c0 where "c0 = \<lparr>mb_addr = a, mb_len = m0, mb_policy = MPOL_INTERLEAVE, mb_mask = ?ns\<rparr>"
  define c1 where "c1 = \<lparr>mb_addr = a + m0, mb_len = m1, mb_policy = MPOL_INTERLEAVE,
    mb_mask = if mask_isset P ?ns (bit_index (node_id x)) then mask_clearbit P ?ns (bit_index (node_id x)) else ?ns\<rparr>"
  have loop: "weighted_loop P len [x, y] a (Fin 0) 0 ?ns g = (g', Inr ())"
    using run nodes by (simp add: place_pages_weighted_initial_def)
  have "issued g (filter (\<lambda>c. mb_len c \<noteq> 0) [c0, c1]) g'"
    by (rule weighted_loop_two [OF loop t0 t1 m refl c0_def c1_def])
  then have calls: "mbinds (new_syscalls g g') = filter (\<lambda>c. mb_len c \<noteq> 0) [c0, c1]"
    by (simp add: issued_def new_syscalls_def del: filter.simps)
  have "total_length (map mbind_range (filter (\<lambda>c. mb_len c \<noteq> 0) cs)) = sum_list (map (unat \<circ> mb_len) cs)"
    for cs :: "'a mbind_call list"
    by (induction cs) (auto simp: mbind_range_def)
  then have total: "total_length (map mbind_range (mbinds (new_syscalls g g'))) = unat m0 + unat m1"
    by (simp add: calls c0_def c1_def del: filter.simps)
  obtain cs where cs: "issued g cs g'" "tiles_region (sys_page_size P) (unat a) (unat len) cs"
    using place_pages_weighted_initial_run [OF lib ur run] by blast
  then have "mbinds (new_syscalls g g') = cs" by (simp add: issued_def new_syscalls_def)
  with total tiles_region_bytes [OF cs(2)] show ?thesis by simp
qed

text \<open>
  The size of a region as the code's \<open>float\<close> holds it, and the whole pages of an amount.
\<close>

definition float_bytes :: "u64 \<Rightarrow> nat" where
  "float_bytes len = nat \<lfloor>round_rat binary32 (of_nat (unat len))\<rfloor>"

definition whole_pages :: "32 word \<Rightarrow> nat \<Rightarrow> nat" where
  "whole_pages psz n = (n + page_bytes psz - 1) div page_bytes psz * page_bytes psz"

text \<open>With twice the weight 50 the amount is the size itself, rounded to \<open>float\<close>.\<close>

lemma full_size:
  assumes "unat len \<le> 2 ^ 47"
  obtains t where "weighted_size 2 (fp_sub binary32 (Fin 50) (Fin 0)) len = Inr t" "unat t = float_bytes len"
    "float_bytes len \<le> 2 ^ 47"
proof -
  let ?s = "round_rat binary32 (of_nat (unat len))"
  obtain s where s: "fp_of_int binary32 (uint len) = Fin s" "0 \<le> s" "s \<le> pow2 47" by (rule size_float [OF assms])
  have int: "(of_int (uint len) :: rat) = of_nat (unat len)" by simp
  from s(1) have "s = ?s" unfolding fp_of_int_def int by (auto simp: fp_of_rat_def Let_def split: if_splits)
  then have rep: "representable binary32 s" by (simp add: representable_round_rat)
  have one: "fp_mul binary32 (fp_of_int binary32 (int 2)) (fp_div binary32 (fp_sub binary32 (Fin 50) (Fin 0))
      (fp_of_int binary32 100)) = Fin 1"
    by (simp add: exact_fp fp_sub_def fp_of_int_def)
  have "\<bar>s\<bar> \<le> pow2 47" using s(2,3) by simp
  from fp_of_rat_bounded [OF this, of binary32] have "fp_of_rat binary32 s = Fin s"
    using rep round_rat_representable [of binary32 s] by (simp add: binary32_def)
  then have size: "weighted_size 2 (fp_sub binary32 (Fin 50) (Fin 0)) len = fp_to_u64 (Fin s)"
    unfolding weighted_size_def one s(1) by simp
  have "s \<le> of_int (2 ^ 47)" using s(3) pow2_of_nat [of 47] by simp
  then have fl: "0 \<le> \<lfloor>s\<rfloor>" "\<lfloor>s\<rfloor> \<le> 2 ^ 47" using s(2) by (simp_all add: floor_le_iff)
  then have "uint (of_int \<lfloor>s\<rfloor> :: u64) = \<lfloor>s\<rfloor>" by (simp add: unsigned_of_int take_bit_int_eq_self)
  then have "int (unat (of_int \<lfloor>s\<rfloor> :: u64)) = \<lfloor>s\<rfloor>" by simp
  then have "unat (of_int \<lfloor>s\<rfloor> :: u64) = nat \<lfloor>s\<rfloor>" by linarith
  moreover have "fp_to_u64 (Fin s) = Inr (of_int \<lfloor>s\<rfloor>)" using fl s(2) by (simp add: truncate_rat_def Let_def)
  ultimately show thesis using that size fl \<open>s = ?s\<close> by (simp add: float_bytes_def nat_le_iff)
qed

section \<open>Properties\<close>

text \<open>
  C4: the weighted interleave gives every node its share. With two records sorted by weight
  in ascending order whose weights add up to 100 (up to the rounding of decimal weights to
  \<open>float\<close>) and are, like their difference, 0 or at least \<open>2 powi (-20)\<close>, a run of
  \<open>place_pages_weighted_initial\<close> that returns leaves the lighter node its percentage of
  the region, up to one page and a \<open>2 powi (-20)\<close> of the region, and the heavier node its
  percentage up to two pages and four times that error.
\<close>

theorem weighted_initial_shares:
  assumes "libnuma_ok P" and "user_region (sys_page_size P) a len"
    and "nodes_info g = [x, y]" and "node_weight x = Fin u" and "node_weight y = Fin v"
    and "{node_id x, node_id y} = {0, 1}"
    and "percentage u" "percentage v" "u \<le> v" "\<bar>u + v - 100\<bar> \<le> 1 / 2 ^ 14"
    and "sizeable u" "sizeable (v - u)"
    and "place_pages_weighted_initial P a len g = (g', Inr ())"
  shows "\<bar>node_bytes P (nat (node_id x)) (mbinds (new_syscalls g g')) - u / 100 * of_nat (unat len)\<bar>
      \<le> of_nat (page_bytes (sys_page_size P)) + share_error (unat len) \<and>
    \<bar>node_bytes P (nat (node_id y)) (mbinds (new_syscalls g g')) - v / 100 * of_nat (unat len)\<bar>
      \<le> 2 * of_nat (page_bytes (sys_page_size P)) + 4 * share_error (unat len)"
  using loop_shares [OF assms(1,2,4-12)] assms(3,13) by (simp add: place_pages_weighted_initial_def)

lemma weighted_initial_shares_witness:
  "\<bar>node_bytes accepting 1 (mbinds (new_syscalls (start_world 25 75)
       (fst (place_pages_weighted_initial accepting 65536 65536 (start_world 25 75))))) - 16384\<bar> \<le> 5000"
proof -
  let ?x = "\<lparr>node_id = 1, node_weight = Fin 25, node_count = 0\<rparr>"
  let ?y = "\<lparr>node_id = 0, node_weight = Fin 75, node_count = 0\<rparr>"
  let ?r = "place_pages_weighted_initial accepting 65536 65536 (start_world 25 75)"
  have "representable binary32 (of_int 25)" "representable binary32 (of_int 75)"
    by (rule representable_of_int; simp add: binary32_def)+
  then have "percentage 25" "percentage 75" by (simp_all add: percentage_def)
  moreover have "sizeable 25" "sizeable (75 - 25)" by (simp_all add: sizeable_def pow2_def)
  moreover have "nodes_info (start_world 25 75) = [?x, ?y]" by (simp add: start_world_def two_nodes_def)
  moreover have "?r = (fst ?r, Inr ())" by (simp add: concrete_run)
  ultimately have "\<bar>node_bytes accepting (nat (node_id ?x)) (mbinds (new_syscalls (start_world 25 75) (fst ?r)))
      - 25 / 100 * of_nat (unat (65536 :: u64))\<bar>
      \<le> of_nat (page_bytes (sys_page_size accepting)) + share_error (unat (65536 :: u64))"
    using weighted_initial_shares [of accepting 65536 65536 "start_world 25 75" ?x ?y 25 75 "fst ?r"]
      user_region_concrete by auto
  then show ?thesis by (simp add: share_error_def)
qed

text \<open>
  C11: for weights that add up to exactly 100, such a run binds the whole region, page by page,
  whenever twice the error is below one page (less than 2046 MiB for pages of 4096 bytes).
\<close>

theorem weighted_initial_covers:
  assumes "libnuma_ok P" and "user_region (sys_page_size P) a len"
    and "nodes_info g = [x, y]" and "node_weight x = Fin u" and "node_weight y = Fin v"
    and "percentage u" "percentage v" "u \<le> v" "u + v = 100" and "sizeable u" "sizeable (v - u)"
    and "2 * share_error (unat len) + 2 < of_nat (page_bytes (sys_page_size P))"
    and "place_pages_weighted_initial P a len g = (g', Inr ())"
  shows "(\<Union>c \<in> set (mbinds (new_syscalls g g')). chunk_bytes (mbind_range c)) =
    {unat a ..< unat a + unat len}"
proof -
  note ur = assms(2) and w = assms(6-11)
  obtain t0 where t0: "weighted_size 2 (fp_sub binary32 (Fin u) (Fin 0)) len = Inr t0"
    by (rule first_size [OF ur w(1,5)])
  obtain t1 where t1: "weighted_size 1 (fp_sub binary32 (Fin v) (Fin u)) len = Inr t1"
    by (rule second_size [OF ur w(1-3,6)])
  have "unat (min (page_align_up (sys_page_size P) t0) len) + unat (min (page_align_up (sys_page_size P) t1)
      (len - min (page_align_up (sys_page_size P) t0) len)) = unat len"
    by (rule two_lengths_cover [OF ur w(1-6) assms(12) t0 t1 refl refl])
  with weighted_initial_bytes [OF assms(1,2,3) _ _ refl refl assms(13), of t0 t1] t0 t1 assms(4,5) show ?thesis by simp
qed

lemma weighted_initial_covers_witness:
  "(\<Union>c \<in> set (mbinds (new_syscalls (start_world 25 75)
      (fst (place_pages_weighted_initial accepting 65536 65536 (start_world 25 75))))).
    chunk_bytes (mbind_range c)) = {65536 ..< 131072}"
proof -
  let ?x = "\<lparr>node_id = 1, node_weight = Fin 25, node_count = 0\<rparr>"
  let ?y = "\<lparr>node_id = 0, node_weight = Fin 75, node_count = 0\<rparr>"
  let ?r = "place_pages_weighted_initial accepting 65536 65536 (start_world 25 75)"
  have "representable binary32 (of_int 25)" "representable binary32 (of_int 75)"
    by (rule representable_of_int; simp add: binary32_def)+
  then have "percentage 25" "percentage 75" by (simp_all add: percentage_def)
  moreover have "sizeable 25" "sizeable (75 - 25)" by (simp_all add: sizeable_def pow2_def)
  moreover have "nodes_info (start_world 25 75) = [?x, ?y]" by (simp add: start_world_def two_nodes_def)
  moreover have "?r = (fst ?r, Inr ())" by (simp add: concrete_run)
  moreover have "2 * share_error (unat (65536 :: u64)) + 2 < of_nat (page_bytes (sys_page_size accepting))"
    by (simp add: share_error_def)
  ultimately show ?thesis
    using weighted_initial_covers [of accepting 65536 65536 "start_world 25 75" ?x ?y 25 75 "fst ?r"]
      user_region_concrete by auto
qed

text \<open>
  C36: which bytes are bound for equal weights. With weights 50 and 50 a run that returns binds,
  from the start of the region, as many bytes as the region's size has when it is rounded to
  \<open>float\<close> (24 bits) and then up to whole pages, and no more than the region has. So the region
  is covered exactly if its size is at most that; otherwise its last pages are bound by no
  call, although every call succeeds.
\<close>

theorem equal_weights_bind_float_size:
  assumes "libnuma_ok P" and "user_region (sys_page_size P) a len"
    and "nodes_info g = [x, y]" and "node_weight x = Fin 50" and "node_weight y = Fin 50"
    and "place_pages_weighted_initial P a len g = (g', Inr ())"
  shows "(\<Union>c \<in> set (mbinds (new_syscalls g g')). chunk_bytes (mbind_range c)) =
      {unat a ..< unat a + min (unat len) (whole_pages (sys_page_size P) (float_bytes len))} \<and>
    ((\<Union>c \<in> set (mbinds (new_syscalls g g')). chunk_bytes (mbind_range c)) = {unat a ..< unat a + unat len} \<longleftrightarrow>
      unat len \<le> whole_pages (sys_page_size P) (float_bytes len))"
proof -
  note urd = user_regionD [OF assms(2)]
  let ?p = "sys_page_size P"
  obtain t where t: "weighted_size 2 (fp_sub binary32 (Fin 50) (Fin 0)) len = Inr t" "unat t = float_bytes len"
    "float_bytes len \<le> 2 ^ 47"
    by (rule full_size [OF urd(5)])
  have z: "weighted_size 1 (fp_sub binary32 (Fin 50) (Fin 50)) len = Inr 0"
  proof -
    obtain s where "fp_of_int binary32 (uint len) = Fin s" by (rule size_float [OF urd(5)])
    then show ?thesis by (simp add: weighted_size_def exact_fp fp_sub_def fp_of_int_def truncate_rat_def)
  qed
  have up: "unat (page_align_up ?p t) = whole_pages ?p (float_bytes len)"
    using page_bytes_bound [OF urd(1)] t(2,3) unat_page_align_up [OF urd(1), of t] by (simp add: whole_pages_def)
  have up0: "page_align_up ?p 0 = 0"
    using unat_page_align_up [OF urd(1), of 0] page_bytes_bound [OF urd(1)] page_bytes_pos [OF urd(1)]
    by (simp add: word_unat_eq_iff)
  have "unat (min (page_align_up ?p t) len) = min (unat len) (whole_pages ?p (float_bytes len))"
    using up by (simp add: min_def word_le_nat_alt)
  with weighted_initial_bytes [OF assms(1-3) _ _ refl refl assms(6), of t 0] t(1) z assms(4,5)
  have "(\<Union>c \<in> set (mbinds (new_syscalls g g')). chunk_bytes (mbind_range c)) =
      {unat a ..< unat a + min (unat len) (whole_pages ?p (float_bytes len))}"
    by (simp add: up0)
  then show ?thesis by (cases "unat len = 0") auto
qed

text \<open>A region of \<open>2 ^ 37 + 4096\<close> bytes loses its last page.\<close>

lemma long_region_float:
  "fp_of_rat binary32 137438957568 = Fin 137438953472" "fp_of_rat binary32 137438953472 = Fin 137438953472"
  "round_rat binary32 137438957568 = 137438953472"
proof -
  have r: "round_rat binary32 137438957568 = of_int 8388608 * pow2 14"
    by (rule round_rat_certified [where e = 37]) (simp_all add: binary32_def pow2_def power_int_def)
  then show "fp_of_rat binary32 137438957568 = Fin 137438953472"
    by (simp add: fp_of_rat_def Let_def binary32_def pow2_def power_int_def)
  from r show "round_rat binary32 137438957568 = 137438953472" by (simp add: pow2_def power_int_def)
  have "representable binary32 137438953472"
    unfolding representable_def
    by (rule exI [of _ 8388608], rule exI [of _ 14]) (simp add: binary32_def pow2_def)
  then show "fp_of_rat binary32 137438953472 = Fin 137438953472"
    by (intro fp_of_rat_representable) (simp_all add: binary32_def pow2_def power_int_def)
qed

lemma equal_weights_bind_float_size_witness:
  "(\<Union>c \<in> set (mbinds (new_syscalls (start_world 50 50)
      (fst (place_pages_weighted_initial accepting 65536 (2 ^ 37 + 4096) (start_world 50 50))))).
    chunk_bytes (mbind_range c)) = {65536 ..< 65536 + 2 ^ 37}"
proof -
  let ?x = "\<lparr>node_id = 1, node_weight = Fin 50, node_count = 0\<rparr>"
  let ?y = "\<lparr>node_id = 0, node_weight = Fin 50, node_count = 0\<rparr>"
  let ?r = "place_pages_weighted_initial accepting 65536 (2 ^ 37 + 4096) (start_world 50 50)"
  have nodes: "nodes_info (start_world 50 50) = [?x, ?y]" by (simp add: start_world_def two_nodes_def)
  have run: "?r = (fst ?r, Inr ())" by (simp add: concrete_run long_region_float)
  have region: "user_region (sys_page_size accepting) 65536 (2 ^ 37 + 4096)"
    by (simp add: user_region_def page_size_4096)
  have "float_bytes (2 ^ 37 + 4096) = 2 ^ 37" by (simp add: float_bytes_def long_region_float)
  with equal_weights_bind_float_size [OF _ region nodes _ _ run, THEN conjunct1] show ?thesis
    by (simp add: whole_pages_def)
qed

end
