(* ===== verification/Mode_Properties.thy ===== *)
theory Mode_Properties
  imports Modes Weighted_Shares
begin

text \<open>
  What the modes do: the contract between the memory map and a mode's callbacks, the registry,
  the initial placement thread, the list in shared memory, and the search of the adaptive
  mode.
\<close>

section \<open>The contract of a mode's callbacks\<close>

text \<open>
  A segment that the library places, which is one of more than 1 MiB, lies in the user address
  range. Others, such as the segment of a failed \<open>mmap\<close>, are arbitrary.
\<close>

definition placeable :: "'b platform \<Rightarrow> memory_segment \<Rightarrow> bool" where
  "placeable P s \<longleftrightarrow>
     (2 ^ 20 < segment_length s \<longrightarrow> segment_wf s \<and> unat (end_address s) + page_bytes (sys_page_size P) \<le> 2 ^ 47)"

definition calls_within :: "'b platform \<Rightarrow> memory_segment list \<Rightarrow> 'b mbind_call list \<Rightarrow> bool" where
  "calls_within P A cs \<longleftrightarrow>
     (\<forall>c \<in> set cs. page_aligned_call (sys_page_size P) c \<and>
       (\<exists>s \<in> set A. chunk_bytes (mbind_range c) \<subseteq> aligned_region (sys_page_size P) s))"

lemma calls_within_mono: "calls_within P A cs \<Longrightarrow> set A \<subseteq> set B \<Longrightarrow> calls_within P B cs"
  by (fastforce simp: calls_within_def)

lemma calls_within_append: "calls_within P A (cs @ ds) \<longleftrightarrow> calls_within P A cs \<and> calls_within P A ds"
  by (auto simp: calls_within_def)

locale mode_contract =
  fixes P :: "'b platform" and h :: "'b world hooks"
  assumes removal_silent: "silent_removal h"
    and addition_within:
      "libnuma_ok P \<Longrightarrow> page_size_ok (sys_page_size P) \<Longrightarrow> placeable P s \<Longrightarrow>
       on_addition h s g = (g', r) \<Longrightarrow> \<exists>cs. issued g cs g' \<and> calls_within P [s] cs"
begin

lemma hears_within:
  assumes "libnuma_ok P" "page_size_ok (sys_page_size P)" "list_all (placeable P) ss" "hears h ss g g'"
  shows "\<exists>cs. issued g cs g' \<and> calls_within P ss cs"
  using assms(3,4)
proof (induction ss arbitrary: g)
  case Nil
  then show ?case by (intro exI [of _ "[]"]) (simp add: issued_def calls_within_def)
next
  case (Cons s ss)
  then obtain g1 where g1: "on_addition h s g = (g1, Inr ())" "hears h ss g1 g'" by auto
  from addition_within [OF assms(1,2) _ g1(1)] Cons.prems(1)
  obtain cs where cs: "issued g cs g1" "calls_within P [s] cs" by auto
  from Cons.IH [OF _ g1(2)] Cons.prems(1) obtain ds where ds: "issued g1 ds g'" "calls_within P ss ds" by auto
  have "calls_within P (s # ss) (cs @ ds)"
    using calls_within_mono [OF cs(2), of "s # ss"] calls_within_mono [OF ds(2), of "s # ss"]
    by (auto simp: calls_within_append)
  with issued_trans [OF cs(1) ds(1)] show ?case by blast
qed

end

lemma silent_mode_hooks [simp]: "silent_removal (mode_hooks P k)"
  by (cases k) (simp_all add: silent_removal_def ignore_segment_def step_simps)

lemma place_new_segment_within:
  assumes "libnuma_ok P" "page_size_ok (sys_page_size P)" "placeable P s" "place_new_segment P s g = (g', r)"
  shows "\<exists>cs. issued g cs g' \<and> calls_within P [s] cs"
proof (cases "2 ^ 14 < segment_length s \<and> 2 ^ 20 < segment_length s")
  case True
  with assms(4) have "place_pages_weighted_initial P (page_aligned_start (sys_page_size P) s)
      (page_aligned_length (sys_page_size P) s) g = (g', r)"
    by (simp add: place_new_segment_def place_pages_weighted_initial_segment_def)
  from weighted_initial_mbind.place_segment_within [OF assms(1,2) _ _ this] assms(3) True
  show ?thesis by (auto simp: calls_within_def placeable_def)
next
  case False
  with assms(4) have "g' = g"
    by (auto simp: place_new_segment_def place_pages_weighted_initial_segment_def step_simps split: if_splits)
  then show ?thesis by (intro exI [of _ "[]"]) (simp add: issued_def calls_within_def)
qed

interpretation modes: mode_contract P "mode_hooks P k" for P k
proof unfold_locales
  show "silent_removal (mode_hooks P k)" by simp
next
  fix s g g' r
  assume p: "libnuma_ok P" "page_size_ok (sys_page_size P)" "placeable P s"
    and run: "on_addition (mode_hooks P k) s g = (g', r)"
  have none: "\<exists>cs. issued g cs g' \<and> calls_within P [s] cs" if "ignore_segment s g = (g', r)"
    using that by (intro exI [of _ "[]"]) (simp add: ignore_segment_def step_simps issued_def calls_within_def)
  show "\<exists>cs. issued g cs g' \<and> calls_within P [s] cs"
    using run none place_new_segment_within [OF p] by (cases k) simp_all
qed

section \<open>The registry\<close>

lemma mode_name_inj: "mode_name k = mode_name j \<longleftrightarrow> k = j"
  by (cases k; cases j) simp_all

lemma register_all_run:
  assumes "distinct ks" "\<forall>k \<in> set ks. r (mode_name k) = None"
  shows "\<exists>r'. register_all ks r = (r', Inr ()) \<and> (\<forall>k. r' (mode_name k) = (if k \<in> set ks then Some k else r (mode_name k))) \<and>
    (\<forall>n. n \<notin> mode_name ` set ks \<longrightarrow> r' n = r n)"
  using assms
proof (induction ks arbitrary: r)
  case (Cons k ks)
  let ?r = "r(mode_name k \<mapsto> k)"
  have "\<forall>j \<in> set ks. ?r (mode_name j) = None" using Cons.prems by (auto simp: mode_name_inj)
  from Cons.IH [OF _ this] Cons.prems(1) obtain r' where r': "register_all ks ?r = (r', Inr ())"
    "\<forall>j. r' (mode_name j) = (if j \<in> set ks then Some j else ?r (mode_name j))"
    "\<forall>n. n \<notin> mode_name ` set ks \<longrightarrow> r' n = ?r n" by (auto simp del: fun_upd_apply)
  have "register_all (k # ks) r = (r', Inr ())"
    using r'(1) Cons.prems(2) by (simp add: then_step_def registerMode_def)
  with r'(2,3) Cons.prems(1) show ?case by (intro exI [of _ r']) (auto simp: mode_name_inj)
qed (simp add: step_simps)


section \<open>The initial placement thread\<close>

lemma memInitThread_Some:
  assumes "memInitThread P seen segs k s = Some (s', r)"
  shows "isl r \<or> (\<exists>j \<ge> k. seen j \<noteq> 0)"
proof -
  let ?Q = "\<lambda>x y. case x of ((((P, seen), segs), k), s) \<Rightarrow> isl (snd y) \<or> (\<exists>j \<ge> k. seen j \<noteq> 0)"
  have "?Q ((((P, seen), segs), k), s) (s', r)"
  proof (rule memInitThread.raw_induct [where Pa = ?Q, OF _ assms], goal_cases)
    case (1 f P seen segs k s y)
    show ?case
    proof (cases "seen k = 0")
      case True
      obtain s1 r1 where placed: "on_numa (place_large_segments P (segs k)) s = (s1, r1)" by fastforce
      show ?thesis
      proof (cases r1)
        case (Inl e)
        with 1(2) True placed show ?thesis by auto
      next
        case (Inr u)
        with 1(2) True placed have "f P seen segs (k + 1) (fst (nap 1000000 s1)) = Some y" by simp
        from 1(1) [OF this] show ?thesis by (auto intro: Suc_leD)
      qed
    qed auto
  qed
  then show ?thesis by simp
qed

text \<open>The turns of the thread, one after the other: place a list, sleep a second.\<close>

fun initial_turns :: "'b platform \<Rightarrow> memory_segment list list \<Rightarrow> ('b, unit) process_step" where
  "initial_turns P [] = done_step ()"
| "initial_turns P (ss # sss) =
     then_step (on_numa (place_large_segments P ss)) (\<lambda>_.
     then_step (nap 1000000) (\<lambda>_. initial_turns P sss))"

lemma memInitThread_turns:
  "seen (k + j) \<noteq> 0 \<Longrightarrow> (\<forall>i < j. seen (k + i) = 0) \<Longrightarrow>
     memInitThread P seen segs k s = Some (initial_turns P (map (\<lambda>i. segs (k + i)) [0 ..< j]) s)"
proof (induction j arbitrary: k s)
  case 0
  then show ?case by (subst memInitThread.simps) (simp add: step_simps)
next
  case (Suc j)
  obtain s1 r1 where placed: "on_numa (place_large_segments P (segs k)) s = (s1, r1)" by fastforce
  have zero: "seen k = 0" using Suc.prems(2) by force
  let ?L = "map (\<lambda>i. segs (k + 1 + i)) [0 ..< j]"
  have lists: "map (\<lambda>i. segs (k + i)) [0 ..< Suc j] = segs k # ?L"
    by (simp add: map_upt_Suc del: upt_Suc)
  have "\<forall>i < j. seen (k + 1 + i) = 0" using Suc.prems(2) by fastforce
  then have rest: "memInitThread P seen segs (k + 1) t = Some (initial_turns P ?L t)" for t
    using Suc.prems(1) by (intro Suc.IH) simp_all
  show ?case
  proof (cases r1)
    case (Inl x)
    then show ?thesis
      unfolding lists by (subst memInitThread.simps) (simp add: zero placed then_step_def [of "on_numa f" for f])
  next
    case (Inr u)
    then have "memInitThread P seen segs k s = memInitThread P seen segs (k + 1) (fst (nap 1000000 s1))"
      by (subst memInitThread.simps) (simp add: zero placed)
    also have "\<dots> = Some (initial_turns P ?L (fst (nap 1000000 s1)))" by (rule rest)
    also have "initial_turns P ?L (fst (nap 1000000 s1)) = initial_turns P (segs k # ?L) s"
      using Inr by (simp add: placed then_step_def nap_def)
    finally show ?thesis unfolding lists .
  qed
qed

section \<open>The list in shared memory\<close>

definition shared_entry :: "'b platform \<Rightarrow> int \<Rightarrow> memory_segment \<Rightarrow> my_shared_memory" where
  "shared_entry P pid s =
     \<lparr>pageAlignedStartAddress = page_aligned_start (sys_page_size P) s,
      pageAlignedLength = page_aligned_length (sys_page_size P) s, processID = pid\<rparr>"

abbreviation large :: "memory_segment \<Rightarrow> bool" where
  "large s \<equiv> 2 ^ 20 < segment_length s"

lemma share_segments_run:
  assumes "\<And>i. length v < i \<Longrightarrow> room i \<longleftrightarrow> i \<le> n"
  shows "share_segments P room pid ss v =
    (if filter large ss = [] \<or> length v + length (filter large ss) \<le> n
     then Inr (v @ map (shared_entry P pid) (filter large ss))
     else Inl (Aborted ''terminate: boost::interprocess::bad_alloc''))"
  using assms
proof (induction ss arbitrary: v)
  case (Cons s ss)
  show ?case
  proof (cases "large s \<and> length v < n")
    case True
    then have "share_segments P room pid (s # ss) v = share_segments P room pid ss (v @ [shared_entry P pid s])"
      using Cons.prems [of "length v + 1"] by (simp add: shared_entry_def)
    with Cons.IH [of "v @ [shared_entry P pid s]"] Cons.prems True show ?thesis by auto
  next
    case False
    with Cons.IH [of v] Cons.prems [of "length v + 1"] Cons.prems show ?thesis by auto
  qed
qed simp


section \<open>Properties of callbacks, registry and threads\<close>

text \<open>The small process of Segment_Live.thy in scan mode, which is given 2 MiB outside the heap.\<close>

definition scan_map :: "(nat \<times> nat set) world memory_map" where
  "scan_map =
     \<lparr>segments = [(0, \<lparr>start_address = 0x601000, end_address = 0x622000, segment_name = ''heap''\<rparr>)],
      next_node = 1, heap_ptr = Some 0, stack_ptr = None, text_ptr = None, data_ptr = None,
      mem_calls = [], mode_state = start_world 25 75\<rparr>"

text \<open>
  Registration. In whatever order the five static registrars run, all registrations
  succeed and every mode can be selected by its name; any other name is refused.
\<close>

theorem registration_in_any_order:
  assumes "mset ks = {#Adaptive, Disabled, Fixed_ratio, Scan, Weighted_adaptive#}"
  shows "\<exists>r. register_all ks Map.empty = (r, Inr ()) \<and> (\<forall>k. getMode r (mode_name k) = Inr k) \<and>
    (\<forall>n. (\<forall>k. n \<noteq> mode_name k) \<longrightarrow> isl (getMode r n))"
proof -
  have all: "set ks = UNIV"
  proof -
    have "set ks = {Adaptive, Disabled, Fixed_ratio, Scan, Weighted_adaptive}"
      using assms by (metis set_mset_add_mset_insert set_mset_empty set_mset_mset)
    moreover have "k \<in> {Adaptive, Disabled, Fixed_ratio, Scan, Weighted_adaptive}" for k by (cases k) simp_all
    ultimately show ?thesis by blast
  qed
  have "count (mset ks) k \<le> 1" for k by (cases k) (simp_all add: assms)
  then have "distinct ks" by (metis distinct_count_atmost_1 all count_mset_0_iff UNIV_I count_greater_zero_iff le_antisym less_one not_le set_mset_mset)
  then obtain r where r: "register_all ks Map.empty = (r, Inr ())" "\<forall>k. r (mode_name k) = Some k"
    "\<forall>n. n \<notin> range mode_name \<longrightarrow> r n = None"
    using register_all_run [of ks Map.empty] all by auto
  then show ?thesis by (intro exI [of _ r]) (auto simp: getMode_def image_iff)
qed

lemma registration_in_any_order_witness:
  "\<exists>r. register_all [Scan, Disabled, Weighted_adaptive, Adaptive, Fixed_ratio] Map.empty = (r, Inr ()) \<and>
     getMode r ''wadaptive'' = Inr Weighted_adaptive \<and> isl (getMode r ''fast'')"
proof -
  have "mset [Scan, Disabled, Weighted_adaptive, Adaptive, Fixed_ratio] =
      {#Adaptive, Disabled, Fixed_ratio, Scan, Weighted_adaptive#}" by simp
  from registration_in_any_order [OF this] obtain r where
    r: "register_all [Scan, Disabled, Weighted_adaptive, Adaptive, Fixed_ratio] Map.empty = (r, Inr ())"
    "\<forall>k. getMode r (mode_name k) = Inr k" "\<forall>n. (\<forall>k. n \<noteq> mode_name k) \<longrightarrow> isl (getMode r n)" by blast
  have "getMode r ''wadaptive'' = Inr Weighted_adaptive" using r(2) [rule_format, of Weighted_adaptive] by simp
  moreover have "\<forall>k. ''fast'' \<noteq> mode_name k"
  proof
    show "''fast'' \<noteq> mode_name k" for k by (cases k) simp_all
  qed
  then have "isl (getMode r ''fast'')" using r(3) by blast
  ultimately show ?thesis using r(1) by blast
qed

text \<open>
  C19: the initial placement thread. If the j-th test is the first that finds \<open>MEM_INIT\<close> set, the
  thread returns, after it has placed the list as it found it at each of the j tests before,
  in order, with a second's sleep after each; a placement that fails ends it at once. If no
  test ever finds it set, the thread does not return, unless a placement fails.
\<close>

theorem memInitThread_ends_when_told:
  "(seen j \<noteq> 0 \<and> (\<forall>i < j. seen i = 0) \<longrightarrow>
      memInitThread P seen segs 0 s = Some (initial_turns P (map segs [0 ..< j]) s)) \<and>
   ((\<forall>i. seen i = 0) \<longrightarrow> memInitThread P seen segs 0 s = None \<or> (\<exists>s' x. memInitThread P seen segs 0 s = Some (s', Inl x)))"
proof (intro conjI impI)
  assume "seen j \<noteq> 0 \<and> (\<forall>i < j. seen i = 0)"
  then show "memInitThread P seen segs 0 s = Some (initial_turns P (map segs [0 ..< j]) s)"
    using memInitThread_turns [of seen 0 j P segs s] by simp
next
  assume never: "\<forall>i. seen i = 0"
  show "memInitThread P seen segs 0 s = None \<or> (\<exists>s' x. memInitThread P seen segs 0 s = Some (s', Inl x))"
  proof (cases "memInitThread P seen segs 0 s")
    case (Some y)
    then obtain s' r where y: "memInitThread P seen segs 0 s = Some (s', r)" by (cases y) auto
    from memInitThread_Some [OF y] never have "isl r" by simp
    with y show ?thesis by (auto simp: isl_def)
  qed simp
qed

definition fresh_process :: "(nat \<times> nat set) process" where
  "fresh_process = \<lparr>numa = start_world 25 75, counting = initial_counters, MEM_INIT = 0, naps = []\<rparr>"

text \<open>The third test finds it set: two lists are placed, and the second has a large block.\<close>

abbreviation growing_lists :: "nat \<Rightarrow> memory_segment list" where
  "growing_lists i \<equiv> (if i = 0 then []
     else [\<lparr>start_address = 0x700000, end_address = 0x8FFFFF, segment_name = ''mmap''\<rparr>])"

lemma memInitThread_ends_when_told_witness:
  "\<exists>s'. memInitThread accepting (\<lambda>k. if k < 2 then 0 else 1) growing_lists 0 fresh_process = Some (s', Inr ()) \<and>
     naps s' = [1000000, 1000000] \<and> length (syscalls (numa s')) = 2"
proof -
  let ?r = "initial_turns accepting (map growing_lists [0 ..< 2]) fresh_process"
  have "memInitThread accepting (\<lambda>k. if k < 2 then 0 else 1) growing_lists 0 fresh_process = Some ?r"
    using memInitThread_ends_when_told [of "\<lambda>k. if k < 2 then 0 else 1" 2 accepting growing_lists fresh_process] by simp
  moreover have "snd ?r = Inr () \<and> naps (fst ?r) = [1000000, 1000000] \<and> length (syscalls (numa (fst ?r))) = 2"
    by (simp add: upt_rec fresh_process_def on_numa_def nap_def then_step_def place_pages_weighted_initial_segment_def
        segment_length_def page_aligned_start_def page_aligned_length_def page_aligned_end_def page_align_down_def
        concrete_run step_simps)
  ultimately show ?thesis by (cases ?r) auto
qed

text \<open>
  The list that the weighted adaptive mode shares holds, in the order of the memory map,
  the page-aligned region of every segment larger than 1 MiB and nothing else, if the shared
  memory has room for them all; if not, the process ends.
\<close>

theorem weighted_adaptive_shares_large_segments:
  assumes "\<forall>i. 0 < i \<longrightarrow> room i = (i \<le> n)"
  shows "weighted_adaptiveThread P room pid segs =
    (if length (filter large segs) \<le> n
     then Inr (map (shared_entry P pid) (filter large segs))
     else Inl (Aborted ''terminate: boost::interprocess::bad_alloc''))"
  using share_segments_run [of "[]" room n P pid segs] assms by (auto simp: weighted_adaptiveThread_def)

lemma weighted_adaptive_shares_large_segments_witness:
  "weighted_adaptiveThread accepting (\<lambda>i. i \<le> 1) 7
     [\<lparr>start_address = 4096, end_address = 8191, segment_name = ''small''\<rparr>,
      \<lparr>start_address = 4194304, end_address = 8388607, segment_name = ''large''\<rparr>] =
   Inr [shared_entry accepting 7 \<lparr>start_address = 4194304, end_address = 8388607, segment_name = ''large''\<rparr>]"
  using weighted_adaptive_shares_large_segments [of "\<lambda>i. i \<le> 1" 1 accepting 7]
  by (simp add: segment_length_def)


section \<open>An allocation that fails\<close>

lemma updateHeap_returns:
  assumes "map_ok m"
  obtains m1 where "updateHeap e m = (m1, Inr ())" "only_heap_end m m1"
proof -
  obtain m1 r where u: "updateHeap e m = (m1, r)" by fastforce
  then have "r = Inr ()"
    using assms
    by (auto simp: updateHeap_def then_call then_step_def [of the_heap] map_ok_heap step_simps split: if_splits)
  with u updateHeap_run [OF assms] that show thesis by blast
qed

lemma rejected_placement_aborts:
  assumes "page_size_ok (sys_page_size P)" and "2 ^ 20 \<le> unat len" "unat len \<le> 2 ^ 47"
    and "nodes_info g = [x, y]" "node_weight x = Fin u" "percentage u" "1 \<le> u"
    and "\<And>cs c. mb_addr c = a \<Longrightarrow> fst (kernel P cs (Mbind c)) \<noteq> 0"
  shows "snd (place_pages_weighted_initial P a len g) = Inl (Aborted ''mbind interleave failed'')"
proof -
  define S where "S = (of_nat (unat len) :: rat)"
  have zero: "percentage 0" using representable_of_int [of 0 binary32] by (simp add: percentage_def binary32_def)
  have u: "0 \<le> u" "sizeable (u - 0)" using assms(7) by (simp_all add: sizeable_def pow2_def)
  have u100: "u \<le> 100" using assms(6) by (simp add: percentage_def)
  obtain t where t: "weighted_size 2 (fp_sub binary32 (Fin u) (Fin 0)) len = Inr t"
    and hi: "of_nat (unat t) \<le> of_nat 2 * ((u - 0) / 100) * of_nat (unat len) + share_error (unat len)"
    and lo: "of_nat 2 * ((u - 0) / 100) * of_nat (unat len) - share_error (unat len) - 1 \<le> of_nat (unat t)"
    by (rule weighted_size_share [OF zero assms(6) u _ assms(3), of 2]) auto
  have err: "share_error (unat len) = S / 1048576" unfolding share_error_def S_def by simp
  have "(of_nat (2 ^ 20) :: rat) \<le> S" unfolding S_def using assms(2) by (simp only: of_nat_le_iff)
  then have S: "1048576 \<le> S" by simp
  have prod: "1 * S \<le> u * S" "u * S \<le> 100 * S" using assms(7) u100 S by (intro mult_right_mono; simp)+
  have e2: "of_nat 2 * ((u - 0) / 100) * S = u * S / 50" by simp
  have "of_nat 1 \<le> (of_nat (unat t) :: rat)"
    using lo [folded S_def, unfolded err e2] prod(1) S unfolding of_nat_1 by linarith
  then have "1 \<le> unat t" by (simp only: of_nat_le_iff)
  then have "0 < unat t" by simp
  have "of_nat (unat t) \<le> 3 * S" using hi [folded S_def, unfolded err e2] prod(2) S by linarith
  then have "(of_nat (unat t) :: rat) \<le> of_nat (3 * unat len)" by (simp only: S_def of_nat_mult of_nat_numeral)
  then have "unat t \<le> 3 * unat len" by (simp only: of_nat_le_iff)
  with assms(3) have "unat t \<le> 2 ^ 60" by simp
  from up_ge(1) [OF assms(1) this] \<open>0 < unat t\<close> have "page_align_up (sys_page_size P) t \<noteq> 0" by auto
  moreover have ne: "(0 :: u64) \<noteq> len" "len \<noteq> 0" using assms(2) by auto
  ultimately have m: "min (page_align_up (sys_page_size P) t) (len - 0) \<noteq> 0" by (simp add: min_def)
  have t2: "weighted_size (length [x, y]) (fp_sub binary32 (node_weight x) (Fin 0)) len = Inr t"
    using t assms(5) by (simp flip: numeral_2_eq_2)
  show ?thesis
    unfolding place_pages_weighted_initial_def assms(4) weighted_loop_turn [OF ne(1) t2 refl refl]
    using m assms(8) by (simp add: then_step_def mbind_or_die_eq)
qed

text \<open>
  C32: an allocation that fails. When the real \<open>malloc\<close> returns a null pointer for more than
  1 MiB and a scanning or weighted adaptive mode is selected, the null block is added to the
  list and placed; the kernel rejects the range, and the process aborts where it would have
  been told that there is no memory.
\<close>

theorem failed_malloc_aborts:
  assumes "k \<in> {Scan, Weighted_adaptive}" and "page_size_ok (sys_page_size P)" and "map_ok m"
    and "start_address (heap_segment m) \<noteq> 0"
    and "ret_addr e (mem_calls m) (C_malloc n) = 0" and "2 ^ 20 < n" and "n \<le> 2 ^ 46"
    and "nodes_info (mode_state m) = [x, y]" and "node_weight x = Fin u" and "percentage u" and "1 \<le> u"
    and "\<forall>cs c. mb_addr c = 0 \<longrightarrow> fst (kernel P cs (Mbind c)) \<noteq> 0"
  shows "snd (handle_request e (mode_hooks P k) (R_malloc n) m) = Inl (Aborted ''mbind interleave failed'')"
proof -
  let ?m1 = "m\<lparr>mem_calls := mem_calls m @ [C_malloc n]\<rparr>"
  let ?s = "\<lparr>start_address = 0, end_address = n - 1, segment_name = ''malloc''\<rparr>"
  have "map_ok ?m1" using assms(3) by simp
  then obtain m2 where m2: "updateHeap e ?m1 = (m2, Inr ())" "only_heap_end ?m1 m2" by (rule updateHeap_returns)
  then have ok2: "map_ok m2" "mode_state m2 = mode_state m" "\<not> heap_has m2 0"
    using assms(4) by (auto simp: only_heap_end_def heap_has_def contains_addr_def)
  note psz = assms(2)
  have n: "2 ^ 20 < unat n" "unat n \<le> 2 ^ 46" using assms(6,7) by (simp_all add: word_less_nat_alt word_le_nat_alt)
  have "1 \<le> n" using n(1) by (simp add: word_le_nat_alt)
  then have n1: "unat (n - 1) = unat n - 1" using unat_diff_le [of 1 n] by simp
  have len: "page_aligned_start (sys_page_size P) ?s = 0"
    "page_aligned_length (sys_page_size P) ?s = page_align_up (sys_page_size P) (n - 1)"
    by (simp_all add: page_aligned_start_def page_aligned_length_def page_aligned_end_def page_align_down_def)
  have b: "page_bytes (sys_page_size P) \<le> 2 ^ 30" by (rule page_bytes_bound [OF psz])
  have "unat (n - 1) + page_bytes (sys_page_size P) \<le> 2 ^ 64" using n n1 b by simp
  from round_up_bounds [OF page_bytes_pos [OF psz], of "unat (n - 1)"] unat_page_align_up [OF psz this]
  have L: "unat (n - 1) \<le> unat (page_align_up (sys_page_size P) (n - 1))"
    "unat (page_align_up (sys_page_size P) (n - 1)) < unat (n - 1) + page_bytes (sys_page_size P)"
    by simp_all
  have "snd (on_addition (mode_hooks P k) ?s (mode_state m)) = Inl (Aborted ''mbind interleave failed'')"
  proof -
    have "2 ^ 14 < n" using assms(6) by (rule order_less_trans [rotated]) simp
    then have "on_addition (mode_hooks P k) ?s (mode_state m) =
        place_pages_weighted_initial P 0 (page_align_up (sys_page_size P) (n - 1)) (mode_state m)"
      using assms(1,6) len by (auto simp: place_new_segment_def place_pages_weighted_initial_segment_def segment_length_def)
    moreover have "2 ^ 20 \<le> unat (page_align_up (sys_page_size P) (n - 1))"
      "unat (page_align_up (sys_page_size P) (n - 1)) \<le> 2 ^ 47"
      using L n n1 b by simp_all
    ultimately show ?thesis
      using rejected_placement_aborts [OF psz _ _ assms(8-11), of _ 0] assms(12) by simp
  qed
  then have "snd (add_segment (mode_hooks P k) ?s m2) = Inl (Aborted ''mbind interleave failed'')"
    using ok2(2) by (auto simp: add_segment_def in_mode_def emplace_back_def split: prod.splits)
  then show ?thesis
    using m2(1) ok2(3)
    by (simp add: handle_malloc_def then_call assms(5) Let_def then_step_def [of "updateHeap e"] then_in_heap [OF ok2(1)])
      (auto simp: then_step_def split: prod.splits)
qed


definition null_libc :: libc where
  "null_libc = demo_libc\<lparr>ret_addr := (\<lambda>_ c. if c = C_sbrk_0 then 0x622000 else 0)\<rparr>"

definition rejecting :: "(nat \<times> nat set) platform" where
  "rejecting = set_platform 4096 2
     (\<lambda>_ c. case c of Mbind b \<Rightarrow> (if mb_addr b = 0 then (- 1, 14) else (0, 0)) | _ \<Rightarrow> (0, 0))"

lemma failed_malloc_aborts_witness:
  "snd (handle_request null_libc (mode_hooks rejecting Scan) (R_malloc 0x200000) scan_map) =
     Inl (Aborted ''mbind interleave failed'')"
proof -
  have ok: "map_ok scan_map" by (simp add: map_ok_def scan_map_def)
  have "representable binary32 (of_int 25)" by (rule representable_of_int; simp add: binary32_def)+
  then have w: "percentage 25" by (simp add: percentage_def)
  show ?thesis
    using failed_malloc_aborts [where k = Scan and P = rejecting and m = scan_map and e = null_libc
        and n = "0x200000" and u = 25, OF _ _ ok] w
    by (simp add: rejecting_def null_libc_def heap_segment_def scan_map_def start_world_def two_nodes_def
        del: handle_request.simps mode_hooks.simps)
qed

end
