(* ===== verification/Adaptive_Search.thy ===== *)
theory Adaptive_Search
  imports Mode_Properties
begin

text \<open>
  The search of \<open>AdaptiveMode::adaptiveThread\<close>: which ratios it tries, what it logs, and what
  its result means.
\<close>

section \<open>The percentages\<close>

text \<open>The percentages that the loop tries when it is at \<open>pct\<close>, if it is not stopped.\<close>

fun candidates_up_to :: "nat \<Rightarrow> nat \<Rightarrow> nat list" where
  "candidates_up_to 0 pct = []"
| "candidates_up_to (Suc n) pct =
     (if 100 < pct then []
      else if pct mod 10 = 0 \<and> pct \<noteq> 100 then candidates_up_to n (pct + 10)
      else pct # candidates_up_to n (pct + 10))"

definition candidates :: "nat \<Rightarrow> nat list" where
  "candidates pct = candidates_up_to 11 pct"

lemma candidates_up_to_enough:
  "101 - pct \<le> 10 * n \<Longrightarrow> candidates_up_to (n + k) pct = candidates_up_to n pct"
proof (induction n arbitrary: pct)
  case 0
  then have "100 < pct" by simp
  then show ?case by (cases k) simp_all
next
  case (Suc n)
  then have "101 - (pct + 10) \<le> 10 * n" by simp
  from Suc.IH [OF this] show ?case by (cases "pct = 100") simp_all
qed

lemma candidates_step:
  "candidates pct =
     (if 100 < pct then []
      else if pct mod 10 = 0 \<and> pct \<noteq> 100 then candidates (pct + 10)
      else pct # candidates (pct + 10))"
proof -
  have "101 - (pct + 10) \<le> 10 * 10" by simp
  from candidates_up_to_enough [OF this, of 1]
  have "candidates_up_to 11 (pct + 10) = candidates_up_to 10 (pct + 10)" by simp
  moreover have "candidates_up_to (Suc 10) pct =
     (if 100 < pct then []
      else if pct mod 10 = 0 \<and> pct \<noteq> 100 then candidates_up_to 10 (pct + 10)
      else pct # candidates_up_to 10 (pct + 10))" by (rule candidates_up_to.simps)
  ultimately show ?thesis by (simp add: candidates_def)
qed

text \<open>
  From a multiple of 10 only 100 is left; from another multiple of 5, the numbers that end in 5.
\<close>

definition ratios_tried :: "nat \<Rightarrow> nat list" where
  "ratios_tried f = (if f mod 10 = 0 then [100] else filter (\<lambda>p. p mod 10 = 5) [f ..< 100])"

lemma candidates_closed_form: "j \<le> 20 \<Longrightarrow> candidates (5 * j) = ratios_tried (5 * j)"
proof -
  have "list_all (\<lambda>j. candidates (5 * j) = ratios_tried (5 * j)) [0 ..< 21]" by code_simp
  then show "j \<le> 20 \<Longrightarrow> candidates (5 * j) = ratios_tried (5 * j)" by (simp add: list_all_iff)
qed

lemma first_percentage_multiple:
  assumes "1 \<le> n"
  obtains j where "first_percentage n = 5 * j" "j \<le> 20"
proof -
  have "100 div n \<le> 100" using assms zdiv_mono2 [of 100 1 n] by simp
  then have "nat (100 div n + 4) \<le> 104" by simp
  then have "nat (100 div n + 4) div 5 \<le> 104 div 5" by (rule div_le_mono)
  then show thesis by (intro that [of "nat (100 div n + 4) div 5"]) (simp_all add: first_percentage_def)
qed

section \<open>The loop\<close>

text \<open>What one placement leaves in the log.\<close>

definition trial_log :: "nat \<times> fp \<Rightarrow> log_entry list" where
  "trial_log t = (case t of (pct, rate) \<Rightarrow>
     [Ratio_only (percentage_ratio pct), Ratio_rate (percentage_ratio pct) rate])"

abbreviation entries :: "'b process \<Rightarrow> log_entry list" where
  "entries s \<equiv> log_entries (counting s)"

lemma on_counters_Inr:
  "on_counters f s = (s', Inr x) \<longleftrightarrow> (\<exists>c. f (counting s) = (c, Inr x) \<and> s' = s\<lparr>counting := c\<rparr>)"
  by (auto simp: on_counters_def split: prod.splits)

lemma on_numa_keeps: "on_numa f s = (s', Inr x) \<Longrightarrow> counting s' = counting s"
  by (auto simp: on_numa_def split: prod.splits)

lemma nap_Inr: "nap n s = (s', Inr u) \<Longrightarrow> counting s' = counting s"
  by (auto simp: nap_def)

lemma log_runs:
  "unstickymem_log_ratio p r c = (c', Inr u) \<Longrightarrow> log_entries c' = log_entries c @ [Ratio_only r]"
  "unstickymem_log p r x c = (c', Inr u) \<Longrightarrow> log_entries c' = log_entries c @ [Ratio_rate r x]"
  by (auto simp: unstickymem_log_ratio_def unstickymem_log_def then_step_Inr_iff)

lemma average_keeps_log:
  "get_average_stall_rate p n usec k c = (c', Inr r) \<Longrightarrow> log_entries c' = log_entries c"
  using get_average_stall_rate_run(2) [of p n usec k c c' r] by (simp add: same_setup_def)

lemma try_ratio_log:
  assumes "try_ratio P p opt segs (percentage_ratio pct) s = (s', Inr rate)"
  shows "entries s' = entries s @ trial_log (pct, rate)"
proof -
  obtain s1 s2 c3 c4 c5 where
    "on_numa (place_all_pages_adaptive P segs (percentage_ratio pct)) s = (s1, Inr ())"
    "nap 200000 s1 = (s2, Inr ())"
    "unstickymem_log_ratio p (percentage_ratio pct) (counting s2) = (c3, Inr ())"
    "get_average_stall_rate p (num_polls opt) (poll_sleep opt) (num_poll_outliers opt) c3 = (c4, Inr rate)"
    "unstickymem_log p (percentage_ratio pct) rate c4 = (c5, Inr ())" "counting s' = c5"
    using assms by (auto simp: try_ratio_def then_step_Inr_iff on_counters_Inr)
  then show ?thesis
    by (simp add: trial_log_def on_numa_keeps nap_Inr log_runs average_keeps_log)
qed

lemma confirm_worse_log:
  "confirm_worse p opt rate best s = (s', Inr stop) \<Longrightarrow>
     entries s' = entries s \<and> (stop \<longrightarrow> worse_than rate best)"
  by (auto simp: confirm_worse_def then_step_Inr_iff on_counters_Inr average_keeps_log split: if_splits)

text \<open>The ratios tried and their rates, when the loop ends.\<close>

definition search_result ::
  "nat list \<Rightarrow> fp \<Rightarrow> fp \<Rightarrow> fp list \<Rightarrow> log_entry list \<Rightarrow> fp \<Rightarrow> fp \<Rightarrow> bool" where
  "search_result cands ratio0 best0 rates new ratio best \<longleftrightarrow>
     length rates \<le> length cands \<and> new = concat (map trial_log (zip cands rates)) \<and>
     best = foldl fp_min best0 rates \<and>
     ratio = (if rates = [] then ratio0 else percentage_ratio (cands ! (length rates - 1))) \<and>
     (length rates < length cands \<longrightarrow> rates \<noteq> [] \<and> worse_than (last rates) best)"

lemma search_result_Nil: "search_result [] ratio best [] [] ratio best"
  by (simp add: search_result_def)

lemma search_result_Cons:
  assumes "search_result cands (percentage_ratio pct) (fp_min best0 rate) rates new ratio best"
  shows "search_result (pct # cands) ratio0 best0 (rate # rates) (trial_log (pct, rate) @ new) ratio best"
  using assms by (auto simp: search_result_def nth_Cons' split: if_splits)

lemma search_result_stop:
  "worse_than rate (fp_min best0 rate) \<Longrightarrow>
     search_result (pct # cands) ratio0 best0 [rate] (trial_log (pct, rate)) (percentage_ratio pct) (fp_min best0 rate)"
  by (simp add: search_result_def)

lemma adaptive_loop_result:
  assumes "adaptive_loop P p opt segs k pct ratio0 best0 s = (s', Inr (ratio, best))"
  shows "\<exists>rates new. entries s' = entries s @ new \<and> search_result (candidates pct) ratio0 best0 rates new ratio best"
  using assms
proof (induction P p opt segs k pct ratio0 best0 arbitrary: s rule: adaptive_loop.induct)
  case (1 P p opt segs k pct ratio0 best0)
  note run = "1.prems" [unfolded adaptive_loop.simps [of P p opt segs k pct]]
  consider (over) "100 < pct" | (skip) "pct \<le> 100" "pct mod 10 = 0 \<and> pct \<noteq> 100"
    | (tried) "pct \<le> 100" "\<not> (pct mod 10 = 0 \<and> pct \<noteq> 100)" by linarith
  then show ?case
  proof cases
    case over
    with run have "s' = s" "ratio = ratio0" "best = best0" by simp_all
    moreover have "candidates pct = []" using over by (subst candidates_step) simp
    ultimately show ?thesis using search_result_Nil by (intro exI [of _ "[]"]) simp
  next
    case skip
    then have "candidates pct = candidates (pct + 10)" by (subst candidates_step) simp
    with "1.IH"(1) [of s] run skip show ?thesis by (simp add: ADAPTATION_STEP_def)
  next
    case tried
    then have cands: "candidates pct = pct # candidates (pct + 10)" by (subst candidates_step) auto
    from run tried obtain s1 rate s2 stop where
      t: "try_ratio P p opt (segs k) (percentage_ratio pct) s = (s1, Inr rate)" and
      c: "confirm_worse p opt rate (fp_min best0 rate) s1 = (s2, Inr stop)" and
      rest: "(if stop then done_step (percentage_ratio pct, fp_min best0 rate)
        else adaptive_loop P p opt segs (k + 1) (pct + ADAPTATION_STEP) (percentage_ratio pct) (fp_min best0 rate)) s2 =
        (s', Inr (ratio, best))"
      by (auto simp: then_step_Inr_iff Let_def)
    have log: "entries s2 = entries s @ trial_log (pct, rate)" "stop \<longrightarrow> worse_than rate (fp_min best0 rate)"
      using try_ratio_log [OF t] confirm_worse_log [OF c] by simp_all
    show ?thesis
    proof (cases stop)
      case True
      with rest have "s' = s2" "ratio = percentage_ratio pct" "best = fp_min best0 rate" by simp_all
      with log True search_result_stop show ?thesis unfolding cands by blast
    next
      case False
      with rest have loop: "adaptive_loop P p opt segs (k + 1) (pct + ADAPTATION_STEP) (percentage_ratio pct)
          (fp_min best0 rate) s2 = (s', Inr (ratio, best))" by simp
      have "\<exists>rates new. entries s' = entries s2 @ new \<and>
        search_result (candidates (pct + 10)) (percentage_ratio pct) (fp_min best0 rate) rates new ratio best"
        if "\<not> b" for b
        using "1.IH"(2) [OF _ _ refl _ loop] tried that by (simp add: ADAPTATION_STEP_def)
      from this [of False] obtain rates new where r: "entries s' = entries s2 @ new"
        "search_result (candidates (pct + 10)) (percentage_ratio pct) (fp_min best0 rate) rates new ratio best"
        by blast
      from search_result_Cons [OF r(2), of ratio0] r(1) log(1) show ?thesis
        unfolding cands by (intro exI [of _ "rate # rates"] exI [of _ "trial_log (pct, rate) @ new"]) simp
    qed
  qed
qed


lemma adaptiveThread_result:
  assumes "1 \<le> configured_nodes P" "adaptiveThread P p opt segs s = (s', Inr (ratio, best))"
  shows "\<exists>rates new. entries s' = entries s @ new \<and>
    search_result (ratios_tried (first_percentage (configured_nodes P)))
      (fp_div binary64 (Fin 1) (fp_of_int binary64 (configured_nodes P))) PInf rates new ratio best"
proof -
  obtain c1 r1 c2 r2 s3 where
    c1: "get_stall_rate_v2 p (counting s) = (c1, Inr r1)" and
    c2: "get_elapsed_stall_rate p c1 = (c2, Inr r2)" and
    s3: "nap (wait_start opt * 1000000) (s\<lparr>counting := c2\<rparr>) = (s3, Inr ())" and
    loop: "adaptive_loop P p opt segs 0 (first_percentage (configured_nodes P))
      (fp_div binary64 (Fin 1) (fp_of_int binary64 (configured_nodes P))) PInf s3 = (s', Inr (ratio, best))"
    using assms(2) by (auto simp: adaptiveThread_def then_step_Inr_iff on_counters_Inr)
  have "entries s3 = entries s"
    using get_stall_rate_v2_run [OF c1] get_elapsed_stall_rate_run [OF c2] nap_Inr [OF s3]
    by (simp add: same_setup_def)
  moreover obtain j where "first_percentage (configured_nodes P) = 5 * j" "j \<le> 20"
    by (rule first_percentage_multiple [OF assms(1)])
  ultimately show ?thesis using adaptive_loop_result [OF loop] candidates_closed_form [of j] by simp
qed

lemma ratios_tried_nonempty: "j \<le> 20 \<Longrightarrow> ratios_tried (5 * j) \<noteq> []"
proof -
  have "list_all (\<lambda>j. ratios_tried (5 * j) \<noteq> []) [0 ..< 21]" by code_simp
  then show "j \<le> 20 \<Longrightarrow> ratios_tried (5 * j) \<noteq> []" by (simp add: list_all_iff)
qed

section \<open>Properties\<close>

text \<open>
  C14: the search of the adaptive mode. A run that returns tries the percentages of a fixed
  list in order and logs each with its rate; the rate it reports is the least one, the ratio
  it leaves in place is the last one tried, and if it stopped before the end of the list the
  last rate was worse than the best by more than one in a thousand.
\<close>

theorem adaptive_search:
  assumes "1 \<le> configured_nodes P" and "adaptiveThread P p opt segs s = (s', Inr (ratio, best))"
    and "T = ratios_tried (first_percentage (configured_nodes P))"
  shows "\<exists>rates. rates \<noteq> [] \<and> length rates \<le> length T \<and>
    entries s' = entries s @ concat (map trial_log (zip T rates)) \<and>
    best = foldl fp_min PInf rates \<and> ratio = percentage_ratio (T ! (length rates - 1)) \<and>
    (length rates < length T \<longrightarrow> worse_than (last rates) best)"
proof -
  obtain j where "first_percentage (configured_nodes P) = 5 * j" "j \<le> 20"
    by (rule first_percentage_multiple [OF assms(1)])
  then have "T \<noteq> []" using ratios_tried_nonempty [of j] assms(3) by simp
  moreover obtain rates new where r: "entries s' = entries s @ new"
    "search_result T (fp_div binary64 (Fin 1) (fp_of_int binary64 (configured_nodes P))) PInf rates new ratio best"
    using adaptiveThread_result [OF assms(1,2)] assms(3) by blast
  ultimately have "rates \<noteq> []" by (auto simp: search_result_def)
  with r show ?thesis unfolding search_result_def by (intro exI [of _ rates]) argo
qed

text \<open>A run on two nodes, with counters that are running and never count a stall.\<close>

definition idle_pmu :: pmu where
  "idle_pmu = calm_pmu\<lparr>pmu_value := (\<lambda>_. Fin 0)\<rparr>"

definition idle_process :: "(nat \<times> nat set) process" where
  "idle_process =
     \<lparr>numa = start_world 25 75,
      counting = fst (initialize_likwid idle_pmu plain_settings initial_counters),
      MEM_INIT = 0, naps = []\<rparr>"

definition quick_options :: mode_options where
  "quick_options = \<lparr>wait_start = 0, num_polls = 1, num_poll_outliers = 0, poll_sleep = 0\<rparr>"

lemma no_worse_than_zero [simp]: "\<not> worse_than (Fin 0) (Fin 0)"
  by (cases "fp_of_rat binary64 (1001 / 1000)") (simp_all add: worse_than_def exact_fp fp_inf_def)

lemmas concrete_search = idle_pmu_def concrete_counting get_stall_rate_v2_def read_stalls_def
  perfmon_getResult_def readtsc_def join_halves_def rate_between_def fp_of_int_def exact_fp fp_sub_def
  adaptiveThread_def on_counters_def get_elapsed_stall_rate_def nap_def quick_options_def
  first_percentage_def adaptive_loop.simps ADAPTATION_STEP_def try_ratio_def percentage_ratio_def
  on_numa_def unstickymem_log_ratio_def unstickymem_log_def get_average_stall_rate_def
  average_filtered_def filter_outliers_def average_def confirm_worse_def fp_min_def idle_process_def

lemma quick_run:
  "snd (adaptiveThread accepting idle_pmu quick_options (\<lambda>_. []) idle_process) = Inr (Fin 1, Fin 0)"
  by (simp add: concrete_search Let_def)

lemma quick_run_pair:
  "adaptiveThread accepting idle_pmu quick_options (\<lambda>_. []) idle_process =
     (fst (adaptiveThread accepting idle_pmu quick_options (\<lambda>_. []) idle_process), Inr (Fin 1, Fin 0))"
  using quick_run by (simp add: prod_eq_iff)

lemma accepting_two_nodes [simp]: "configured_nodes accepting = 2"
  by (simp add: accepting_def)

lemma two_nodes_one_ratio: "ratios_tried (first_percentage 2) = [100]"
  by (simp add: ratios_tried_def first_percentage_def)

lemma adaptive_search_witness:
  "\<exists>rates. rates \<noteq> [] \<and> Fin 0 = foldl fp_min PInf rates \<and>
     Fin 1 = percentage_ratio ([100] ! (length rates - 1))"
  using adaptive_search [OF _ quick_run_pair refl] by (auto simp: two_nodes_one_ratio)

end
