(* ===== verification/Weights.thy ===== *)
theory Weights
  imports Maps_Line Page_Moves
begin

text \<open>
  The node weights: \<open>read_weights\<close>, \<open>check_sum\<close> and \<open>get_sum_nww_ww\<close> of
  src/unstickymem/unstickymem.cpp, and the two functions of
  src/unstickymem/PagePlacement.cpp that shift weight between the worker and the other nodes
  before they place pages, \<open>place_pages_weighted_s\<close> and \<open>place_pages_weighted_dwp\<close>. With
  it the parts of the C library they use: \<open>strtok_r\<close>, \<open>atof\<close>, \<open>atoi\<close>, \<open>lround\<close>.
\<close>

section \<open>Text to numbers\<close>

text \<open>\<open>strtok_r\<close> with the delimiter string of one blank: the token and what follows it.\<close>

definition next_token :: "string \<Rightarrow> (string \<times> string) option" where
  "next_token s =
     (let s1 = dropWhile (\<lambda>c. c = CHR '' '') s
      in if s1 = [] then None
         else Some (takeWhile (\<lambda>c. c \<noteq> CHR '' '') s1, tl (dropWhile (\<lambda>c. c \<noteq> CHR '' '') s1)))"

definition to_lower :: "char \<Rightarrow> char" where
  "to_lower c = (let n = of_char c :: nat in if 65 \<le> n \<and> n \<le> 90 then char_of (n + 32) else c)"

text \<open>An optional sign, and the rest.\<close>

definition split_sign :: "string \<Rightarrow> bool \<times> string" where
  "split_sign s =
     (case s of
        c # cs \<Rightarrow> if c = CHR ''-'' then (True, cs) else if c = CHR ''+'' then (False, cs) else (False, s)
      | [] \<Rightarrow> (False, s))"

text \<open>The exponent part: \<open>0\<close> unless the letter and at least one digit are there.\<close>

definition exponent_part :: "char \<Rightarrow> string \<Rightarrow> int" where
  "exponent_part letter s =
     (case s of
        c # cs \<Rightarrow>
          if to_lower c = letter then
            let (neg, r) = split_sign cs; ds = takeWhile (is_digit 10) r
            in if ds = [] then 0 else (if neg then - digits_value 10 0 ds else digits_value 10 0 ds)
          else 0
      | [] \<Rightarrow> 0)"

text \<open>
  A number without its sign: digits with at most one point, then an exponent. \<open>None\<close> when
  there is no digit.
\<close>

definition scan_fraction :: "nat \<Rightarrow> char \<Rightarrow> rat \<Rightarrow> rat \<Rightarrow> string \<Rightarrow> rat option" where
  "scan_fraction base letter exp_base digit_base s =
     (let ds = takeWhile (is_digit base) s;
          r = dropWhile (is_digit base) s;
          (fs, r2) =
            (case r of
               c # cs \<Rightarrow> if c = CHR ''.'' then (takeWhile (is_digit base) cs, dropWhile (is_digit base) cs)
                         else ([], r)
             | [] \<Rightarrow> ([], r))
      in if ds @ fs = [] then None
         else Some (of_int (digits_value base 0 (ds @ fs)) *
           (exp_base powi exponent_part letter r2) * (digit_base powi (- int (length fs)))))"

text \<open>\<open>atof\<close>: \<open>strtod\<close> without its end pointer; text that is no number gives 0.\<close>

definition c_atof :: "string \<Rightarrow> fp" where
  "c_atof s =
     (let (neg, r) = split_sign (skip_space s);
          v = (if map to_lower (take 3 r) = ''inf'' then PInf
               else if map to_lower (take 3 r) = ''nan'' then NaN
               else case (if map to_lower (take 2 r) = ''0x'' then scan_fraction 16 CHR ''p'' 2 16 (drop 2 r) else None) of
                 Some x \<Rightarrow> fp_of_rat binary64 x
               | None \<Rightarrow> (case scan_fraction 10 CHR ''e'' 10 10 r of
                   Some x \<Rightarrow> fp_of_rat binary64 x | None \<Rightarrow> Fin 0))
      in if neg then fp_neg v else v)"

text \<open>\<open>atoi\<close>: \<open>strtol\<close> in base 10, which saturates, narrowed to \<open>int\<close>.\<close>

definition narrow_int :: "int \<Rightarrow> int" where
  "narrow_int n = sint (of_int n :: int32)"

definition c_atoi :: "string \<Rightarrow> int" where
  "c_atoi s =
     (let (neg, r) = split_sign (skip_space s);
          v = digits_value 10 0 (takeWhile (is_digit 10) r);
          w = (if neg then - v else v)
      in narrow_int (max (- (2 ^ 63)) (min (2 ^ 63 - 1) w)))"

section \<open>Reading the weights\<close>

text \<open>
  The environment: the status of the shell's \<open>sort -n\<close> on the file, and the lines of the file
  after it, \<open>None\<close> if it cannot be opened.
\<close>

record weights_file =
  sort_status :: int
  sorted_lines :: "string list option"

fun read_entries :: "nat \<Rightarrow> string list \<Rightarrow> node_record list \<Rightarrow> node_record list result" where
  "read_entries j [] ns = Inr ns"
| "read_entries j (l # ls) ns =
     (case next_token l of
        None \<Rightarrow> Inl (Undefined ''atof of a null pointer'')
      | Some (t1, rest) \<Rightarrow>
          if length ns \<le> j then Inl (Undefined ''nodes_info out of bounds'')
          else
            let ns1 = ns[j := (ns ! j)\<lparr>node_weight := fp_convert binary32 (c_atof t1)\<rparr>]
            in case next_token rest of
                 None \<Rightarrow> Inl (Undefined ''atoi of a null pointer'')
               | Some (t2, _) \<Rightarrow> read_entries (j + 1) ls (ns1[j := (ns1 ! j)\<lparr>node_id := c_atoi t2\<rparr>]))"

definition read_weights :: "weights_file \<Rightarrow> ('b, unit) step" where
  "read_weights f g =
     (if sort_status f = - 1 then (g, Inl (Exited 1))
      else case sorted_lines f of
        None \<Rightarrow> (g, Inl (Exited 1))
      | Some ls \<Rightarrow>
          (case read_entries 0 ls (nodes_info g) of
             Inl e \<Rightarrow> (g, Inl e)
           | Inr ns \<Rightarrow> (g\<lparr>nodes_info := ns\<rparr>, Inr ())))"

section \<open>Sums of weights\<close>

fun fp_lround :: "fp \<Rightarrow> int result" where
  "fp_lround (Fin x) =
     (let n = round_away x
      in if - (2 ^ 63) \<le> n \<and> n < 2 ^ 63 then Inr n else Inl (Undefined ''lround out of range''))"
| "fp_lround v = Inl (Undefined ''lround out of range'')"

definition sum_weights :: "node_record list \<Rightarrow> fp" where
  "sum_weights ns = foldl (\<lambda>s r. fp_add binary64 s (fp_convert binary64 (node_weight r))) (Fin 0) ns"

definition check_sum :: "node_record list \<Rightarrow> int result" where
  "check_sum ns = bind_result (fp_lround (sum_weights ns)) (\<lambda>n. Inr (narrow_int n))"

text \<open>The one worker node of the two supported numbers of workers.\<close>

definition worker_id :: "int \<Rightarrow> int option" where
  "worker_id workers = (if workers = 1 then Some 0 else if workers = 2 then Some 1 else None)"

definition add_weights :: "int \<Rightarrow> node_record list \<Rightarrow> fp \<times> fp \<Rightarrow> fp \<times> fp" where
  "add_weights worker ns acc =
     foldl (\<lambda>(ww, nww) r.
       if node_id r = worker then (fp_add binary64 ww (fp_convert binary64 (node_weight r)), nww)
       else (ww, fp_add binary64 nww (fp_convert binary64 (node_weight r)))) acc ns"

definition get_sum_nww_ww :: "int \<Rightarrow> ('b, unit) step" where
  "get_sum_nww_ww workers g =
     (case worker_id workers of
        None \<Rightarrow> (g, Inl (Exited 1))
      | Some k \<Rightarrow>
          let (ww, nww) = add_weights k (nodes_info g) (sum_ww g, sum_nww g);
              g1 = g\<lparr>sum_ww := ww, sum_nww := nww\<rparr>
          in case fp_to_int32 (fp_round (fp_add binary64 nww ww)) of
               Inl e \<Rightarrow> (g1, Inl e)
             | Inr n \<Rightarrow> if n \<noteq> 100 then (g1, Inl (Exited (- 1))) else (g1, Inr ()))"

section \<open>Shifting weight to or from the workers\<close>

text \<open>
  The new weight of one record, rounded to a tenth in \<open>place_pages_weighted_s\<close>, to an integer
  in \<open>place_pages_weighted_dwp\<close>, where the other nodes get what is left of 100.
\<close>

definition shifted_weight_s :: "int \<Rightarrow> fp \<Rightarrow> fp \<Rightarrow> fp \<Rightarrow> node_record \<Rightarrow> fp" where
  "shifted_weight_s worker ww nww new_s r =
     (let w = fp_convert binary64 (node_weight r);
          x = (if node_id r = worker then fp_mul binary64 (fp_div binary64 w ww) new_s
               else fp_mul binary64 (fp_div binary64 w nww)
                 (fp_sub binary64 (fp_of_int binary64 100) new_s))
      in fp_convert binary32
           (fp_div binary64 (fp_round (fp_mul binary64 x (fp_of_int binary64 10))) (fp_of_int binary64 10)))"

definition shifted_weight_dwp :: "int \<Rightarrow> fp \<Rightarrow> fp \<Rightarrow> node_record \<Rightarrow> fp" where
  "shifted_weight_dwp worker ww new_s r =
     (if node_id r = worker
      then fp_convert binary32 (fp_round (fp_mul binary64
             (fp_div binary64 (fp_convert binary64 (node_weight r)) ww) new_s))
      else fp_convert binary32 (fp_round (fp_sub binary64 (fp_of_int binary64 100) new_s)))"

definition set_temp :: "(node_record \<Rightarrow> fp) \<Rightarrow> node_record list \<Rightarrow> node_record list \<Rightarrow> node_record list" where
  "set_temp f ns temp = map2 (\<lambda>r t. t\<lparr>node_id := node_id r, node_weight := f r\<rparr>) ns temp"

text \<open>
  The common first part: done once, until \<open>place_all_pages\<close> resets \<open>weight_initialized\<close>.
\<close>

definition initialize_temp :: "(int \<Rightarrow> node_record \<Rightarrow> fp) \<Rightarrow> ('b, unit) step" where
  "initialize_temp f g =
     (if weight_initialized g then (g, Inr ())
      else case worker_id (num_workers g) of
        None \<Rightarrow> (g, Inl (Exited (- 1)))
      | Some k \<Rightarrow>
          let g1 = g\<lparr>nodes_info_temp := set_temp (f k) (nodes_info g) (nodes_info_temp g)\<rparr>
          in case check_sum (nodes_info_temp g1) of
               Inl e \<Rightarrow> (g1, Inl e)
             | Inr n \<Rightarrow>
                 if n \<noteq> 100 then (g1, Inl (Exited (- 1)))
                 else (g1\<lparr>weight_initialized := True\<rparr>, Inr ()))"

definition place_pages_weighted_s :: "'b platform \<Rightarrow> addr \<Rightarrow> u64 \<Rightarrow> fp \<Rightarrow> ('b, unit) step" where
  "place_pages_weighted_s P a len s g =
     then_step
       (initialize_temp (\<lambda>k. shifted_weight_s k (sum_ww g) (sum_nww g) (fp_add binary64 (sum_ww g) s)))
       (\<lambda>_. place_pages_weighted P a len) g"

definition place_pages_weighted_dwp :: "'b platform \<Rightarrow> addr \<Rightarrow> u64 \<Rightarrow> fp \<Rightarrow> ('b, unit) step" where
  "place_pages_weighted_dwp P a len s g =
     then_step
       (initialize_temp (\<lambda>k. shifted_weight_dwp k (sum_ww g) (fp_sub binary64 (sum_ww g) s)))
       (\<lambda>_. move_pages_remote P a len s) g"

section \<open>Lines of a weights file\<close>

text \<open>A line with a weight, a blank, a node id and the end of line.\<close>

definition weight_line :: "string \<times> string \<Rightarrow> string" where
  "weight_line e = fst e @ '' '' @ snd e @ [CHR 0x0A]"

definition weight_entry_ok :: "string \<times> string \<Rightarrow> bool" where
  "weight_entry_ok e \<longleftrightarrow>
     fst e \<noteq> [] \<and> list_all (\<lambda>c. c \<noteq> CHR '' '') (fst e) \<and>
     digit_string 10 (snd e) \<and> digits_value 10 0 (snd e) < 2 ^ 31"

definition entry_of :: "string \<times> string \<Rightarrow> node_record \<Rightarrow> node_record" where
  "entry_of e r =
     r\<lparr>node_weight := fp_convert binary32 (c_atof (fst e)), node_id := digits_value 10 0 (snd e)\<rparr>"

lemma next_token_here:
  assumes "t \<noteq> []" "list_all (\<lambda>c. c \<noteq> CHR '' '') t"
  shows "next_token (t @ CHR '' '' # rest) = Some (t, rest)" "next_token t = Some (t, [])"
proof -
  obtain c cs where t: "t = c # cs" "c \<noteq> CHR '' ''" using assms by (cases t) auto
  have tw: "takeWhile (\<lambda>c. c \<noteq> CHR '' '') (t @ CHR '' '' # rest) = t"
    "dropWhile (\<lambda>c. c \<noteq> CHR '' '') (t @ CHR '' '' # rest) = CHR '' '' # rest"
    "takeWhile (\<lambda>c. c \<noteq> CHR '' '') t = t" "dropWhile (\<lambda>c. c \<noteq> CHR '' '') t = []"
    using assms(2) by (auto simp: list_all_iff takeWhile_append dropWhile_append)
  have dw: "dropWhile (\<lambda>c. c = CHR '' '') (t @ r) = t @ r" for r using t by simp
  have dt: "dropWhile (\<lambda>c. c = CHR '' '') t = t" using t by simp
  show "next_token (t @ CHR '' '' # rest) = Some (t, rest)"
    unfolding next_token_def Let_def dw tw using t by simp
  show "next_token t = Some (t, [])"
    unfolding next_token_def Let_def dt tw(3,4) using assms(1) by simp
qed

lemma digit_not_blank: "is_digit 10 c \<Longrightarrow> c \<noteq> CHR '' ''"
  using digit_not_space [of 10 c] by (auto simp: is_space_def)

lemma digits_value_nonneg: "0 \<le> acc \<Longrightarrow> 0 \<le> digits_value base acc s"
  by (induction base acc s rule: digits_value.induct) (auto split: option.splits)

lemma c_atoi_digits:
  assumes "digit_string 10 i" "digits_value 10 0 i < 2 ^ 31"
  shows "c_atoi (i @ [CHR 0x0A]) = digits_value 10 0 i"
proof -
  obtain c cs where i: "i = c # cs" "is_digit 10 c" using assms(1) by (cases i) (auto simp: digit_string_def)
  have nsp: "\<not> is_space c" by (rule digit_not_space [OF i(2)]) simp
  have ns: "c \<noteq> CHR ''-''" "c \<noteq> CHR ''+''" using i(2) by (auto simp: is_digit_def digit_of_def)
  have "list_all (is_digit 10) i" using assms(1) by (simp add: digit_string_def)
  then have tw: "takeWhile (is_digit 10) (i @ [CHR 0x0A]) = i"
    by (auto simp: list_all_iff takeWhile_append is_digit_def digit_of_def)
  have "split_sign (skip_space (i @ [CHR 0x0A])) = (False, i @ [CHR 0x0A])"
    using i nsp ns by (simp add: split_sign_def skip_space_def)
  moreover have "0 \<le> digits_value 10 0 i" by (rule digits_value_nonneg) simp
  ultimately show ?thesis
    using assms(2) tw
    by (simp add: c_atoi_def narrow_int_def min_def max_def signed_of_int signed_take_bit_int_eq_self)
qed

lemma read_entries_lines:
  assumes "list_all weight_entry_ok es" "j \<le> length ns"
  shows "read_entries j (map weight_line es) ns =
    (if j + length es \<le> length ns
     then Inr (take j ns @ map2 entry_of es (drop j ns) @ drop (j + length es) ns)
     else Inl (Undefined ''nodes_info out of bounds''))"
  using assms
proof (induction es arbitrary: j ns)
  case (Cons e es)
  obtain w i where e: "e = (w, i)" by (cases e)
  have w: "w \<noteq> []" "list_all (\<lambda>c. c \<noteq> CHR '' '') w" and i: "digit_string 10 i" "digits_value 10 0 i < 2 ^ 31"
    using Cons.prems(1) by (simp_all add: weight_entry_ok_def e)
  have t1: "next_token (weight_line e) = Some (w, i @ [CHR 0x0A])"
    using next_token_here(1) [OF w] by (simp add: weight_line_def e)
  have "list_all (\<lambda>c. c \<noteq> CHR '' '') (i @ [CHR 0x0A])" "i @ [CHR 0x0A] \<noteq> []"
    using i(1) digit_not_blank by (auto simp: digit_string_def list_all_iff)
  from next_token_here(2) [OF this(2,1)] have t2: "next_token (i @ [CHR 0x0A]) = Some (i @ [CHR 0x0A], [])" .
  show ?case
  proof (cases "j < length ns")
    case False
    with Cons.prems(2) show ?thesis by (simp add: t1)
  next
    case True
    define ns' where "ns' = ns[j := entry_of e (ns ! j)]"
    have step: "read_entries j (map weight_line (e # es)) ns = read_entries (j + 1) (map weight_line es) ns'"
      using True by (simp add: t1 [unfolded e] t2 Let_def ns'_def entry_of_def e c_atoi_digits [OF i])
    have "drop j ns = ns ! j # drop (Suc j) ns" using True by (rule Cons_nth_drop_Suc [symmetric])
    moreover have "take (Suc j) ns' = take j ns @ [entry_of e (ns ! j)]" "drop (Suc j + k) ns' = drop (Suc j + k) ns" for k
      using True by (simp_all add: ns'_def take_Suc_conv_app_nth)
    ultimately show ?thesis
      unfolding step using Cons.IH [of "j + 1" ns'] Cons.prems(1) True by (simp add: ns'_def)
  qed
qed simp

section \<open>Arithmetic on percentages\<close>

lemma percentage_add_exact:
  assumes "f = binary64" "representable f x" "\<bar>x\<bar> \<le> pow2 10"
  shows "fp_of_rat f x = Fin x"
proof (rule fp_of_rat_representable [OF assms(2)])
  have "pow2 10 < pow2 (overflow_exponent f)" by (simp add: assms(1) binary64_def)
  with assms(3) show "\<bar>x\<bar> < pow2 (overflow_exponent f)" by (rule order_le_less_trans)
qed (simp add: assms(1) binary64_def)

end
