(* ===== verification/Weight_Shifts.thy ===== *)
theory Weight_Shifts
  imports Weights Weighted_Shares
begin

text \<open>
  What the weight functions of theory Weights compute: the node records that a weights file
  leaves behind, the sums over workers and the other nodes, and the weights that
  \<open>place_pages_weighted_s\<close> and \<open>place_pages_weighted_dwp\<close> shift between them.
\<close>

section \<open>Rounding of moderate values\<close>

lemma fp_keep64:
  assumes "representable binary64 x" "\<bar>x\<bar> \<le> pow2 10"
  shows "fp_of_rat binary64 x = Fin x"
  by (rule percentage_add_exact [OF refl assms])

lemma percentage_bounds:
  "percentage u \<Longrightarrow> representable binary32 u \<and> representable binary64 u \<and> 0 \<le> u \<and> u \<le> 100 \<and> \<bar>u\<bar> \<le> pow2 10"
  using representable32_in_64 [of u] by (auto simp: percentage_def pow2_def)

lemma percentage_as_double: "percentage u \<Longrightarrow> fp_convert binary64 (Fin u) = Fin u"
  by (metis fp_convert.simps(1) fp_keep64 percentage_bounds)

lemma hundred_double: "fp_of_int binary64 100 = Fin 100" "fp_of_int binary64 10 = Fin 10"
  by (simp_all add: fp_of_int_def exact_fp)

lemma round_away_error: "\<bar>of_int (round_away x) - x\<bar> \<le> 1 / 2"
  unfolding round_away_def abs_le_iff by (auto simp: le_ceiling_iff) linarith+

lemma round_away_unique: "\<bar>of_int n - x\<bar> < 1 / 2 \<Longrightarrow> round_away x = n"
proof -
  assume "\<bar>of_int n - x\<bar> < 1 / 2"
  then have "\<bar>of_int (round_away x) - of_int n\<bar> < (1 :: rat)"
    using round_away_error [of x] by linarith
  then have "\<bar>round_away x - n\<bar> < 1" by (simp flip: of_int_diff of_int_abs)
  then show ?thesis by simp
qed

lemma round_away_of_int [simp]: "round_away (of_int n) = n"
  by (rule round_away_unique) simp

lemma round_away_numeral [simp]: "round_away (numeral k) = numeral k"
  using round_away_of_int [of "numeral k"] by simp

section \<open>The sum that is checked\<close>

lemma check_sum_two:
  assumes "node_weight x = Fin p" "node_weight y = Fin q"
    and "representable binary32 p" "representable binary32 q" "\<bar>p\<bar> \<le> 200" "\<bar>q\<bar> \<le> 200"
    and "\<bar>p + q - of_int n\<bar> \<le> 3 / 8" "\<bar>n\<bar> \<le> 1000"
  shows "check_sum [x, y] = Inr n"
proof -
  have keep: "fp_of_rat binary64 p = Fin p" "fp_of_rat binary64 q = Fin q"
    using assms(3-6) by (auto intro!: fp_keep64 representable32_in_64 simp: pow2_def)
  have "\<bar>p + q\<bar> \<le> pow2 9" using assms(5,6) by (simp add: pow2_def)
  from fp_near [OF _ this, of binary64] obtain z where z: "fp_of_rat binary64 (p + q) = Fin z"
    "\<bar>z - (p + q)\<bar> \<le> pow2 (9 - int (precision binary64))" by auto
  have "pow2 (9 - int (precision binary64)) \<le> 1 / 16" by (simp add: binary64_def pow2_def power_int_def power_divide)
  then have "\<bar>of_int n - z\<bar> < 1 / 2" using z(2) assms(7) by linarith
  then have "round_away z = n" by (rule round_away_unique)
  moreover have "narrow_int n = n"
    using assms(8) by (simp add: narrow_int_def signed_of_int signed_take_bit_int_eq_self)
  ultimately show ?thesis
    using assms(1,2,8) z(1) by (simp add: abs_le_iff check_sum_def sum_weights_def keep)
qed


section \<open>New weights\<close>

text \<open>With one worker and one other node each of the two weights is its own sum.\<close>

definition one_worker_weights :: "node_record \<Rightarrow> node_record \<Rightarrow> rat \<Rightarrow> rat \<Rightarrow> 'b world \<Rightarrow> bool" where
  "one_worker_weights x y u v g \<longleftrightarrow>
     num_workers g \<in> {1, 2} \<and> set (nodes_info g) = {x, y} \<and> length (nodes_info g) = 2 \<and>
     length (nodes_info_temp g) = 2 \<and>
     node_id x = num_workers g - 1 \<and> node_id y \<noteq> node_id x \<and>
     node_weight x = Fin u \<and> node_weight y = Fin v \<and> percentage u \<and> percentage v \<and>
     0 < u \<and> 0 < v"

lemma tenth_near:
  assumes "representable binary64 t" "0 \<le> t" "t \<le> 101"
  obtains w where
    "fp_convert binary32 (fp_div binary64 (fp_round (fp_mul binary64 (Fin t) (Fin 10))) (Fin 10)) = Fin w"
    "representable binary32 w" "0 \<le> w" "\<bar>w - t\<bar> \<le> 1 / 16"
proof -
  have "\<bar>t * 10\<bar> \<le> pow2 10" using assms by (simp add: pow2_def)
  from fp_near [OF _ this, of binary64] assms(2) obtain a where a: "fp_of_rat binary64 (t * 10) = Fin a"
    "\<bar>a - t * 10\<bar> \<le> pow2 (10 - int (precision binary64))" "0 \<le> a" by auto
  define z where "z = (of_int (round_away a) :: rat)"
  have e1: "pow2 (10 - int (precision binary64)) \<le> 1 / 64" "pow2 (7 - int (precision binary64)) \<le> 1 / 2048"
    "pow2 (7 - int (precision binary32)) \<le> 1 / 2048"
    by (simp_all add: binary64_def binary32_def pow2_def power_int_def power_divide)
  have za: "\<bar>z - a\<bar> \<le> 1 / 2" using round_away_error [of a] by (simp only: z_def)
  have z0: "0 \<le> z" using a(3) by (simp add: z_def round_away_def)
  have zt: "\<bar>z / 10 - t\<bar> \<le> (1 / 2 + 1 / 64) / 10" 
  proof -
    have "\<bar>z - t * 10\<bar> \<le> 1 / 2 + 1 / 64" using za a(2) e1(1) by linarith
    moreover have "z / 10 - t = (z - t * 10) / 10" by simp
    ultimately show ?thesis by (simp only: abs_divide) simp
  qed
  have "z / 10 - t \<le> 1" using abs_le_D1 [OF zt] by simp
  then have "z / 10 \<le> 128" using assms(3) by simp
  then have "\<bar>z / 10\<bar> \<le> pow2 7" using z0 by (simp add: pow2_def)
  from fp_near [OF _ this, of binary64] z0 obtain b where b: "fp_of_rat binary64 (z / 10) = Fin b"
    "\<bar>b - z / 10\<bar> \<le> pow2 (7 - int (precision binary64))" "0 \<le> b" "\<bar>b\<bar> \<le> pow2 7" by auto
  from fp_near [OF _ b(4), of binary32] b(3) obtain w where w: "fp_of_rat binary32 b = Fin w"
    "representable binary32 w" "\<bar>w - b\<bar> \<le> pow2 (7 - int (precision binary32))" "0 \<le> w" by auto
  define y where "y = z / 10"
  have "\<bar>y - t\<bar> \<le> 33 / 640" using zt unfolding y_def by simp
  then have "\<bar>w - t\<bar> \<le> 1 / 16" using b(2) [folded y_def] w(3) e1(2,3) by linarith
  with a(1) b(1) w show thesis by (intro that [of w]) (simp_all add: z_def)
qed

lemma shifted_weight_s_near:
  assumes "percentage u" "0 < u" "node_weight r = Fin u"
    and "if node_id r = k then ww = Fin u \<and> t = n else nww = Fin u \<and> \<bar>t - (100 - n)\<bar> \<le> 1 / 1024 \<and>
      fp_sub binary64 (Fin 100) (Fin n) = Fin t"
    and "representable binary64 t" "0 \<le> t" "t \<le> 101"
  obtains w where "shifted_weight_s k ww nww (Fin n) r = Fin w" "representable binary32 w" "0 \<le> w"
    "\<bar>w - t\<bar> \<le> 1 / 16"
proof -
  obtain w where w: "fp_convert binary32 (fp_div binary64 (fp_round (fp_mul binary64 (Fin t) (Fin 10))) (Fin 10)) = Fin w"
    "representable binary32 w" "0 \<le> w" "\<bar>w - t\<bar> \<le> 1 / 16"
    by (rule tenth_near [OF assms(5-7)])
  have keep: "fp_of_rat binary64 u = Fin u" using percentage_as_double [OF assms(1)] by simp
  have "\<bar>t\<bar> \<le> pow2 10" using assms(6,7) by (simp add: pow2_def)
  with assms(5) have t: "fp_of_rat binary64 t = Fin t" by (rule fp_keep64)
  have one: "fp_of_rat binary64 1 = Fin 1" by (simp add: exact_fp)
  have "shifted_weight_s k ww nww (Fin n) r =
      fp_convert binary32 (fp_div binary64 (fp_round (fp_mul binary64 (Fin t) (Fin 10))) (Fin 10))"
    using assms(2-4) t
    by (auto simp: shifted_weight_s_def Let_def keep one hundred_double simp del: fp_round.simps split: if_splits)
  with w show thesis by (intro that [of w]) simp_all
qed


lemma set_temp_two:
  assumes "length temp = 2"
  obtains t0 t1 where "set_temp f [a, b] temp =
    [t0\<lparr>node_id := node_id a, node_weight := f a\<rparr>, t1\<lparr>node_id := node_id b, node_weight := f b\<rparr>]"
proof -
  obtain t0 t1 where "temp = [t0, t1]" using assms by (auto simp: numeral_2_eq_2 length_Suc_conv)
  then show thesis by (intro that [of t0 t1]) (simp add: set_temp_def)
qed

lemma two_records:
  assumes "set ns = {x, y}" "length ns = 2" "x \<noteq> y"
  shows "ns = [x, y] \<or> ns = [y, x]"
proof -
  obtain a b where "ns = [a, b]" using assms(2) by (auto simp: numeral_2_eq_2 length_Suc_conv)
  with assms show ?thesis by (auto simp: doubleton_eq_iff)
qed

text \<open>
  The common part succeeds as soon as the two new weights, read as numbers, add up to 100
  within 3/8.
\<close>

definition weight_of :: "int \<Rightarrow> node_record list \<Rightarrow> fp" where
  "weight_of i ns = (case filter (\<lambda>r. node_id r = i) ns of r # _ \<Rightarrow> node_weight r | [] \<Rightarrow> Fin 0)"

lemma initialize_temp_two:
  assumes ow: "one_worker_weights x y u v g" and "\<not> weight_initialized g"
    and f: "f (node_id x) x = Fin p" "f (node_id x) y = Fin q"
    and "representable binary32 p" "representable binary32 q" "\<bar>p\<bar> \<le> 200" "\<bar>q\<bar> \<le> 200"
    and "\<bar>p + q - of_int n\<bar> \<le> 3 / 8" "\<bar>n\<bar> \<le> 1000"
  obtains ns where "initialize_temp f g =
      (if n = 100 then (g\<lparr>nodes_info_temp := ns, weight_initialized := True\<rparr>, Inr ())
       else (g\<lparr>nodes_info_temp := ns\<rparr>, Inl (Exited (- 1))))"
    "map node_id ns = map node_id (nodes_info g)"
    "weight_of (node_id x) ns = Fin p" "weight_of (node_id y) ns = Fin q"
proof -
  have ids: "node_id y \<noteq> node_id x" "length (nodes_info_temp g) = 2" and ne: "x \<noteq> y"
    and k: "worker_id (num_workers g) = Some (node_id x)"
    using ow by (auto simp: one_worker_weights_def worker_id_def)
  have "nodes_info g = [x, y] \<or> nodes_info g = [y, x]"
    using ow ne by (intro two_records) (auto simp: one_worker_weights_def)
  then show thesis
  proof
    assume ns: "nodes_info g = [x, y]"
    obtain t0 t1 where t: "set_temp (f (node_id x)) [x, y] (nodes_info_temp g) =
      [t0\<lparr>node_id := node_id x, node_weight := Fin p\<rparr>, t1\<lparr>node_id := node_id y, node_weight := Fin q\<rparr>]"
      using set_temp_two [OF ids(2), of "f (node_id x)" x y] f by auto
    have "check_sum [t0\<lparr>node_id := node_id x, node_weight := Fin p\<rparr>, t1\<lparr>node_id := node_id y, node_weight := Fin q\<rparr>] = Inr n"
      by (rule check_sum_two [OF _ _ assms(5-10)]) simp_all
    then show thesis
      using assms(2) ids k
      by (intro that [of "set_temp (f (node_id x)) [x, y] (nodes_info_temp g)"])
        (simp_all add: initialize_temp_def ns t weight_of_def)
  next
    assume ns: "nodes_info g = [y, x]"
    obtain t0 t1 where t: "set_temp (f (node_id x)) [y, x] (nodes_info_temp g) =
      [t0\<lparr>node_id := node_id y, node_weight := Fin q\<rparr>, t1\<lparr>node_id := node_id x, node_weight := Fin p\<rparr>]"
      using set_temp_two [OF ids(2), of "f (node_id x)" y x] f by auto
    have "\<bar>q + p - of_int n\<bar> \<le> 3 / 8" using assms(9) by (simp add: add.commute)
    then have "check_sum [t0\<lparr>node_id := node_id y, node_weight := Fin q\<rparr>, t1\<lparr>node_id := node_id x, node_weight := Fin p\<rparr>] = Inr n"
      by (intro check_sum_two [OF _ _ assms(6,5,8,7) _ assms(10)]) simp_all
    then show thesis
      using assms(2) ids k
      by (intro that [of "set_temp (f (node_id x)) [y, x] (nodes_info_temp g)"])
        (simp_all add: initialize_temp_def ns t weight_of_def)
  qed
qed


lemma fp_of_rat_Fin: "fp_of_rat f x = Fin y \<Longrightarrow> representable f y"
  by (auto simp: fp_of_rat_def Let_def representable_round_rat split: if_splits)

lemma fp_add_Fin: "fp_add f (Fin u) s = Fin n \<Longrightarrow> representable f n"
  by (cases s) (auto dest: fp_of_rat_Fin)

lemma fp_sub_Fin: "fp_sub f (Fin u) s = Fin n \<Longrightarrow> representable f n"
  by (auto simp: fp_sub_def dest: fp_add_Fin)

lemma rest_of_hundred:
  assumes "0 \<le> n" "n \<le> 100"
  obtains t where "fp_sub binary64 (Fin 100) (Fin n) = Fin t" "representable binary64 t"
    "0 \<le> t" "t \<le> 101" "\<bar>t - (100 - n)\<bar> \<le> 1 / 2 ^ 46"
proof -
  have "\<bar>100 - n\<bar> \<le> pow2 7" using assms by (simp add: pow2_def)
  from fp_near [OF _ this, of binary64] assms obtain t where t: "fp_of_rat binary64 (100 - n) = Fin t"
    "representable binary64 t" "0 \<le> t" "\<bar>t - (100 - n)\<bar> \<le> pow2 (7 - int (precision binary64))" by auto
  have "pow2 (7 - int (precision binary64)) = 1 / 2 ^ 46"
    by (simp add: binary64_def pow2_def power_int_def power_divide)
  with t(4) have e: "\<bar>t - (100 - n)\<bar> \<le> 1 / 2 ^ 46" by simp
  moreover have "(1 :: rat) / 2 ^ 46 \<le> 1" by simp
  ultimately have "t \<le> 101" using assms by linarith
  with t e show thesis by (intro that [of t]) (simp_all add: fp_sub_def)
qed

lemma double_representable: "representable binary32 u \<Longrightarrow> representable binary64 (u + u)"
proof -
  assume "representable binary32 u"
  then obtain m q where "u = of_int m * pow2 q" "\<bar>m\<bar> \<le> 2 ^ 24" "- 149 \<le> q"
    by (auto simp: representable_def binary32_def)
  then show ?thesis
    unfolding representable_def
    by (intro exI [of _ m] exI [of _ "q + 1"]) (simp add: binary64_def pow2_Suc)
qed

lemma add_weights_two:
  assumes ow: "one_worker_weights x y u v g"
    and a: "fp_of_rat binary64 (a + u) = Fin p" "fp_of_rat binary64 (b + v) = Fin q"
  shows "add_weights (node_id x) (nodes_info g) (Fin a, Fin b) = (Fin p, Fin q)"
proof -
  have ne: "x \<noteq> y" "node_id y \<noteq> node_id x" using ow by (auto simp: one_worker_weights_def)
  have "nodes_info g = [x, y] \<or> nodes_info g = [y, x]"
    using ow ne by (intro two_records) (auto simp: one_worker_weights_def)
  moreover have "fp_of_rat binary64 u = Fin u" "fp_of_rat binary64 v = Fin v"
    using ow percentage_as_double [of u] percentage_as_double [of v]
    by (simp_all add: one_worker_weights_def)
  moreover have "node_weight x = Fin u" "node_weight y = Fin v" using ow by (simp_all add: one_worker_weights_def)
  ultimately show ?thesis using a ne by (auto simp: add_weights_def)
qed

lemma worker_of_one_worker: "one_worker_weights x y u v g \<Longrightarrow> worker_id (num_workers g) = Some (node_id x)"
  by (auto simp: one_worker_weights_def worker_id_def)

lemma shifted_weight_dwp_two:
  assumes "percentage u" "0 < u" "node_weight x = Fin u" "node_id y \<noteq> node_id x"
    and "representable binary64 n" "0 \<le> n" "n \<le> 100" "fp_sub binary64 (Fin 100) (Fin n) = Fin t" "0 \<le> t" "t \<le> 101"
  shows "shifted_weight_dwp (node_id x) (Fin u) (Fin n) x = Fin (of_int (round_away n))"
    and "shifted_weight_dwp (node_id x) (Fin u) (Fin n) y = Fin (of_int (round_away t))"
    and "representable binary32 (of_int (round_away n))" "representable binary32 (of_int (round_away t))"
    and "\<bar>of_int (round_away n) :: rat\<bar> \<le> 200" "\<bar>of_int (round_away t) :: rat\<bar> \<le> 200"
proof -
  have small: "0 \<le> round_away z \<and> round_away z \<le> 102" if "0 \<le> z" "z \<le> 101" for z
  proof -
    have "(of_int (round_away z) :: rat) < of_int 102" using round_away_error [of z] that by linarith
    then have "round_away z < 102" by (simp only: of_int_less_iff)
    with that show ?thesis by (simp add: round_away_def)
  qed
  have n: "0 \<le> round_away n \<and> round_away n \<le> 102" and t: "0 \<le> round_away t \<and> round_away t \<le> 102"
    using small [of n] small [of t] assms(6,7,9,10) by auto
  have rep: "representable binary32 (of_int i)" "\<bar>of_int i :: rat\<bar> \<le> 200"
    "fp_of_rat binary32 (of_int i) = Fin (of_int i)" if "0 \<le> i \<and> i \<le> 102" for i
  proof -
    show r: "representable binary32 (of_int i)" by (rule representable_of_int) (use that in \<open>simp_all add: binary32_def\<close>)
    have "(of_int i :: rat) \<le> of_int 102" using that by (simp only: of_int_le_iff)
    moreover have "(0 :: rat) \<le> of_int i" using that by simp
    ultimately show "\<bar>of_int i :: rat\<bar> \<le> 200" by simp
    then have "\<bar>of_int i :: rat\<bar> \<le> pow2 8" by (simp add: pow2_def)
    moreover have "pow2 8 < pow2 (overflow_exponent binary32)" by (simp add: binary32_def)
    ultimately have "\<bar>of_int i :: rat\<bar> < pow2 (overflow_exponent binary32)" by (rule order_le_less_trans)
    then show "fp_of_rat binary32 (of_int i) = Fin (of_int i)"
      by (intro fp_of_rat_representable [OF r]) (assumption, simp add: binary32_def)
  qed
  have keep: "fp_of_rat binary64 u = Fin u" using percentage_as_double [OF assms(1)] by simp
  have "\<bar>n\<bar> \<le> pow2 10" using assms(6,7) by (simp add: pow2_def)
  with assms(5) have kn: "fp_of_rat binary64 n = Fin n" by (rule fp_keep64)
  have one: "fp_of_rat binary64 1 = Fin 1" by (simp add: exact_fp)
  show "shifted_weight_dwp (node_id x) (Fin u) (Fin n) x = Fin (of_int (round_away n))"
    using assms(2,3) rep(3) [OF n] by (simp add: shifted_weight_dwp_def keep one kn)
  show "shifted_weight_dwp (node_id x) (Fin u) (Fin n) y = Fin (of_int (round_away t))"
    using assms(4,8) rep(3) [OF t] by (simp add: shifted_weight_dwp_def hundred_double)
  show "representable binary32 (of_int (round_away n))" "representable binary32 (of_int (round_away t))"
    "\<bar>of_int (round_away n) :: rat\<bar> \<le> 200" "\<bar>of_int (round_away t) :: rat\<bar> \<le> 200"
    using rep(1,2) [OF n] rep(1,2) [OF t] by auto
qed

section \<open>Properties\<close>

text \<open>
  C38: reading the weights. For a file whose lines hold a weight, a blank and a decimal node
  id, \<open>read_weights\<close> fills the records from the front, in the order of the file, and keeps
  the records that the file does not reach; a file with more lines than there are records
  is read past the end of the array.
\<close>

theorem read_weights_in_order:
  assumes "list_all weight_entry_ok es" and "sort_status f \<noteq> - 1"
    and "sorted_lines f = Some (map weight_line es)"
  shows "read_weights f g =
    (if length es \<le> length (nodes_info g)
     then (g\<lparr>nodes_info := map2 entry_of es (nodes_info g) @ drop (length es) (nodes_info g)\<rparr>, Inr ())
     else (g, Inl (Undefined ''nodes_info out of bounds'')))"
  using read_entries_lines [OF assms(1), of 0 "nodes_info g"] assms(2,3) by (simp add: read_weights_def)

lemma read_weights_in_order_witness:
  "map node_id (nodes_info (fst (read_weights
      \<lparr>sort_status = 0, sorted_lines = Some (map weight_line [(''12.5'', ''1''), (''87.5'', ''0'')])\<rparr>
      (start_world 25 75 :: unit world)))) = [1, 0] \<and>
   snd (read_weights
      \<lparr>sort_status = 0, sorted_lines = Some (map weight_line [(''1'', ''1''), (''2'', ''0''), (''97'', ''2'')])\<rparr>
      (start_world 25 75 :: unit world)) = Inl (Undefined ''nodes_info out of bounds'')"
proof -
  have ok: "list_all weight_entry_ok [(''12.5'', ''1''), (''87.5'', ''0'')]"
    "list_all weight_entry_ok [(''1'', ''1''), (''2'', ''0''), (''97'', ''2'')]"
    by (simp_all add: weight_entry_ok_def digit_string_def is_digit_def digit_of_def)
  show ?thesis
    using read_weights_in_order [OF ok(1), of "\<lparr>sort_status = 0,
        sorted_lines = Some (map weight_line [(''12.5'', ''1''), (''87.5'', ''0'')])\<rparr>" "start_world 25 75 :: unit world"]
      read_weights_in_order [OF ok(2), of "\<lparr>sort_status = 0,
        sorted_lines = Some (map weight_line [(''1'', ''1''), (''2'', ''0''), (''97'', ''2'')])\<rparr>" "start_world 25 75 :: unit world"]
    by (simp add: start_world_def two_nodes_def entry_of_def digit_of_def)
qed

text \<open>
  The sums of weights. The first call with one worker of two nodes, and weights that add up
  to exactly 100, stores the worker's weight and the other node's; the sums accumulate, so
  a second call exits with status -1.
\<close>

theorem get_sum_once:
  assumes "one_worker_weights x y u v g" and "u + v = 100" and "sum_ww g = Fin 0" and "sum_nww g = Fin 0"
  shows "get_sum_nww_ww (num_workers g) g = (g\<lparr>sum_ww := Fin u, sum_nww := Fin v\<rparr>, Inr ()) \<and>
    snd (get_sum_nww_ww (num_workers g) (g\<lparr>sum_ww := Fin u, sum_nww := Fin v\<rparr>)) = Inl (Exited (- 1))"
proof -
  have w: "percentage u" "percentage v" using assms(1) by (simp_all add: one_worker_weights_def)
  note pu = percentage_bounds [OF w(1)] and pv = percentage_bounds [OF w(2)]
  have once: "fp_of_rat binary64 (0 + u) = Fin u" "fp_of_rat binary64 (0 + v) = Fin v"
    using percentage_as_double w by simp_all
  have b: "\<bar>u + u\<bar> \<le> pow2 10" "\<bar>v + v\<bar> \<le> pow2 10" using pu pv by (simp_all add: pow2_def)
  have twice: "fp_of_rat binary64 (u + u) = Fin (u + u)" "fp_of_rat binary64 (v + v) = Fin (v + v)"
    using pu pv by (intro fp_keep64 double_representable b; simp)+
  have sums: "v + u = 100" "2 * v + 2 * u = 200" using assms(2) by linarith+
  have nums: "fp_of_rat binary64 100 = Fin 100" "fp_of_rat binary64 200 = Fin 200"
    by (simp_all add: exact_fp)
  let ?g = "g\<lparr>sum_ww := Fin u, sum_nww := Fin v\<rparr>"
  have "one_worker_weights x y u v ?g" using assms(1) by (simp add: one_worker_weights_def)
  from add_weights_two [OF this twice] have again: "add_weights (node_id x) (nodes_info g) (Fin u, Fin v) = (Fin (u + u), Fin (v + v))"
    by simp
  show ?thesis
    using add_weights_two [OF assms(1) once] again worker_of_one_worker [OF assms(1)] assms(3,4)
    by (simp add: get_sum_nww_ww_def sums nums truncate_rat_def Let_def)
qed

lemma one_worker_example:
  "one_worker_weights \<lparr>node_id = 0, node_weight = Fin 75, node_count = 0\<rparr>
     \<lparr>node_id = 1, node_weight = Fin 25, node_count = 0\<rparr> 75 25 (start_world 25 75)"
proof -
  have "representable binary32 (of_int 25)" "representable binary32 (of_int 75)"
    by (rule representable_of_int; simp add: binary32_def)+
  then show ?thesis by (auto simp: one_worker_weights_def start_world_def two_nodes_def percentage_def)
qed

lemma get_sum_once_witness:
  "\<exists>g :: unit world. get_sum_nww_ww 1 ((start_world 25 75)\<lparr>sum_ww := Fin 0, sum_nww := Fin 0\<rparr>) = (g, Inr ()) \<and>
     sum_ww g = Fin 75 \<and> sum_nww g = Fin 25 \<and> snd (get_sum_nww_ww 1 g) = Inl (Exited (- 1))"
proof -
  let ?g = "(start_world 25 75)\<lparr>sum_ww := Fin 0, sum_nww := Fin 0\<rparr> :: unit world"
  have "one_worker_weights \<lparr>node_id = 0, node_weight = Fin 75, node_count = 0\<rparr>
     \<lparr>node_id = 1, node_weight = Fin 25, node_count = 0\<rparr> 75 25 ?g"
    using one_worker_example by (simp add: one_worker_weights_def)
  from get_sum_once [OF this] show ?thesis
    by (intro exI [of _ "?g\<lparr>sum_ww := Fin 75, sum_nww := Fin 25\<rparr>"]) (simp add: start_world_def)
qed

text \<open>
  C24: shifting weight with \<open>place_pages_weighted_s\<close>. When the worker's new percentage
  \<open>sum_ww + s\<close> is between 0 and 100, the check of the new weights passes, the worker gets
  that percentage and the other node the rest, each to a fifteenth (they are rounded to
  tenths), and the pages are placed by the new weights.
\<close>

theorem weighted_s_shifts:
  assumes "one_worker_weights x y u v g" and "sum_ww g = Fin u" and "sum_nww g = Fin v"
    and "\<not> weight_initialized g" and "fp_add binary64 (Fin u) s = Fin n" and "0 \<le> n" and "n \<le> 100"
  shows "\<exists>ns p q. place_pages_weighted_s P a len s g =
      place_pages_weighted P a len (g\<lparr>nodes_info_temp := ns, weight_initialized := True\<rparr>) \<and>
    map node_id ns = map node_id (nodes_info g) \<and>
    weight_of (node_id x) ns = Fin p \<and> \<bar>p - n\<bar> \<le> 1 / 15 \<and>
    weight_of (node_id y) ns = Fin q \<and> \<bar>q - (100 - n)\<bar> \<le> 1 / 15"
proof -
  let ?f = "\<lambda>k. shifted_weight_s k (Fin u) (Fin v) (Fin n)"
  have w: "percentage u" "0 < u" "node_weight x = Fin u" "percentage v" "0 < v" "node_weight y = Fin v"
    "node_id y \<noteq> node_id x"
    using assms(1) by (simp_all add: one_worker_weights_def)
  obtain t where t: "fp_sub binary64 (Fin 100) (Fin n) = Fin t" "representable binary64 t"
    "0 \<le> t" "t \<le> 101" "\<bar>t - (100 - n)\<bar> \<le> 1 / 2 ^ 46"
    by (rule rest_of_hundred [OF assms(6,7)])
  have e: "\<bar>t - (100 - n)\<bar> \<le> 1 / 1024" by (rule order_trans [OF t(5)]) simp
  have "n \<le> 101" using assms(7) by simp
  from shifted_weight_s_near [OF w(1-3) _ fp_add_Fin [OF assms(5)] assms(6) this, of "node_id x" "Fin u" n "Fin v"]
  obtain p where p: "?f (node_id x) x = Fin p" "representable binary32 p" "0 \<le> p" "\<bar>p - n\<bar> \<le> 1 / 16" by auto
  from shifted_weight_s_near [OF w(4-6) _ t(2-4), of "node_id x" "Fin u" n "Fin v"] w(7) t(1) e
  obtain q where q: "?f (node_id x) y = Fin q" "representable binary32 q" "0 \<le> q" "\<bar>q - t\<bar> \<le> 1 / 16" by auto
  have b: "\<bar>p\<bar> \<le> 200" "\<bar>q\<bar> \<le> 200" "\<bar>p + q - of_int 100\<bar> \<le> 3 / 8" "\<bar>q - (100 - n)\<bar> \<le> 1 / 15" "\<bar>p - n\<bar> \<le> 1 / 15"
    using p(3,4) q(3,4) e t(4) assms(7) by (simp only: of_int_numeral; linarith)+
  obtain ns where ns: "initialize_temp ?f g =
      (g\<lparr>nodes_info_temp := ns, weight_initialized := True\<rparr>, Inr ())"
    "map node_id ns = map node_id (nodes_info g)"
    "weight_of (node_id x) ns = Fin p" "weight_of (node_id y) ns = Fin q"
    by (rule initialize_temp_two [where f = ?f, OF assms(1,4) p(1) q(1) p(2) q(2) b(1-3)]) auto
  have "place_pages_weighted_s P a len s g =
      place_pages_weighted P a len (g\<lparr>nodes_info_temp := ns, weight_initialized := True\<rparr>)"
    using ns(1) by (simp add: place_pages_weighted_s_def assms(2,3,5) then_step_def)
  with ns(2-4) b(4,5) show ?thesis by blast
qed


lemma weighted_s_shifts_witness:
  "\<exists>ns p q. place_pages_weighted_s accepting 65536 65536 (Fin 5) (start_world 25 75) =
      place_pages_weighted accepting 65536 65536
        ((start_world 25 75)\<lparr>nodes_info_temp := ns, weight_initialized := True\<rparr>) \<and>
    weight_of 0 ns = Fin p \<and> \<bar>p - 80\<bar> \<le> 1 / 15 \<and> weight_of 1 ns = Fin q \<and> \<bar>q - 20\<bar> \<le> 1 / 15"
proof -
  let ?x = "\<lparr>node_id = 0, node_weight = Fin 75, node_count = 0\<rparr>"
  let ?y = "\<lparr>node_id = 1, node_weight = Fin 25, node_count = 0\<rparr>"
  have "fp_add binary64 (Fin 75) (Fin 5) = Fin 80" by (simp add: exact_fp)
  moreover have "sum_ww (start_world 25 75) = Fin 75" "sum_nww (start_world 25 75) = Fin 25"
    "\<not> weight_initialized (start_world 25 75)"
    by (simp_all add: start_world_def)
  ultimately show ?thesis
    using weighted_s_shifts [OF one_worker_example, of "Fin 5" 80 accepting 65536 65536] by auto
qed

text \<open>
  C25: \<open>place_pages_weighted_dwp\<close> rounds the two new percentages to integers. Away from a
  half they are \<open>round n\<close> and \<open>100 - round n\<close>, and the pages are moved.
\<close>


theorem weighted_dwp_rounds:
  assumes "one_worker_weights x y u v g" and "sum_ww g = Fin u"
    and "\<not> weight_initialized g" and "fp_sub binary64 (Fin u) s = Fin n" and "0 \<le> n" and "n \<le> 100"
    and "\<bar>n - of_int i\<bar> \<le> 1 / 2 - 1 / 2 ^ 40"
  shows "\<exists>ns. place_pages_weighted_dwp P a len s g =
      move_pages_remote P a len s (g\<lparr>nodes_info_temp := ns, weight_initialized := True\<rparr>) \<and>
    map node_id ns = map node_id (nodes_info g) \<and>
    weight_of (node_id x) ns = Fin (of_int i) \<and> weight_of (node_id y) ns = Fin (of_int (100 - i))"
proof -
  let ?f = "\<lambda>k. shifted_weight_dwp k (Fin u) (Fin n)"
  have w: "percentage u" "0 < u" "node_weight x = Fin u" "node_id y \<noteq> node_id x"
    using assms(1) by (simp_all add: one_worker_weights_def)
  obtain t where t: "fp_sub binary64 (Fin 100) (Fin n) = Fin t" "representable binary64 t"
    "0 \<le> t" "t \<le> 101" "\<bar>t - (100 - n)\<bar> \<le> 1 / 2 ^ 46"
    by (rule rest_of_hundred [OF assms(5,6)])
  have half: "1 / 2 - 1 / 2 ^ 40 < (1 / 2 :: rat)" by simp
  have "\<bar>of_int i - n\<bar> < 1 / 2" using order_le_less_trans [OF assms(7) half] by (simp only: abs_minus_commute)
  then have ri: "round_away n = i" by (rule round_away_unique)
  have "(1 :: rat) / 2 ^ 46 < 1 / 2 ^ 40" by simp
  then have "\<bar>(100 - of_int i) - t\<bar> < 1 / 2" using assms(7) t(5) by linarith
  then have "\<bar>of_int (100 - i) - t\<bar> < 1 / 2" by simp
  then have rt: "round_away t = 100 - i" by (rule round_away_unique)
  note sw = shifted_weight_dwp_two [OF w fp_sub_Fin [OF assms(4)] assms(5,6) t(1,3,4), unfolded ri rt]
  have sum: "\<bar>of_int i + of_int (100 - i) - of_int 100\<bar> \<le> (3 / 8 :: rat)" by simp
  obtain ns where ns: "initialize_temp ?f g =
      (g\<lparr>nodes_info_temp := ns, weight_initialized := True\<rparr>, Inr ())"
    "map node_id ns = map node_id (nodes_info g)"
    "weight_of (node_id x) ns = Fin (of_int i)" "weight_of (node_id y) ns = Fin (of_int (100 - i))"
    by (rule initialize_temp_two [where f = ?f, OF assms(1,3) sw sum]) auto
  then show ?thesis
    by (intro exI [of _ ns]) (simp add: place_pages_weighted_dwp_def assms(2,4) then_step_def)
qed

lemma weighted_dwp_rounds_witness:
  "\<exists>ns. place_pages_weighted_dwp accepting 65536 65536 (Fin (1 / 4)) (start_world 25 75) =
      move_pages_remote accepting 65536 65536 (Fin (1 / 4))
        ((start_world 25 75)\<lparr>nodes_info_temp := ns, weight_initialized := True\<rparr>) \<and>
    weight_of 0 ns = Fin 75 \<and> weight_of 1 ns = Fin 25"
proof -
  have "fp_sub binary64 (Fin 75) (Fin (1 / 4)) = Fin (299 / 4)"
    using fp_of_rat_dyadic [of "299 / 4" 2 299 binary64] by (simp add: fp_sub_def)
  moreover have "sum_ww (start_world 25 75) = Fin 75" "\<not> weight_initialized (start_world 25 75)"
    by (simp_all add: start_world_def)
  ultimately show ?thesis
    using weighted_dwp_rounds [OF one_worker_example, of "Fin (1 / 4)" "299 / 4" 75 accepting 65536 65536] by auto
qed

text \<open>
  C26: when the worker's new percentage is an integer and a half, both percentages are rounded
  up, they add up to 101, and \<open>place_pages_weighted_dwp\<close> exits with status -1 before it
  moves anything.
\<close>

theorem weighted_dwp_half_exits:
  assumes "one_worker_weights x y u v g" and "sum_ww g = Fin u"
    and "\<not> weight_initialized g" and "fp_sub binary64 (Fin u) s = Fin (of_int i + 1 / 2)"
    and "0 \<le> i" and "i < 100"
  shows "\<exists>ns. place_pages_weighted_dwp P a len s g = (g\<lparr>nodes_info_temp := ns\<rparr>, Inl (Exited (- 1)))"
proof -
  define n where "n = of_int i + (1 / 2 :: rat)"
  define t where "t = of_int (99 - i) + (1 / 2 :: rat)"
  let ?f = "\<lambda>k. shifted_weight_dwp k (Fin u) (Fin n)"
  have w: "percentage u" "0 < u" "node_weight x = Fin u" "node_id y \<noteq> node_id x"
    using assms(1) by (simp_all add: one_worker_weights_def)
  have "(0 :: rat) \<le> of_int i" "(of_int i :: rat) \<le> of_int 99"
    using assms(5,6) by (simp_all only: of_int_0_le_iff of_int_le_iff)
  then have b: "0 \<le> n" "n \<le> 100" "0 \<le> t" "t \<le> 101" by (simp_all add: n_def t_def)
  have "fp_of_rat binary64 t = Fin t"
    by (rule fp_of_rat_dyadic [of _ 1 "2 * (99 - i) + 1"]) (use assms(5,6) in \<open>simp_all add: t_def\<close>)
  then have t: "fp_sub binary64 (Fin 100) (Fin n) = Fin t" by (simp add: fp_sub_def n_def t_def algebra_simps)
  have n: "fp_sub binary64 (Fin u) s = Fin n" using assms(4) by (simp add: n_def)
  have half: "\<lfloor>of_int j + (1 / 2 :: rat) + 1 / 2\<rfloor> = j + 1" for j by (simp add: floor_eq_iff)
  have r: "round_away n = i + 1" "round_away t = 100 - i"
    using b half [of i] half [of "99 - i"] by (simp_all only: round_away_def n_def t_def if_True)
  note sw = shifted_weight_dwp_two [OF w fp_sub_Fin [OF n] b(1,2) t b(3,4), unfolded r]
  have sum: "\<bar>of_int (i + 1) + of_int (100 - i) - of_int 101\<bar> \<le> (3 / 8 :: rat)" by simp
  obtain ns where "initialize_temp ?f g = (g\<lparr>nodes_info_temp := ns\<rparr>, Inl (Exited (- 1)))"
    by (rule initialize_temp_two [where f = ?f, OF assms(1,3) sw sum]) auto
  then show ?thesis
    by (intro exI [of _ ns]) (simp add: place_pages_weighted_dwp_def assms(2) n then_step_def)
qed

lemma weighted_dwp_half_exits_witness:
  "snd (place_pages_weighted_dwp accepting 65536 65536 (Fin (1 / 2)) (start_world 25 75)) = Inl (Exited (- 1))"
proof -
  have "fp_sub binary64 (Fin 75) (Fin (1 / 2)) = Fin (of_int 74 + 1 / 2)"
    using fp_of_rat_dyadic [of "149 / 2" 1 149 binary64] by (simp add: fp_sub_def)
  moreover have "sum_ww (start_world 25 75 :: (nat \<times> nat set) world) = Fin 75"
    "\<not> weight_initialized (start_world 25 75 :: (nat \<times> nat set) world)"
    by (simp_all add: start_world_def)
  ultimately show ?thesis
    using weighted_dwp_half_exits [OF one_worker_example, of "Fin (1 / 2)" 74 accepting 65536 65536] by auto
qed

text \<open>
  C35: \<open>place_pages_weighted\<close> expects weights in ascending order, but the shifted weights keep
  the order of the old ones. If the first node's new weight is 51 or more, the first call
  already takes the whole region and interleaves it over both nodes in equal parts, whatever
  the weights are.
\<close>

theorem heavy_first_interleaves_all:
  assumes "libnuma_ok P" and "user_region (sys_page_size P) a len" and "4096 \<le> unat len"
    and "nodes_info_temp g = [x, y]" and "node_weight x = Fin u" and "percentage u" and "51 \<le> u"
    and "place_pages_weighted P a len g = (g', r)"
  shows "\<exists>c. g' = g\<lparr>syscalls := syscalls g @ [Mbind c]\<rparr> \<and> mbind_range c = (unat a, unat len) \<and>
    mb_policy c = MPOL_INTERLEAVE \<and> mask_nodes P (mb_mask c) = {0, 1}"
proof -
  note urd = user_regionD [OF assms(2)]
  let ?ns = "mask_setall P (mask_alloc P MAX_NODES)"
  let ?c = "\<lparr>mb_addr = a, mb_len = len, mb_policy = MPOL_INTERLEAVE, mb_mask = ?ns\<rparr>"
  define S where "S = (of_nat (unat len) :: rat)"
  have zero: "percentage 0" using representable_of_int [of 0 binary32] by (simp add: percentage_def binary32_def)
  have u: "0 \<le> u" "u \<le> 100" "sizeable (u - 0)" using assms(6,7) by (simp_all add: percentage_def sizeable_def pow2_def)
  obtain t where t: "weighted_size 2 (fp_sub binary32 (Fin u) (Fin 0)) len = Inr t"
    and lo: "of_nat 2 * ((u - 0) / 100) * of_nat (unat len) - share_error (unat len) - 1 \<le> of_nat (unat t)"
    and hi: "of_nat (unat t) \<le> of_nat 2 * ((u - 0) / 100) * of_nat (unat len) + share_error (unat len)"
    by (rule weighted_size_share [OF zero assms(6) u(1,3) _ urd(5), of 2]) auto
  have err: "share_error (unat len) = S / 1048576" unfolding share_error_def S_def by simp
  have "(of_nat 4096 :: rat) \<le> S" unfolding S_def using assms(3) by (simp only: of_nat_le_iff)
  then have S: "4096 \<le> S" by simp
  have prod: "51 * S \<le> u * S" "u * S \<le> 100 * S" using assms(7) u(2) S by (intro mult_right_mono; simp)+
  have e2: "of_nat 2 * ((u - 0) / 100) * S = u * S / 50" by simp
  have "S \<le> of_nat (unat t)"
    using lo [folded S_def, unfolded err e2] prod(1) S by linarith
  then have len: "unat len \<le> unat t" unfolding S_def by (simp only: of_nat_le_iff)
  have "of_nat (unat t) \<le> 3 * S"
    using hi [folded S_def, unfolded err e2] prod(2) S by linarith
  then have "(of_nat (unat t) :: rat) \<le> of_nat (3 * unat len)" by (simp only: S_def of_nat_mult of_nat_numeral)
  then have "unat t \<le> 3 * unat len" by (simp only: of_nat_le_iff)
  with urd(5) have "unat t \<le> 2 ^ 60" by simp
  from up_ge(1) [OF urd(1) this] len have "len \<le> page_align_up (sys_page_size P) t" by (simp add: word_le_nat_alt)
  then have m: "len = min (page_align_up (sys_page_size P) t) (len - 0)" by (simp add: min_def)
  have ne: "len \<noteq> 0" "(0 :: u64) \<noteq> len" using assms(3) by auto
  have t2: "weighted_size (length [x, y]) (fp_sub binary32 (node_weight x) (Fin 0)) len = Inr t"
    using t assms(5) by (simp flip: numeral_2_eq_2)
  have "then_step (mbind_or_die P ?c ''mbind interleave failed'') (\<lambda>_. done_step ()) g = (g', r)"
    using assms(8) ne(1)
    unfolding place_pages_weighted_def assms(4) weighted_loop_turn [OF ne(2) t2 m refl]
    by (simp add: step_simps)
  then have g': "g' = g\<lparr>syscalls := syscalls g @ [Mbind ?c]\<rparr>"
    by (auto simp: then_step_def mbind_or_die_eq die_if_def step_simps split: if_splits)
  have "mask_nodes P ?ns = {..< MAX_NODES}" using mask_nodes_laws [OF assms(1)] by simp
  moreover have "{..< MAX_NODES} = {0, 1}" by (auto simp: MAX_NODES_def)
  ultimately have "mask_nodes P ?ns = {0, 1}" by (rule trans)
  with g' show ?thesis by (intro exI [of _ ?c]) (simp add: mbind_range_def)
qed

lemma heavy_first_interleaves_all_witness:
  "\<exists>c. syscalls (fst (place_pages_weighted accepting 65536 65536 (start_world 80 20))) = [Mbind c] \<and>
     mbind_range c = (65536, 65536) \<and> mask_nodes accepting (mb_mask c) = {0, 1}"
proof -
  have "representable binary32 (of_int 80)" by (rule representable_of_int; simp add: binary32_def)+
  then have "percentage 80" by (simp add: percentage_def)
  with heavy_first_interleaves_all [of accepting 65536 65536 "start_world 80 20" _ _ 80
      "fst (place_pages_weighted accepting 65536 65536 (start_world 80 20))"
      "snd (place_pages_weighted accepting 65536 65536 (start_world 80 20))"] user_region_concrete
  show ?thesis by (auto simp: start_world_def two_nodes_def)
qed

end
