(* ===== verification/Startup.thy ===== *)
theory Startup
  imports Interposition Adaptive_Search Weight_Shifts
begin

text \<open>
  The start of the library: \<open>read_config\<close>, \<open>libunstickymem_initialize\<close> and the functions for the
  program in src/unstickymem/unstickymem.cpp, the two singletons (\<open>MemoryMap::getInstance\<close> and
  \<open>Runtime::getInstance\<close>), src/unstickymem/Runtime.cpp and the options of the modes. The
  environment, the dynamic linker and Boost's program options are parameters. The depth that
  the stack allows for nested calls is one too, so that unbounded recursion is a result.
\<close>

section \<open>State\<close>

record 'b boot =
  pointers :: "(string \<times> bool) list"           \<comment> \<open>the \<open>WRAP\<close> pointers: is the function found\<close>
  config :: settings
  placing :: "'b world"
  memory_object :: "unit memory_map option"    \<comment> \<open>\<open>object\<close> of \<open>MemoryMap::getInstance\<close>\<close>
  runtime_object :: "mode_kind option"         \<comment> \<open>\<open>object\<close> of \<open>Runtime::getInstance\<close>\<close>
  threads_started :: "string list"
  mem_init :: int                              \<comment> \<open>\<open>MEM_INIT\<close>\<close>
  init_done :: bool

record surroundings =
  getenv :: "string \<Rightarrow> string option"
  weights_file_of :: "string \<Rightarrow> weights_file"
  object_space :: bool                         \<comment> \<open>does \<open>mmap\<close> give space for a singleton\<close>

definition on_placing :: "('b, 'a) step \<Rightarrow> ('b boot, 'a) run" where
  "on_placing f s = (case f (placing s) of (g, r) \<Rightarrow> (s\<lparr>placing := g\<rparr>, r))"

section \<open>Configuration from the environment\<close>

text \<open>\<open>std::stoi\<close>; its exceptions end the process.\<close>

definition stoi :: "string \<Rightarrow> int result" where
  "stoi s =
     (let (neg, r) = split_sign (skip_space s); ds = takeWhile (is_digit 10) r;
          n = (if neg then - digits_value 10 0 ds else digits_value 10 0 ds)
      in if ds = [] then Inl (Aborted ''terminate: std::invalid_argument'')
         else if n < - (2 ^ 31) \<or> 2 ^ 31 \<le> n then Inl (Aborted ''terminate: std::out_of_range'')
         else Inr n)"

definition read_workers :: "surroundings \<Rightarrow> ('b boot, unit) run" where
  "read_workers v =
     (case getenv v ''UNSTICKYMEM_WORKERS'' of
        None \<Rightarrow> done_step ()
      | Some w \<Rightarrow> then_step (lift_result (stoi w))
          (\<lambda>n s. (s\<lparr>placing := (placing s)\<lparr>num_workers := n\<rparr>\<rparr>, Inr ())))"

definition read_core :: "surroundings \<Rightarrow> ('b boot, unit) run" where
  "read_core v s =
     (case getenv v ''BWAP_CORE'' of
        None \<Rightarrow> (s\<lparr>config := (config s)\<lparr>monitoring_core := False\<rparr>\<rparr>, Inr ())
      | Some c \<Rightarrow> then_step (lift_result (stoi c))
          (\<lambda>n s. (s\<lparr>config := (config s)\<lparr>monitoring_core_value := n\<rparr>\<rparr>, Inr ()))
          (s\<lparr>config := (config s)\<lparr>monitoring_core := True\<rparr>\<rparr>))"

definition read_pmc :: "surroundings \<Rightarrow> ('b boot, unit) run" where
  "read_pmc v =
     (case getenv v ''BWAP_PMC'' of
        None \<Rightarrow> done_step ()
      | Some p \<Rightarrow> then_step (lift_result (stoi p))
          (\<lambda>n s. (s\<lparr>config := (config s)\<lparr>pmc_value := n\<rparr>\<rparr>, Inr ())))"

definition read_config :: "surroundings \<Rightarrow> ('b boot, unit) run" where
  "read_config v =
     then_step (read_workers v) (\<lambda>_.
     then_step
       (case getenv v ''BWAP_WEIGHTS'' of
          Some f \<Rightarrow> on_placing (read_weights (weights_file_of v f))
        | None \<Rightarrow> fail_step (Exited 1)) (\<lambda>_.
     then_step (read_core v) (\<lambda>_. read_pmc v)))"

section \<open>Real functions\<close>

text \<open>A function that is not found is only reported.\<close>

definition wrapped_names :: "string list" where
  "wrapped_names =
     [''malloc'', ''calloc'', ''realloc'', ''reallocarray'', ''free'', ''posix_memalign'', ''mmap'', ''munmap'',
      ''mremap'', ''brk'', ''sbrk'', ''mbind'']"

definition init_real_functions :: "linker \<Rightarrow> ('b boot, unit) run" where
  "init_real_functions l s = (s\<lparr>pointers := map (\<lambda>x. (x, symbol_found l x)) wrapped_names\<rparr>, Inr ())"

section \<open>Options\<close>

text \<open>The options of the library and of the modes, with their default values.\<close>

type_synonym options = "(string \<times> string) list"

definition lib_options :: options where
  "lib_options =
     [(''UNSTICKYMEM_HELP'', ''0''), (''UNSTICKYMEM_MODE'', ''wadaptive''), (''UNSTICKYMEM_AUTOSTART'', ''0''),
      (''UNSTICKYMEM_LOGLEVEL'', ''info'')]"

definition adaptive_options :: options where
  "adaptive_options =
     [(''UNSTICKYMEM_WAIT_START'', ''2''), (''UNSTICKYMEM_NUM_POLLS'', ''20''),
      (''UNSTICKYMEM_NUM_POLL_OUTLIERS'', ''5''), (''UNSTICKYMEM_POLL_SLEEP'', ''200000'')]"

definition fixed_options :: options where
  "fixed_options =
     [(''UNSTICKYMEM_LOCAL_RATIO'', ''1''), (''UNSTICKYMEM_NUM_POLLS'', ''20''),
      (''UNSTICKYMEM_NUM_POLL_OUTLIERS'', ''5''), (''UNSTICKYMEM_POLL_SLEEP'', ''200000'')]"

definition scan_options :: options where
  "scan_options =
     [(''UNSTICKYMEM_WAIT_START'', ''2''), (''UNSTICKYMEM_NUM_POLLS'', ''20''),
      (''UNSTICKYMEM_NUM_POLL_OUTLIERS'', ''5''), (''UNSTICKYMEM_POLL_SLEEP'', ''200000''),
      (''UNSTICKYMEM_EXIT_WHEN_FINISHED'', ''1'')]"

definition wadaptive_options :: options where
  "wadaptive_options =
     [(''UNSTICKYMEM_WAIT_START'', ''2''), (''UNSTICKYMEM_NUM_POLLS'', ''20''),
      (''UNSTICKYMEM_NUM_POLL_OUTLIERS'', ''5''), (''UNSTICKYMEM_POLL_SLEEP'', ''200000'')]"

definition disabled_options :: options where
  "disabled_options = []"

fun getOptions :: "mode_kind \<Rightarrow> options" where
  "getOptions Adaptive = adaptive_options"
| "getOptions Disabled = disabled_options"
| "getOptions Fixed_ratio = fixed_options"
| "getOptions Scan = scan_options"
| "getOptions Weighted_adaptive = wadaptive_options"

text \<open>
  Boost: what \<open>parse_environment\<close> finds of the named options; what \<open>parse_config_file\<close> reads from
  a stream and where it leaves the stream; and the values that storing the two, in this
  order, and notifying gives the variables, unless a value is refused. \<open>flag\<close> reads a
  \<open>bool\<close>.
\<close>

record 'f boost =
  parse_environment :: "string list \<Rightarrow> (string \<times> string) list"
  parse_config_file :: "string list \<Rightarrow> 'f \<Rightarrow> (string \<times> string) list \<times> 'f"
  notify :: "options \<Rightarrow> (string \<times> string) list \<Rightarrow> (string \<times> string) list \<Rightarrow> (string \<Rightarrow> string) result"
  flag :: "string \<Rightarrow> bool"

record runtime_config =
  selected_mode :: mode_kind
  autostart :: bool
  mode_values :: "string \<Rightarrow> string"
  log_level :: string

text \<open>The stream of the ini file is read twice.\<close>

definition loadConfiguration :: "'f boost \<Rightarrow> registry \<Rightarrow> 'f \<Rightarrow> runtime_config result" where
  "loadConfiguration B r ini =
     (let (lib_file, ini1) = parse_config_file B (map fst lib_options) ini
      in bind_result (notify B lib_options (parse_environment B (map fst lib_options)) lib_file) (\<lambda>lib.
         bind_result (getMode r (lib ''UNSTICKYMEM_MODE'')) (\<lambda>k.
         let (mode_file, ini2) = parse_config_file B (map fst (getOptions k)) ini1
         in bind_result (notify B (getOptions k) (parse_environment B (map fst (getOptions k))) mode_file) (\<lambda>vals.
            if flag B (lib ''UNSTICKYMEM_HELP'') then Inl (Exited 0)
            else Inr \<lparr>selected_mode = k, autostart = flag B (lib ''UNSTICKYMEM_AUTOSTART''), mode_values = vals,
                      log_level = lib ''UNSTICKYMEM_LOGLEVEL''\<rparr>))))"

section \<open>Singletons\<close>

definition with_state :: "'q \<Rightarrow> 'p memory_map \<Rightarrow> 'q memory_map" where
  "with_state w m =
     \<lparr>segments = segments m, next_node = next_node m, heap_ptr = heap_ptr m, stack_ptr = stack_ptr m,
      text_ptr = text_ptr m, data_ptr = data_ptr m, mem_calls = mem_calls m, mode_state = w\<rparr>"

text \<open>
  The \<open>start\<close> and \<open>startMemInit\<close> of the modes, where \<open>instance_of_map\<close> is \<open>MemoryMap::getInstance\<close>.
  The threads are detached.
\<close>

definition start_thread :: "string \<Rightarrow> ('b boot, unit) run" where
  "start_thread name s = (s\<lparr>threads_started := threads_started s @ [name]\<rparr>, Inr ())"

fun startSelectedMode ::
  "('b boot, unit memory_map) run \<Rightarrow> 'b platform \<Rightarrow> mode_kind \<Rightarrow> ('b boot, unit) run" where
  "startSelectedMode instance_of_map P Adaptive = start_thread ''AdaptiveMode::adaptiveThread''"
| "startSelectedMode instance_of_map P Disabled = done_step ()"
| "startSelectedMode instance_of_map P Fixed_ratio = start_thread ''FixedRatioMode::pollerThread''"
| "startSelectedMode instance_of_map P Scan =
     then_step instance_of_map (\<lambda>m. on_placing (scan_start P (map snd (segments m))))"
| "startSelectedMode instance_of_map P Weighted_adaptive = (\<lambda>s.
     start_thread ''WeightedAdaptiveMode::adaptiveThread'' (s\<lparr>mem_init := 1\<rparr>))"

definition startMemoryInitialization :: "mode_kind \<Rightarrow> ('b boot, unit) run" where
  "startMemoryInitialization k =
     (if k = Weighted_adaptive then start_thread ''WeightedAdaptiveMode::memInitThread'' else done_step ())"

text \<open>
  \<open>object\<close> is assigned after the constructor has returned. The constructor of the map asks for
  the runtime at every segment that it announces; the constructor of the runtime starts the
  mode if \<open>autostart\<close> is set; and the scan mode's \<open>start\<close> asks for the map.
\<close>

fun memory_getInstance ::
    "surroundings \<Rightarrow> libc \<Rightarrow> 'b platform \<Rightarrow> runtime_config result \<Rightarrow> nat \<Rightarrow> ('b boot, unit memory_map) run"
  and runtime_getInstance ::
    "surroundings \<Rightarrow> libc \<Rightarrow> 'b platform \<Rightarrow> runtime_config result \<Rightarrow> nat \<Rightarrow> ('b boot, mode_kind) run" where
  "memory_getInstance v e P conf 0 = fail_step (Undefined ''stack overflow'')"
| "memory_getInstance v e P conf (Suc d) = (\<lambda>s.
     (case memory_object s of
        Some m \<Rightarrow> (s, Inr m)
      | None \<Rightarrow>
          if \<not> object_space v then (s, Inl (Aborted ''error allocating space for memory map object''))
          else
            (case MemoryMap e
               \<lparr>on_addition = (\<lambda>seg. then_step (runtime_getInstance v e P conf d)
                  (\<lambda>k. on_placing (on_addition (mode_hooks P k) seg))),
                on_removal = (\<lambda>seg. done_step ())\<rparr> s of
               (m, Inl x) \<Rightarrow> (mode_state m, Inl x)
             | (m, Inr _) \<Rightarrow>
                 ((mode_state m)\<lparr>memory_object := Some (with_state () m)\<rparr>, Inr (with_state () m)))))"
| "runtime_getInstance v e P conf 0 = fail_step (Undefined ''stack overflow'')"
| "runtime_getInstance v e P conf (Suc d) = (\<lambda>s.
     (case runtime_object s of
        Some k \<Rightarrow> (s, Inr k)
      | None \<Rightarrow>
          if \<not> object_space v then (s, Inl (Aborted ''error allocating space for runtime object''))
          else
            then_step (lift_result conf) (\<lambda>c.
            then_step
              (if autostart c
               then startSelectedMode (memory_getInstance v e P conf d) P (selected_mode c)
               else done_step ())
              (\<lambda>_ s. (s\<lparr>runtime_object := Some (selected_mode c)\<rparr>, Inr (selected_mode c)))) s))"

section \<open>Initialisation\<close>

definition libunstickymem_initialize ::
  "surroundings \<Rightarrow> linker \<Rightarrow> libc \<Rightarrow> 'b platform \<Rightarrow> runtime_config result \<Rightarrow> nat \<Rightarrow>
    ('b boot, unit memory_map \<times> mode_kind) run" where
  "libunstickymem_initialize v l e P conf d =
     then_step (init_real_functions l) (\<lambda>_.
     then_step (read_config v) (\<lambda>_.
     then_step (memory_getInstance v e P conf d) (\<lambda>m.
     then_step (runtime_getInstance v e P conf d) (\<lambda>k s.
       (s\<lparr>init_done := True\<rparr>, Inr (m, k))))))"

text \<open>The functions for the program; \<open>runtime\<close> and \<open>memory\<close> were set by the initialisation.\<close>

definition unstickymem_start ::
  "surroundings \<Rightarrow> libc \<Rightarrow> 'b platform \<Rightarrow> runtime_config result \<Rightarrow> nat \<Rightarrow> ('b boot, unit) run" where
  "unstickymem_start v e P conf d s =
     (case runtime_object s of
        None \<Rightarrow> (s, Inl (Undefined ''null runtime pointer''))
      | Some k \<Rightarrow> startSelectedMode (memory_getInstance v e P conf d) P k s)"

definition unstickymem_initialize :: "('b boot, unit) run" where
  "unstickymem_initialize s =
     (case runtime_object s of
        None \<Rightarrow> (s, Inl (Undefined ''null runtime pointer''))
      | Some k \<Rightarrow> startMemoryInitialization k s)"

end
