(* ===== verification/Startup_Properties.thy ===== *)
theory Startup_Properties
  imports Startup
begin

text \<open>
  What the start of the library does: the constructions behind the two singletons, with and
  without \<open>autostart\<close>, the configuration, and the calls of the program afterwards.
\<close>

section \<open>Constructors and callbacks\<close>

text \<open>A construction stops with the first callback if every callback fails.\<close>

lemma emplace_heap_ptr [simp]: "heap_ptr (emplace_back s m) = heap_ptr m" "mode_state (emplace_back s m) = mode_state m"
  by (simp_all add: emplace_back_def)

lemma failing_line:
  assumes "\<forall>seg. snd (on_addition h seg (mode_state m)) = Inl x"
  shows "snd (map_line e h s m) = Inl x \<or>
    (\<exists>m1. map_line e h s m = (m1, Inr ()) \<and> mode_state m1 = mode_state m \<and> line_kind_of e s \<noteq> Heap_line)"
proof -
  have "snd (add_segment h t (m1 :: 'a memory_map)) = Inl x" if "mode_state m1 = mode_state m" for t m1
    using assms that by (auto simp: add_segment_def in_mode_def split: prod.splits) (metis snd_conv)+
  then show ?thesis by (cases "line_kind_of e s") (simp_all add: map_line_def Let_def)
qed

lemma quiet_line_heap:
  "map_line e no_hooks s m = (m', Inr u) \<Longrightarrow> line_kind_of e s \<noteq> Heap_line \<Longrightarrow> heap_ptr m' = heap_ptr m"
  by (auto simp: map_line_def Let_def add_segment_def in_mode_def no_hooks_def split: line_kind.splits prod.splits)

lemma failing_lines:
  assumes "\<forall>seg. snd (on_addition h seg w) = Inl x"
  shows "map_maps_lines e no_hooks ls m0 = (m0', Inr u) \<Longrightarrow> heap_ptr m0' \<noteq> heap_ptr m0 \<Longrightarrow> mode_state m = w \<Longrightarrow>
    snd (map_maps_lines e h ls m) = Inl x"
proof (induction ls arbitrary: m0 m)
  case (Cons l ls)
  from Cons.prems(1) obtain s m1 where s: "segment_of_maps_line l = Inr s" "map_line e no_hooks s m0 = (m1, Inr ())"
    "map_maps_lines e no_hooks ls m1 = (m0', Inr u)"
    by (auto simp: then_step_Inr_iff)
  have unfold: "map_maps_lines e h (l # ls) m = then_step (map_line e h s) (\<lambda>_. map_maps_lines e h ls) m"
    by (simp add: s(1) step_simps then_step_def)
  from failing_line [of h m x e s] assms Cons.prems(3)
  consider "snd (map_line e h s m) = Inl x"
    | m2 where "map_line e h s m = (m2, Inr ())" "mode_state m2 = mode_state m" "line_kind_of e s \<noteq> Heap_line" by auto
  then show ?case
  proof cases
    case 1
    then show ?thesis unfolding unfold by (auto simp: then_step_def split: prod.splits sum.splits)
  next
    case 2
    with Cons.IH [OF s(3), of m2] Cons.prems quiet_line_heap [OF s(2)]
    show ?thesis unfolding unfold by (simp add: then_step_def)
  qed
qed simp

lemma failing_construction:
  assumes "MemoryMap e no_hooks w0 = (m0, Inr ())" "\<forall>seg. snd (on_addition h seg w) = Inl x"
  shows "snd (MemoryMap e h w) = Inl x"
proof -
  obtain ls where ls: "maps_lines e = Some ls" using assms(1) by (auto simp: MemoryMap_def split: option.splits)
  obtain m1 where m1: "map_maps_lines e no_hooks ls (empty_map w0) = (m1, Inr ())" "heap_ptr m1 \<noteq> None"
    using assms(1) ls by (auto simp: MemoryMap_def then_step_Inr_iff bind_result_Inr_iff)
  then have "heap_ptr m1 \<noteq> heap_ptr (empty_map w0)" by (simp add: empty_map_def)
  from failing_lines [OF assms(2) m1(1) this, of "empty_map w"]
  have "snd (map_maps_lines e h ls (empty_map w)) = Inl x" by (simp add: empty_map_def)
  then show ?thesis by (auto simp: MemoryMap_def ls then_step_def split: prod.splits sum.splits)
qed

section \<open>The scan mode with autostart\<close>

lemma scan_autostart_depth:
  assumes "MemoryMap e no_hooks w0 = (m0, Inr ())" "object_space v" "autostart c" "selected_mode c = Scan"
  shows "memory_object s = None \<Longrightarrow> runtime_object s = None \<Longrightarrow>
    snd (memory_getInstance v e P (Inr c) d s) = Inl (Undefined ''stack overflow'')"
proof (induction d arbitrary: s rule: less_induct)
  case (less d)
  have runtime: "snd (runtime_getInstance v e P (Inr c) d' s) = Inl (Undefined ''stack overflow'')" if "d' < d" for d'
  proof (cases d')
    case (Suc d2)
    with less.IH [of d2 s] less.prems that
    have "snd (memory_getInstance v e P (Inr c) d2 s) = Inl (Undefined ''stack overflow'')" by simp
    then show ?thesis
      using less.prems assms(2-4) Suc
      by (auto simp: then_step_def step_simps split: prod.splits sum.splits)
  qed (simp add: step_simps)
  show ?case
  proof (cases d)
    case (Suc d')
    let ?h = "\<lparr>on_addition = (\<lambda>seg. then_step (runtime_getInstance v e P (Inr c) d')
                  (\<lambda>k. on_placing (on_addition (mode_hooks P k) seg))), on_removal = (\<lambda>seg. done_step ())\<rparr>"
    have "\<forall>seg. snd (on_addition ?h seg s) = Inl (Undefined ''stack overflow'')"
      using runtime [of d'] Suc by (auto simp: then_step_def split: prod.splits sum.splits)
    from failing_construction [OF assms(1) this]
    show ?thesis using Suc less.prems assms(2) by (auto split: prod.splits sum.splits)
  qed (simp add: step_simps)
qed

section \<open>Without autostart\<close>

lemma with_state_simps [simp]:
  "segments (with_state w m) = segments m" "heap_ptr (with_state w m) = heap_ptr m"
  "stack_ptr (with_state w m) = stack_ptr m" "text_ptr (with_state w m) = text_ptr m"
  "data_ptr (with_state w m) = data_ptr m" "mode_state (with_state w m) = w"
  "with_state (mode_state m) m = m"
  by (simp_all add: with_state_def)

lemma with_state_twice [simp]:
  "with_state w (with_state w' m) = with_state w m" "with_state w (m\<lparr>mode_state := w''\<rparr>) = with_state w m"
  by (simp_all add: with_state_def)

lemma with_state_updates [simp]:
  "with_state w (m\<lparr>heap_ptr := p\<rparr>) = (with_state w m)\<lparr>heap_ptr := p\<rparr>"
  "with_state w (m\<lparr>stack_ptr := p\<rparr>) = (with_state w m)\<lparr>stack_ptr := p\<rparr>"
  "with_state w (m\<lparr>text_ptr := p\<rparr>) = (with_state w m)\<lparr>text_ptr := p\<rparr>"
  "with_state w (m\<lparr>data_ptr := p\<rparr>) = (with_state w m)\<lparr>data_ptr := p\<rparr>"
  "with_state w (emplace_back s m) = emplace_back s (with_state w m)"
  "(with_state w m)\<lparr>mode_state := w'\<rparr> = with_state w' m"
  "next_node (with_state w m) = next_node m"
  by (simp_all add: with_state_def emplace_back_def)

text \<open>Two modes whose callbacks agree, up to a relation between their states.\<close>

definition callbacks_agree :: "('p \<Rightarrow> 'q \<Rightarrow> bool) \<Rightarrow> 'p hooks \<Rightarrow> 'q hooks \<Rightarrow> bool" where
  "callbacks_agree R h1 h2 \<longleftrightarrow>
     (\<forall>seg b g g'. R b g \<longrightarrow> on_addition h2 seg g = (g', Inr ()) \<longrightarrow>
       (\<exists>b'. on_addition h1 seg b = (b', Inr ()) \<and> R b' g'))"

lemma emplace_with_state: "(emplace_back s (with_state b m))\<lparr>mode_state := b'\<rparr> = emplace_back s (with_state b' m)"
  by (simp add: emplace_back_def with_state_def)

lemma add_segment_sim:
  assumes "callbacks_agree R h1 h2" "R b (mode_state m)" "add_segment h2 s m = (m', Inr ())"
  shows "\<exists>b'. add_segment h1 s (with_state b m) = (with_state b' m', Inr ()) \<and> R b' (mode_state m')"
proof -
  obtain g' where g': "on_addition h2 s (mode_state m) = (g', Inr ())" "m' = (emplace_back s m)\<lparr>mode_state := g'\<rparr>"
    using assms(3) by (auto simp: add_segment_def in_mode_def split: prod.splits)
  with assms(1,2) obtain b' where "on_addition h1 s b = (b', Inr ())" "R b' g'"
    unfolding callbacks_agree_def by blast
  then show ?thesis
    by (intro exI [of _ b']) (simp add: add_segment_def in_mode_def g'(2) emplace_with_state)
qed

lemma map_line_sim:
  assumes "callbacks_agree R h1 h2" "R b (mode_state m)" "map_line e h2 s m = (m', Inr ())"
  shows "\<exists>b'. map_line e h1 s (with_state b m) = (with_state b' m', Inr ()) \<and> R b' (mode_state m')"
proof -
  have add: "\<exists>b'. add_segment h1 t (with_state b m1) = (with_state b' m', Inr ()) \<and> R b' (mode_state m')"
    if "add_segment h2 t m1 = (m', Inr ())" "mode_state m1 = mode_state m" for t m1
    using add_segment_sim [OF assms(1) _ that(1)] that(2) assms(2) by simp
  note line = assms(3) [unfolded map_line_def Let_def]
  show ?thesis
  proof (cases "line_kind_of e s")
    case Heap_line
    with line add [of "s\<lparr>segment_name := ''heap''\<rparr>" "m\<lparr>heap_ptr := Some (next_node m)\<rparr>"]
    show ?thesis by (simp add: map_line_def)
  next
    case Text_line
    with line add [of "s\<lparr>segment_name := ''text''\<rparr>" "m\<lparr>text_ptr := Some (next_node m)\<rparr>"]
    show ?thesis by (simp add: map_line_def)
  next
    case Data_line
    with line add [of "s\<lparr>segment_name := ''data''\<rparr>" "m\<lparr>data_ptr := Some (next_node m)\<rparr>"]
    show ?thesis by (simp add: map_line_def)
  next
    case Anonymous_line
    with line add [of "s\<lparr>segment_name := ''anonymous''\<rparr>" m] show ?thesis by (simp add: map_line_def)
  next
    case Stack_line
    with line assms(2) show ?thesis by (intro exI [of _ b]) (auto simp: map_line_def)
  next
    case Other_line
    with line assms(2) show ?thesis by (intro exI [of _ b]) (auto simp: map_line_def)
  qed
qed

lemma map_maps_lines_sim:
  assumes "callbacks_agree R h1 h2"
  shows "map_maps_lines e h2 ls m = (m', Inr ()) \<Longrightarrow> R b (mode_state m) \<Longrightarrow>
    \<exists>b'. map_maps_lines e h1 ls (with_state b m) = (with_state b' m', Inr ()) \<and> R b' (mode_state m')"
proof (induction ls arbitrary: m b)
  case (Cons l ls)
  from Cons.prems(1) obtain s m1 where s: "segment_of_maps_line l = Inr s" "map_line e h2 s m = (m1, Inr ())"
    "map_maps_lines e h2 ls m1 = (m', Inr ())"
    by (auto simp: then_step_Inr_iff)
  from map_line_sim [OF assms Cons.prems(2) s(2)] obtain b1 where
    b1: "map_line e h1 s (with_state b m) = (with_state b1 m1, Inr ())" "R b1 (mode_state m1)" by blast
  from Cons.IH [OF s(3) b1(2)] b1(1) s(1) show ?case by (auto simp: then_step_Inr_iff)
qed auto

text \<open>A map with a heap has announced it.\<close>

lemma map_maps_lines_announced:
  assumes "\<And>seg b b'. on_addition h seg b = (b', Inr ()) \<Longrightarrow> Q b'"
  shows "map_maps_lines e h ls m = (m', Inr ()) \<Longrightarrow> (heap_ptr m \<noteq> None \<Longrightarrow> Q (mode_state m)) \<Longrightarrow>
    heap_ptr m' \<noteq> None \<Longrightarrow> Q (mode_state m')"
proof (induction ls arbitrary: m)
  case (Cons l ls)
  from Cons.prems(1) obtain s m1 where s: "map_line e h s m = (m1, Inr ())" "map_maps_lines e h ls m1 = (m', Inr ())"
    by (auto simp: then_step_Inr_iff)
  have "heap_ptr m1 \<noteq> None \<Longrightarrow> Q (mode_state m1)"
    using s(1) Cons.prems(2)
    by (cases "line_kind_of e s")
      (auto simp: map_line_def Let_def add_segment_def in_mode_def emplace_back_def split: prod.splits dest: assms)
  from Cons.IH [OF s(2) this Cons.prems(3)] show ?case .
qed simp

lemma construction_sim:
  assumes "callbacks_agree R h1 h2" "MemoryMap e h2 g = (m, Inr ())" "R b g"
  shows "\<exists>b'. MemoryMap e h1 b = (with_state b' m, Inr ()) \<and> R b' (mode_state m)"
proof -
  obtain ls where ls: "maps_lines e = Some ls" using assms(2) by (auto simp: MemoryMap_def split: option.splits)
  with assms(2) have m: "map_maps_lines e h2 ls (empty_map g) = (m, Inr ())"
    and ok: "heap_ptr m \<noteq> None" "stack_ptr m \<noteq> None" "text_ptr m \<noteq> None" "data_ptr m \<noteq> None"
      "maps_read_ok e" "maps_close_ok e"
    by (auto simp: MemoryMap_def then_step_Inr_iff bind_result_Inr_iff)
  have "with_state b (empty_map g) = empty_map b" by (simp add: with_state_def empty_map_def)
  with map_maps_lines_sim [OF assms(1) m, of b] assms(3) obtain b' where
    b': "map_maps_lines e h1 ls (empty_map b) = (with_state b' m, Inr ())" "R b' (mode_state m)"
    by (auto simp: empty_map_def)
  with ok show ?thesis by (intro exI [of _ b']) (simp add: MemoryMap_def ls then_step_Inr_iff bind_result_Inr_iff)
qed

lemma runtime_getInstance_sets:
  "runtime_getInstance v e P conf d s = (s', Inr k) \<Longrightarrow> runtime_object s' = Some k"
  by (cases d) (auto simp: then_step_Inr_iff step_simps split: option.splits if_splits)

lemma on_placing_Inr:
  "on_placing f s = (s', Inr x) \<longleftrightarrow> (\<exists>g. f (placing s) = (g, Inr x) \<and> s' = s\<lparr>placing := g\<rparr>)"
  by (auto simp: on_placing_def split: prod.splits)

text \<open>The callbacks of the constructor: ask for the runtime, and let its mode hear of the segment.\<close>

abbreviation start_hooks ::
  "surroundings \<Rightarrow> libc \<Rightarrow> 'b platform \<Rightarrow> runtime_config result \<Rightarrow> nat \<Rightarrow> 'b boot hooks" where
  "start_hooks v e P conf d \<equiv>
     \<lparr>on_addition = (\<lambda>seg. then_step (runtime_getInstance v e P conf d)
        (\<lambda>k. on_placing (on_addition (mode_hooks P k) seg))), on_removal = (\<lambda>seg. done_step ())\<rparr>"

lemma start_hooks_announce: "on_addition (start_hooks v e P conf d) seg b = (b', Inr ()) \<Longrightarrow> runtime_object b' \<noteq> None"
  by (auto simp: then_step_Inr_iff on_placing_Inr dest: runtime_getInstance_sets)

definition starting :: "'b boot \<Rightarrow> mode_kind \<Rightarrow> 'b boot \<Rightarrow> 'b world \<Rightarrow> bool" where
  "starting s k b g \<longleftrightarrow> (\<exists>ro. (ro = None \<or> ro = Some k) \<and> b = s\<lparr>placing := g, runtime_object := ro\<rparr>)"

lemma start_hooks_agree:
  assumes "\<not> autostart c" "object_space v"
  shows "callbacks_agree (starting s (selected_mode c)) (start_hooks v e P (Inr c) (Suc d))
    (mode_hooks P (selected_mode c))"
  unfolding callbacks_agree_def
proof (intro allI impI)
  fix seg b g g'
  assume b: "starting s (selected_mode c) b g" and
    g': "on_addition (mode_hooks P (selected_mode c)) seg g = (g', Inr ())"
  from b obtain ro where ro: "ro = None \<or> ro = Some (selected_mode c)" "b = s\<lparr>placing := g, runtime_object := ro\<rparr>"
    by (auto simp: starting_def)
  let ?b' = "s\<lparr>placing := g', runtime_object := Some (selected_mode c)\<rparr>"
  have "on_addition (start_hooks v e P (Inr c) (Suc d)) seg b = (?b', Inr ())"
    using ro g' assms by (auto simp: then_step_def step_simps on_placing_def)
  then show "\<exists>b'. on_addition (start_hooks v e P (Inr c) (Suc d)) seg b = (b', Inr ()) \<and> starting s (selected_mode c) b' g'"
    by (auto simp: starting_def)
qed

lemma memory_getInstance_constructs:
  assumes "MemoryMap e (mode_hooks P (selected_mode c)) (placing s) = (m, Inr ())"
    and "\<not> autostart c" "object_space v" "memory_object s = None" "runtime_object s = None"
  shows "memory_getInstance v e P (Inr c) (Suc (Suc d)) s =
    (s\<lparr>placing := mode_state m, runtime_object := Some (selected_mode c), memory_object := Some (with_state () m)\<rparr>,
     Inr (with_state () m))"
proof -
  let ?h = "start_hooks v e P (Inr c) (Suc d)"
  have "starting s (selected_mode c) s (placing s)" unfolding starting_def using assms(5)
    by (intro exI [of _ None]) (cases s, simp)
  from construction_sim [OF start_hooks_agree [OF assms(2,3)] assms(1) this]
  obtain b where b: "MemoryMap e ?h s = (with_state b m, Inr ())" "starting s (selected_mode c) b (mode_state m)"
    by blast
  obtain ls where ls: "maps_lines e = Some ls" using assms(1) by (auto simp: MemoryMap_def split: option.splits)
  have "map_maps_lines e ?h ls (empty_map s) = (with_state b m, Inr ())"
    using b(1) ls by (auto simp: MemoryMap_def then_step_Inr_iff bind_result_Inr_iff)
  then have "runtime_object (mode_state (with_state b m)) \<noteq> None"
  proof (rule map_maps_lines_announced [where h = ?h and Q = "\<lambda>b. runtime_object b \<noteq> None", rotated])
    show "heap_ptr (with_state b m) \<noteq> None" using constructed_ok(2) [OF assms(1)] by simp
  qed (simp add: empty_map_def, rule start_hooks_announce)
  then have "runtime_object b \<noteq> None" by simp
  with b(2) have "b = s\<lparr>placing := mode_state m, runtime_object := Some (selected_mode c)\<rparr>"
    by (auto simp: starting_def)
  with b(1) assms(3,4) show ?thesis by simp
qed

section \<open>From the start to the calls of the program\<close>

text \<open>The state of the wrapped functions after the initialisation.\<close>

definition ready :: "'b boot \<Rightarrow> unit memory_map \<Rightarrow> 'b world interposition" where
  "ready s m =
     \<lparr>is_initialized = init_done s, inside_unstickymem = False, inside_dlsym = False, calloc_buffer_in_use = False,
      memory = with_state (placing s) m\<rparr>"

lemma with_state_ok [simp]: "map_ok (with_state w m) = map_ok m"
  by (simp add: map_ok_def)

lemma memory_getInstance_ok:
  assumes "memory_getInstance v e P conf d s = (s', Inr m)" "memory_object s = None"
  shows "map_ok m \<and> memory_object s' = Some m"
proof (cases d)
  case 0
  with assms(1) show ?thesis by simp
next
  case (Suc d')
  with assms obtain m1 u where "MemoryMap e (start_hooks v e P conf d') s = (m1, Inr u)"
    and "m = with_state () m1" "s' = (mode_state m1)\<lparr>memory_object := Some m\<rparr>"
    by (auto split: if_splits prod.splits sum.splits)
  with constructed_ok(6) [of e _ s m1] show ?thesis by simp
qed

lemma read_config_keeps:
  assumes "read_config v s = (s', Inr u)"
  shows "memory_object s' = memory_object s \<and> runtime_object s' = runtime_object s"
proof -
  have *: "memory_object s' = memory_object s \<and> runtime_object s' = runtime_object s"
    if "read_workers v s = (s', Inr u) \<or> read_core v s = (s', Inr u) \<or> read_pmc v s = (s', Inr u)"
    for s s' u and v
    using that by (auto simp: read_workers_def read_core_def read_pmc_def then_step_Inr_iff split: option.splits)
  from assms obtain s1 s2 s3 where
    1: "read_workers v s = (s1, Inr ())" and
    2: "(case getenv v ''BWAP_WEIGHTS'' of
          Some f \<Rightarrow> on_placing (read_weights (weights_file_of v f)) | None \<Rightarrow> fail_step (Exited 1)) s1 = (s2, Inr ())" and
    3: "read_core v s2 = (s3, Inr ())" and 4: "read_pmc v s3 = (s', Inr ())"
    by (auto simp: read_config_def then_step_Inr_iff)
  from 2 have "memory_object s2 = memory_object s1 \<and> runtime_object s2 = runtime_object s1"
    by (auto simp: on_placing_Inr split: option.splits)
  with * [of v s s1 "()"] * [of v s2 s3 "()"] * [of v s3 s' "()"] 1 3 4 show ?thesis by simp
qed

lemma initialize_steps:
  assumes "read_config v (fst (init_real_functions l s)) = (s1, Inr ())"
    and "memory_getInstance v e P conf d s1 = (s2, Inr m)"
    and "runtime_getInstance v e P conf d s2 = (s3, Inr k)"
  shows "libunstickymem_initialize v l e P conf d s = (s3\<lparr>init_done := True\<rparr>, Inr (m, k))"
  using assms by (simp add: libunstickymem_initialize_def init_real_functions_def then_step_def)

lemma initialized_ok:
  assumes "libunstickymem_initialize v l e P conf d s = (s', Inr (m, k))" "memory_object s = None"
  shows "map_ok m \<and> init_done s' \<and> runtime_object s' = Some k"
proof -
  from assms(1) obtain s1 s2 s3 where
    "read_config v (s\<lparr>pointers := map (\<lambda>x. (x, symbol_found l x)) wrapped_names\<rparr>) = (s1, Inr ())"
    "memory_getInstance v e P conf d s1 = (s2, Inr m)"
    "runtime_getInstance v e P conf d s2 = (s3, Inr k)" "s' = s3\<lparr>init_done := True\<rparr>"
    by (auto simp: libunstickymem_initialize_def then_step_Inr_iff init_real_functions_def)
  with assms(2) memory_getInstance_ok [of v e P conf d s1 s2 m] read_config_keeps [of v _ s1 "()"]
    runtime_getInstance_sets [of v e P conf d s2 s3 k]
  show ?thesis by simp
qed

section \<open>What the initialisation asks of the kernel\<close>

lemma map_line_adds:
  assumes "map_line e h s m = (m', Inr ())"
  obtains (silent) ss where "segments m' = segments m @ ss" "mode_state m' = mode_state m"
  | (heard) i seg where "segments m' = segments m @ [(i, seg)]"
      "on_addition h seg (mode_state m) = (mode_state m', Inr ())"
proof (cases "line_kind_of e s = Stack_line \<or> line_kind_of e s = Other_line")
  case True
  with assms show thesis
    by (intro silent [of "drop (length (segments m)) (segments m')"])
      (auto simp: map_line_def Let_def emplace_back_def)
next
  case False
  then obtain t m1 where t: "add_segment h t m1 = (m', Inr ())" "segments m1 = segments m" "mode_state m1 = mode_state m"
    using assms by (cases "line_kind_of e s") (auto simp: map_line_def Let_def)
  then show thesis
    by (intro heard [of "next_node m1" t])
      (auto simp: add_segment_def in_mode_def emplace_back_def split: prod.splits)
qed

text \<open>
  What a construction needs of the callbacks: under the condition \<open>ok\<close>, whatever they ask the
  kernel for is inside the announced segment. \<open>f\<close> is the part of their state that holds the
  system calls.
\<close>

locale callback_contract =
  fixes P :: "'b platform" and h :: "'p hooks" and f :: "'p \<Rightarrow> 'b world" and ok :: bool
  assumes announced_within:
    "ok \<Longrightarrow> libnuma_ok P \<Longrightarrow> page_size_ok (sys_page_size P) \<Longrightarrow> placeable P s \<Longrightarrow>
     on_addition h s w = (w', Inr ()) \<Longrightarrow> \<exists>cs. issued (f w) cs (f w') \<and> calls_within P [s] cs"
begin

lemma lines_within:
  assumes "ok" "libnuma_ok P" "page_size_ok (sys_page_size P)"
  shows "map_maps_lines e h ls m = (m', Inr ()) \<Longrightarrow> list_all (placeable P) (map snd (segments m')) \<Longrightarrow>
    \<exists>ss cs. segments m' = segments m @ ss \<and> issued (f (mode_state m)) cs (f (mode_state m')) \<and>
      calls_within P (map snd ss) cs"
proof (induction ls arbitrary: m)
  case Nil
  then show ?case by (intro exI [of _ "[]"]) (simp add: calls_within_def)
next
  case (Cons l ls)
  from Cons.prems(1) obtain s m1 where s: "map_line e h s m = (m1, Inr ())" "map_maps_lines e h ls m1 = (m', Inr ())"
    by (auto simp: then_step_Inr_iff)
  from Cons.IH [OF s(2) Cons.prems(2)] obtain ss cs where ss: "segments m' = segments m1 @ ss"
    "issued (f (mode_state m1)) cs (f (mode_state m'))" "calls_within P (map snd ss) cs" by blast
  from s(1) show ?case
  proof (cases rule: map_line_adds)
    case (silent ts)
    with ss calls_within_mono [OF ss(3), of "map snd (ts @ ss)"] show ?thesis
      by (intro exI [of _ "ts @ ss"] exI [of _ cs]) auto
  next
    case (heard i seg)
    then have "placeable P seg" using Cons.prems(2) ss(1) by simp
    from announced_within [OF assms this heard(2)] obtain ds where ds: "issued (f (mode_state m)) ds (f (mode_state m1))"
      "calls_within P [seg] ds" by blast
    have "calls_within P (map snd ((i, seg) # ss)) (ds @ cs)"
      using calls_within_mono [OF ds(2), of "seg # map snd ss"] calls_within_mono [OF ss(3), of "seg # map snd ss"]
      by (auto simp: calls_within_append)
    with heard(1) ss(1) issued_trans [OF ds(1) ss(2)] show ?thesis
      by (intro exI [of _ "(i, seg) # ss"] exI [of _ "ds @ cs"]) simp
  qed
qed

lemma construction_within:
  assumes "ok" "libnuma_ok P" "page_size_ok (sys_page_size P)"
    and "MemoryMap e h w = (m, Inr u)" "list_all (placeable P) (map snd (segments m))"
  shows "\<exists>cs. issued (f w) cs (f (mode_state m)) \<and> calls_within P (map snd (segments m)) cs"
proof -
  from assms(4) obtain ls where "map_maps_lines e h ls (empty_map w) = (m, Inr ())"
    by (auto simp: MemoryMap_def then_step_Inr_iff split: option.splits)
  from lines_within [OF assms(1-3) this assms(5)] show ?thesis by (auto simp: empty_map_def)
qed

end

text \<open>A mode's own callbacks satisfy it without a condition.\<close>

sublocale mode_contract \<subseteq> own: callback_contract P h "\<lambda>g. g" True
  by unfold_locales (rule addition_within)

lemma startSelectedMode_keeps:
  "startSelectedMode g P k s = (s', Inr u) \<Longrightarrow> k \<noteq> Scan \<Longrightarrow> placing s' = placing s"
  by (cases k) (auto simp: start_thread_def)

lemma runtime_getInstance_keeps:
  assumes "runtime_getInstance v e P (Inr c) d s = (s', Inr k)" "autostart c \<longrightarrow> selected_mode c \<noteq> Scan"
  shows "placing s' = placing s"
proof (cases d)
  case (Suc d')
  with assms show ?thesis
    by (auto simp: then_step_Inr_iff step_simps dest: startSelectedMode_keeps split: option.splits if_splits)
qed (use assms in simp)

lemma start_hooks_within:
  assumes "libnuma_ok P" "page_size_ok (sys_page_size P)" "placeable P seg" "autostart c \<longrightarrow> selected_mode c \<noteq> Scan"
    and "on_addition (start_hooks v e P (Inr c) d) seg b = (b', Inr ())"
  shows "\<exists>cs. issued (placing b) cs (placing b') \<and> calls_within P [seg] cs"
proof -
  from assms(5) obtain b1 k where "runtime_getInstance v e P (Inr c) d b = (b1, Inr k)"
    and run: "on_placing (on_addition (mode_hooks P k) seg) b1 = (b', Inr ())"
    by (auto simp: then_step_Inr_iff)
  then have "placing b1 = placing b" using assms(4) runtime_getInstance_keeps by blast
  with run obtain g where "on_addition (mode_hooks P k) seg (placing b) = (g, Inr ())" "placing b' = g"
    by (auto simp: on_placing_Inr)
  with modes.addition_within [OF assms(1-3)] show ?thesis by blast
qed

interpretation start_up: callback_contract P "start_hooks v e P (Inr c) d" placing
    "autostart c \<longrightarrow> selected_mode c \<noteq> Scan" for P v e c d
  by unfold_locales (rule start_hooks_within)

lemma memory_getInstance_within:
  assumes "libnuma_ok P" "page_size_ok (sys_page_size P)" "autostart c \<longrightarrow> selected_mode c \<noteq> Scan"
    and "memory_object s = None" "list_all (placeable P) (map snd (segments m))"
    and run: "memory_getInstance v e P (Inr c) d s = (s', Inr m)"
  shows "\<exists>cs. issued (placing s) cs (placing s') \<and> calls_within P (map snd (segments m)) cs"
proof (cases d)
  case 0
  with run show ?thesis by simp
next
  case (Suc d')
  with run assms(4) obtain m1 u where m1: "MemoryMap e (start_hooks v e P (Inr c) d') s = (m1, Inr u)"
    and m: "m = with_state () m1" "s' = (mode_state m1)\<lparr>memory_object := Some m\<rparr>"
    by (auto split: if_splits prod.splits sum.splits)
  with start_up.construction_within [OF assms(3,1,2) m1] assms(5) show ?thesis by simp
qed

lemma read_config_syscalls:
  assumes "read_config v s = (s', Inr u)"
  shows "syscalls (placing s') = syscalls (placing s)"
proof -
  have *: "syscalls (placing s') = syscalls (placing s)"
    if "read_workers v s = (s', Inr u) \<or> read_core v s = (s', Inr u) \<or> read_pmc v s = (s', Inr u)"
    for s s' u and v
    using that by (auto simp: read_workers_def read_core_def read_pmc_def then_step_Inr_iff split: option.splits)
  have read: "syscalls g' = syscalls g" if "read_weights w g = (g', Inr u)" for w g g' u
    using that by (auto simp: read_weights_def split: if_splits option.splits sum.splits)
  from assms obtain s1 s2 s3 where
    1: "read_workers v s = (s1, Inr ())" and
    2: "(case getenv v ''BWAP_WEIGHTS'' of
          Some f \<Rightarrow> on_placing (read_weights (weights_file_of v f)) | None \<Rightarrow> fail_step (Exited 1)) s1 = (s2, Inr ())" and
    3: "read_core v s2 = (s3, Inr ())" and 4: "read_pmc v s3 = (s', Inr ())"
    by (auto simp: read_config_def then_step_Inr_iff)
  from 2 read have "syscalls (placing s2) = syscalls (placing s1)"
    by (auto simp: on_placing_Inr split: option.splits)
  with * [of v s s1 "()"] * [of v s2 s3 "()"] * [of v s3 s' "()"] 1 3 4 show ?thesis by simp
qed

section \<open>A concrete start\<close>

definition demo_surroundings :: surroundings where
  "demo_surroundings =
     \<lparr>getenv = (\<lambda>n. if n = ''BWAP_WEIGHTS'' then Some ''w.txt'' else None),
      weights_file_of = (\<lambda>_. \<lparr>sort_status = 0, sorted_lines = Some []\<rparr>), object_space = True\<rparr>"

definition demo_boot :: "(nat \<times> nat set) boot" where
  "demo_boot =
     \<lparr>pointers = [], config = plain_settings, placing = start_world 25 75, memory_object = None, runtime_object = None,
      threads_started = [], mem_init = 0, init_done = False\<rparr>"

definition demo_config :: "mode_kind \<Rightarrow> bool \<Rightarrow> runtime_config" where
  "demo_config k auto = \<lparr>selected_mode = k, autostart = auto, mode_values = (\<lambda>_. []), log_level = ''info''\<rparr>"

text \<open>Boost, as far as it is used: the environment is empty; the file is a list of pairs.\<close>

definition demo_boost :: "(string \<times> string) list boost" where
  "demo_boost =
     \<lparr>parse_environment = (\<lambda>names. []),
      parse_config_file = (\<lambda>names f. (filter (\<lambda>(n, v). n \<in> set names) f, [])),
      notify = (\<lambda>opts env file. Inr (\<lambda>n. case map_of (env @ file @ opts) n of Some x \<Rightarrow> x | None \<Rightarrow> [])),
      flag = (\<lambda>v. v = ''1'')\<rparr>"

lemmas mode_option_lists = adaptive_options_def fixed_options_def scan_options_def wadaptive_options_def
  disabled_options_def

text \<open>
  What Boost documents of these functions: a config file is parsed to the end of the stream, a
  stream at its end gives no options, and of the values of an option the one stored first
  counts, which is that of the environment, then the file's, then the default.
\<close>

definition boost_ok :: "'f boost \<Rightarrow> bool" where
  "boost_ok B \<longleftrightarrow>
     (\<forall>names names' f. fst (parse_config_file B names' (snd (parse_config_file B names f))) = []) \<and>
     (\<forall>opts env file vals n d. notify B opts env file = Inr vals \<longrightarrow> map_of opts n = Some d \<longrightarrow>
        vals n = (case map_of env n of Some x \<Rightarrow> x | None \<Rightarrow> (case map_of file n of Some x \<Rightarrow> x | None \<Rightarrow> d)))"

section \<open>Properties\<close>

text \<open>
  C7: the initialisation. If it returns, in any mode and with or without autostart (but for the
  scan mode with autostart, which does not return), all it has asked the kernel for is to bind
  page-aligned ranges, each inside the pages of one segment of the list that it built, whose
  segments above 1 MiB are taken to lie in the user address range.
\<close>

theorem initialisation_binds_mapped_segments:
  assumes "libunstickymem_initialize v l e P (Inr c) d s = (s', Inr (m, k))"
    and "memory_object s = None" and "autostart c \<longrightarrow> selected_mode c \<noteq> Scan"
    and "libnuma_ok P" and "page_size_ok (sys_page_size P)" and "list_all (placeable P) (map snd (segments m))"
  shows "\<exists>cs. syscalls (placing s') = syscalls (placing s) @ map Mbind cs \<and>
    (\<forall>c \<in> set cs. page_aligned_call (sys_page_size P) c \<and>
      (\<exists>a \<in> set (map snd (segments m)). chunk_bytes (mbind_range c) \<subseteq> aligned_region (sys_page_size P) a))"
proof -
  from assms(1) obtain s1 s2 s3 where
    1: "read_config v (s\<lparr>pointers := map (\<lambda>x. (x, symbol_found l x)) wrapped_names\<rparr>) = (s1, Inr ())" and
    2: "memory_getInstance v e P (Inr c) d s1 = (s2, Inr m)" and
    3: "runtime_getInstance v e P (Inr c) d s2 = (s3, Inr k)" "s' = s3\<lparr>init_done := True\<rparr>"
    by (auto simp: libunstickymem_initialize_def then_step_Inr_iff init_real_functions_def)
  have "memory_object s1 = None" using read_config_keeps [OF 1] assms(2) by simp
  from memory_getInstance_within [OF assms(4,5,3) this assms(6) 2] obtain cs where
    "issued (placing s1) cs (placing s2)" "calls_within P (map snd (segments m)) cs" by blast
  with read_config_syscalls [OF 1] runtime_getInstance_keeps [OF 3(1) assms(3)] 3(2) show ?thesis
    by (intro exI [of _ cs]) (simp add: issued_def calls_within_def)
qed

text \<open>The small process of Segment_Live.thy, disabled, with the weights 25 and 75 and an empty weights file.\<close>

lemma demo_world_map: "MemoryMap demo_libc (mode_hooks P Disabled) w = (with_state w demo_map, Inr ())"
proof -
  have "callbacks_agree (\<lambda>b g. b = w) (mode_hooks P Disabled) no_hooks"
    by (simp add: callbacks_agree_def no_hooks_def ignore_segment_def)
  from construction_sim [OF this demo_constructed] show ?thesis by simp
qed

lemma demo_read_config:
  "read_config demo_surroundings (fst (init_real_functions demo_linker demo_boot)) =
     (fst (read_config demo_surroundings (fst (init_real_functions demo_linker demo_boot))), Inr ())"
proof -
  have "snd (read_config demo_surroundings (fst (init_real_functions demo_linker demo_boot))) = Inr ()" by code_simp
  then show ?thesis by (simp add: prod_eq_iff)
qed

lemma demo_initialize_mode:
  assumes "MemoryMap demo_libc (mode_hooks accepting k)
      (placing (fst (read_config demo_surroundings (fst (init_real_functions demo_linker demo_boot))))) = (m, Inr ())"
  obtains s' where "libunstickymem_initialize demo_surroundings demo_linker demo_libc accepting
      (Inr (demo_config k False)) 3 demo_boot = (s', Inr (with_state () m, k))"
    "init_done s'" "placing s' = mode_state m" "runtime_object s' = Some k"
proof -
  let ?s1 = "fst (read_config demo_surroundings (fst (init_real_functions demo_linker demo_boot)))"
  let ?c = "demo_config k False"
  have k: "selected_mode ?c = k" "\<not> autostart ?c" by (simp_all add: demo_config_def)
  have s1: "memory_object ?s1 = None" "runtime_object ?s1 = None"
    using read_config_keeps [OF demo_read_config] by (simp_all add: init_real_functions_def demo_boot_def)
  have space: "object_space demo_surroundings" by (simp add: demo_surroundings_def)
  have map: "MemoryMap demo_libc (mode_hooks accepting (selected_mode ?c)) (placing ?s1) = (m, Inr ())"
    unfolding k(1) by (rule assms)
  from memory_getInstance_constructs [OF map k(2) space s1, of "Suc 0"]
  obtain s2 where s2: "memory_getInstance demo_surroundings demo_libc accepting (Inr ?c) 3 ?s1 =
      (s2, Inr (with_state () m))" "runtime_object s2 = Some k" "placing s2 = mode_state m"
    by (simp add: numeral_3_eq_3 k del: memory_getInstance.simps)
  from s2(2) have "runtime_getInstance demo_surroundings demo_libc accepting (Inr ?c) 3 s2 = (s2, Inr k)"
    by (simp add: numeral_3_eq_3)
  note initialize_steps [OF demo_read_config s2(1) this]
  then show thesis by (rule that) (simp_all add: s2)
qed

lemma demo_initialize:
  obtains s' where "libunstickymem_initialize demo_surroundings demo_linker demo_libc accepting
      (Inr (demo_config Disabled False)) 3 demo_boot = (s', Inr (with_state () demo_map, Disabled))"
    "init_done s'"
  using demo_initialize_mode [OF demo_world_map, of thesis] that by (simp add: with_state_def)

lemma initialisation_binds_mapped_segments_witness:
  "\<exists>s'. libunstickymem_initialize demo_surroundings demo_linker demo_libc accepting
       (Inr (demo_config Disabled False)) 3 demo_boot = (s', Inr (with_state () demo_map, Disabled)) \<and>
     (\<exists>cs. syscalls (placing s') = map Mbind cs)"
proof -
  obtain s' where s': "libunstickymem_initialize demo_surroundings demo_linker demo_libc accepting
       (Inr (demo_config Disabled False)) 3 demo_boot = (s', Inr (with_state () demo_map, Disabled))"
    by (rule demo_initialize)
  have "memory_object demo_boot = None" "autostart (demo_config Disabled False) \<longrightarrow> selected_mode (demo_config Disabled False) \<noteq> Scan"
    by (simp_all add: demo_boot_def demo_config_def)
  moreover have "libnuma_ok accepting" "page_size_ok (sys_page_size accepting)" by simp_all
  moreover have "list_all (placeable accepting) (map snd (segments (with_state () demo_map)))"
    by (simp add: demo_map_def placeable_def segment_wf_def accepting_def)
  ultimately have "\<exists>cs. syscalls (placing s') = syscalls (placing demo_boot) @ map Mbind cs"
    using initialisation_binds_mapped_segments [OF s'] by blast
  with s' show ?thesis by (simp add: demo_boot_def start_world_def)
qed

text \<open>
  C28: the initialisation without autostart. If the configuration can be read and the map's
  constructor returns with the callbacks of the selected mode, the initialisation returns, at a
  stack depth of two, and does just that: the detour over the two singletons adds nothing
  but the objects themselves and the mark that the library is initialised.
\<close>

theorem initialisation_builds_one_map:
  assumes "read_config v (fst (init_real_functions l s)) = (s1, Inr ())"
    and "MemoryMap e (mode_hooks P (selected_mode c)) (placing s1) = (m, Inr ())"
    and "\<not> autostart c" and "object_space v" and "memory_object s = None" and "runtime_object s = None"
  shows "libunstickymem_initialize v l e P (Inr c) (Suc (Suc d)) s =
    (s1\<lparr>placing := mode_state m, runtime_object := Some (selected_mode c), memory_object := Some (with_state () m),
       init_done := True\<rparr>,
     Inr (with_state () m, selected_mode c))"
proof -
  let ?s2 = "s1\<lparr>placing := mode_state m, runtime_object := Some (selected_mode c),
    memory_object := Some (with_state () m)\<rparr>"
  have "memory_object s1 = None" "runtime_object s1 = None"
    using read_config_keeps [OF assms(1)] assms(5,6) by (simp_all add: init_real_functions_def)
  from memory_getInstance_constructs [OF assms(2,3,4) this]
  have "memory_getInstance v e P (Inr c) (Suc (Suc d)) s1 = (?s2, Inr (with_state () m))" .
  moreover have "runtime_getInstance v e P (Inr c) (Suc (Suc d)) ?s2 = (?s2, Inr (selected_mode c))" by simp
  ultimately show ?thesis using initialize_steps [OF assms(1)] by simp
qed

lemma initialisation_builds_one_map_witness:
  "init_done (fst (libunstickymem_initialize demo_surroundings demo_linker demo_libc accepting
      (Inr (demo_config Disabled False)) (Suc (Suc 0)) demo_boot))"
proof -
  let ?s1 = "fst (read_config demo_surroundings (fst (init_real_functions demo_linker demo_boot)))"
  have k: "selected_mode (demo_config Disabled False) = Disabled" by (simp add: demo_config_def)
  have "MemoryMap demo_libc (mode_hooks accepting (selected_mode (demo_config Disabled False))) (placing ?s1) =
      (with_state (placing ?s1) demo_map, Inr ())"
    unfolding k by (rule demo_world_map)
  from initialisation_builds_one_map [OF demo_read_config this, of 0] show ?thesis
    by (simp add: demo_config_def demo_surroundings_def demo_boot_def)
qed

text \<open>
  C27: the scan mode with autostart. However deep the stack is, the initialisation overflows it:
  the constructor of the map asks for the runtime, whose constructor starts the mode, which
  asks for the map, while neither singleton has been stored.
\<close>

theorem scan_autostart_overflows:
  assumes "MemoryMap e no_hooks w0 = (m0, Inr ())" and "object_space v" and "autostart c" and "selected_mode c = Scan"
    and "memory_object s = None" and "runtime_object s = None"
    and "read_config v (fst (init_real_functions l s)) = (s1, Inr ())"
  shows "snd (libunstickymem_initialize v l e P (Inr c) d s) = Inl (Undefined ''stack overflow'')"
proof -
  have "memory_object s1 = None" "runtime_object s1 = None"
    using read_config_keeps [OF assms(7)] assms(5,6) by (simp_all add: init_real_functions_def)
  from scan_autostart_depth [OF assms(1-4) this]
  have "snd (memory_getInstance v e P (Inr c) d s1) = Inl (Undefined ''stack overflow'')" .
  then show ?thesis
    using assms(7) by (auto simp: libunstickymem_initialize_def init_real_functions_def then_step_def
        split: prod.splits sum.splits)
qed

lemma scan_autostart_overflows_witness:
  "snd (libunstickymem_initialize demo_surroundings demo_linker demo_libc accepting (Inr (demo_config Scan True)) 1000
     demo_boot) = Inl (Undefined ''stack overflow'')"
proof -
  from scan_autostart_overflows [OF demo_constructed _ _ _ _ _ demo_read_config]
  show ?thesis by (simp add: demo_surroundings_def demo_config_def demo_boot_def)
qed

text \<open>
  C37: where the options of a mode come from. The stream of unstickymem.ini is read to its end for
  the options of the library and not set back, so an option of the selected mode has the value
  of the environment, or else its default; what the file says of it is ignored.
\<close>

theorem ini_mode_options_ignored:
  assumes "boost_ok B" and "loadConfiguration B r ini = Inr c" and "(n, d) \<in> set (getOptions (selected_mode c))"
  shows "mode_values c n =
    (case map_of (parse_environment B (map fst (getOptions (selected_mode c)))) n of Some x \<Rightarrow> x | None \<Rightarrow> d)"
proof -
  obtain lib_file ini1 where ini1: "parse_config_file B (map fst lib_options) ini = (lib_file, ini1)" by fastforce
  let ?k = "selected_mode c"
  have no_file: "fst (parse_config_file B names ini1) = []" for names
    using assms(1) ini1 unfolding boost_ok_def by (metis snd_conv)
  from assms(2) ini1 have vals: "notify B (getOptions ?k) (parse_environment B (map fst (getOptions ?k))) [] =
      Inr (mode_values c)"
    by (auto simp: loadConfiguration_def bind_result_Inr_iff case_prod_unfold no_file split: if_splits)
  have "distinct (map fst (getOptions ?k))" by (cases ?k) (simp_all add: mode_option_lists)
  then have "map_of (getOptions ?k) n = Some d" using assms(3) by simp
  with assms(1) vals show ?thesis by (fastforce simp: boost_ok_def split: option.splits)
qed

lemma demo_boost_ok: "boost_ok demo_boost"
  by (auto simp: boost_ok_def demo_boost_def map_add_def split: option.splits)

lemma ini_mode_options_ignored_witness:
  "\<exists>c. loadConfiguration demo_boost [''adaptive'' \<mapsto> Adaptive]
     [(''UNSTICKYMEM_MODE'', ''adaptive''), (''UNSTICKYMEM_NUM_POLLS'', ''5'')] = Inr c \<and>
     mode_values c ''UNSTICKYMEM_NUM_POLLS'' = ''20''"
proof -
  let ?l = "loadConfiguration demo_boost [''adaptive'' \<mapsto> Adaptive]
     [(''UNSTICKYMEM_MODE'', ''adaptive''), (''UNSTICKYMEM_NUM_POLLS'', ''5'')]"
  obtain c where c: "?l = Inr c" "selected_mode c = Adaptive"
    by (simp add: loadConfiguration_def demo_boost_def lib_options_def getMode_def)
  from ini_mode_options_ignored [OF demo_boost_ok c(1), of "''UNSTICKYMEM_NUM_POLLS''" "''20''"] c
  show ?thesis by (simp add: adaptive_options_def demo_boost_def)
qed

end
