(* ===== verification/Adaptive_Turns.thy ===== *)
theory Adaptive_Turns
  imports Adaptive_Search
begin

text \<open>
  What the thread of the adaptive mode asks of the kernel: its run is a sequence of turns, one
  placement of the whole list for each ratio that it tries. Sessions lets such turns come at
  any time between the calls of the program.
\<close>

section \<open>Turns\<close>

fun placements :: "'b platform \<Rightarrow> (memory_segment list \<times> fp) list \<Rightarrow> ('b, unit) step" where
  "placements P [] = done_step ()"
| "placements P ((ss, r) # ts) = then_step (place_all_pages_adaptive P ss r) (\<lambda>_. placements P ts)"

text \<open>The k-th turn finds the list \<open>segs k\<close>.\<close>

fun turns :: "(nat \<Rightarrow> memory_segment list) \<Rightarrow> nat \<Rightarrow> nat list \<Rightarrow> (memory_segment list \<times> fp) list" where
  "turns segs k [] = []"
| "turns segs k (pct # pcts) = (segs k, percentage_ratio pct) # turns segs (k + 1) pcts"

lemma adaptive_within:
  assumes "libnuma_ok P" "page_size_ok (sys_page_size P)" "list_all (placeable P) ss"
    and "place_all_pages_adaptive P ss ratio g = (g', r)"
  shows "\<exists>cs. issued g cs g' \<and> calls_within P ss cs"
  using place_all_pages_adaptive_run [OF assms(1,2) _ assms(4)] assms(3)
  by (fastforce simp: calls_within_def placeable_def list_all_iff)

lemma placements_within:
  assumes "libnuma_ok P" "page_size_ok (sys_page_size P)"
  shows "list_all (\<lambda>(ss, r). list_all (placeable P) ss) ts \<Longrightarrow> placements P ts g = (g', Inr u) \<Longrightarrow>
    \<exists>cs. issued g cs g' \<and> calls_within P (concat (map fst ts)) cs"
proof (induction ts arbitrary: g)
  case Nil
  then show ?case by (intro exI [of _ "[]"]) (simp add: calls_within_def)
next
  case (Cons t ts)
  obtain ss r where t: "t = (ss, r)" by fastforce
  with Cons.prems(2) obtain g1 where g1: "place_all_pages_adaptive P ss r g = (g1, Inr ())"
    "placements P ts g1 = (g', Inr u)" by (auto simp: then_step_Inr_iff)
  from Cons.prems(1) t have "list_all (placeable P) ss" by simp
  from adaptive_within [OF assms this g1(1)] obtain cs where cs: "issued g cs g1" "calls_within P ss cs" by blast
  from Cons.IH [OF _ g1(2)] Cons.prems(1) obtain ds where ds: "issued g1 ds g'"
    "calls_within P (concat (map fst ts)) ds" by auto
  have "calls_within P (concat (map fst (t # ts))) (cs @ ds)"
    using calls_within_mono [OF cs(2), of "concat (map fst (t # ts))"]
      calls_within_mono [OF ds(2), of "concat (map fst (t # ts))"] t
    by (simp add: calls_within_append)
  with issued_trans [OF cs(1) ds(1)] show ?case by blast
qed

lemma turns_placeable:
  "(\<And>k. list_all (placeable P) (segs k)) \<Longrightarrow> list_all (\<lambda>(ss, r). list_all (placeable P) ss) (turns segs k pcts)"
  by (induction pcts arbitrary: k) simp_all

lemma turns_lists: "a \<in> set (concat (map fst (turns segs k pcts))) \<Longrightarrow> \<exists>j. a \<in> set (segs j)"
  by (induction pcts arbitrary: k) (simp, force)

section \<open>The thread\<close>

lemma on_numa_Inr:
  "on_numa f s = (s', Inr x) \<longleftrightarrow> (\<exists>g. f (numa s) = (g, Inr x) \<and> s' = s\<lparr>numa := g\<rparr>)"
  by (auto simp: on_numa_def split: prod.splits)

lemma try_ratio_places:
  assumes "try_ratio P p opt segs r s = (s', Inr rate)"
  shows "place_all_pages_adaptive P segs r (numa s) = (numa s', Inr ())"
  using assms by (auto simp: try_ratio_def then_step_Inr_iff on_counters_Inr on_numa_Inr nap_def)

lemma confirm_worse_numa: "confirm_worse p opt rate best s = (s', Inr stop) \<Longrightarrow> numa s' = numa s"
  by (auto simp: confirm_worse_def then_step_Inr_iff on_counters_Inr split: if_splits)

text \<open>The turns of the loop, one for each logged rate.\<close>

definition in_turns ::
  "'b platform \<Rightarrow> (nat \<Rightarrow> memory_segment list) \<Rightarrow> nat \<Rightarrow> nat list \<Rightarrow> 'b process \<Rightarrow> 'b process \<Rightarrow> fp list \<Rightarrow> bool" where
  "in_turns P segs k cands s s' rates \<longleftrightarrow>
     length rates \<le> length cands \<and> entries s' = entries s @ concat (map trial_log (zip cands rates)) \<and>
     placements P (turns segs k (take (length rates) cands)) (numa s) = (numa s', Inr ())"

lemma in_turns_Cons:
  assumes "entries s1 = entries s @ trial_log (pct, rate)"
    and "place_all_pages_adaptive P (segs k) (percentage_ratio pct) (numa s) = (numa s1, Inr ())"
    and "in_turns P segs (k + 1) cands s1 s' rates"
  shows "in_turns P segs k (pct # cands) s s' (rate # rates)"
  using assms by (simp add: in_turns_def then_step_Inr_iff)

lemma adaptive_loop_turns:
  assumes "adaptive_loop P p opt segs k pct ratio0 best0 s = (s', Inr x)"
  shows "\<exists>rates. in_turns P segs k (candidates pct) s s' rates"
  using assms
proof (induction P p opt segs k pct ratio0 best0 arbitrary: s rule: adaptive_loop.induct)
  case (1 P p opt segs k pct ratio0 best0)
  note run = "1.prems" [unfolded adaptive_loop.simps [of P p opt segs k pct]]
  consider (over) "100 < pct" | (skip) "pct \<le> 100" "pct mod 10 = 0 \<and> pct \<noteq> 100"
    | (tried) "pct \<le> 100" "\<not> (pct mod 10 = 0 \<and> pct \<noteq> 100)" by linarith
  then show ?case
  proof cases
    case over
    with run have "s' = s" by simp
    then show ?thesis by (intro exI [of _ "[]"]) (simp add: in_turns_def)
  next
    case skip
    then have "candidates pct = candidates (pct + 10)" by (subst candidates_step) simp
    with "1.IH"(1) [of s] run skip show ?thesis by (simp add: ADAPTATION_STEP_def)
  next
    case tried
    then have cands: "candidates pct = pct # candidates (pct + 10)" by (subst candidates_step) auto
    from run tried obtain s1 rate s2 stop where
      t: "try_ratio P p opt (segs k) (percentage_ratio pct) s = (s1, Inr rate)" and
      c: "confirm_worse p opt rate (fp_min best0 rate) s1 = (s2, Inr stop)" and
      rest: "(if stop then done_step (percentage_ratio pct, fp_min best0 rate)
        else adaptive_loop P p opt segs (k + 1) (pct + ADAPTATION_STEP) (percentage_ratio pct) (fp_min best0 rate)) s2 =
        (s', Inr x)"
      by (auto simp: then_step_Inr_iff Let_def)
    have first: "entries s2 = entries s @ trial_log (pct, rate)"
      "place_all_pages_adaptive P (segs k) (percentage_ratio pct) (numa s) = (numa s2, Inr ())"
      using try_ratio_log [OF t] confirm_worse_log [OF c] try_ratio_places [OF t] confirm_worse_numa [OF c] by simp_all
    have "\<exists>rates. in_turns P segs (k + 1) (candidates (pct + 10)) s2 s' rates"
    proof (cases stop)
      case True
      with rest have "s' = s2" by simp
      then show ?thesis by (intro exI [of _ "[]"]) (simp add: in_turns_def)
    next
      case False
      with rest have loop: "adaptive_loop P p opt segs (k + 1) (pct + ADAPTATION_STEP) (percentage_ratio pct)
          (fp_min best0 rate) s2 = (s', Inr x)" by simp
      have "\<exists>rates. in_turns P segs (k + 1) (candidates (pct + 10)) s2 s' rates" if "\<not> b" for b
        using "1.IH"(2) [OF _ _ refl _ loop] tried that by (simp add: ADAPTATION_STEP_def)
      from this [of False] show ?thesis by blast
    qed
    then obtain rates where "in_turns P segs (k + 1) (candidates (pct + 10)) s2 s' rates" by blast
    from in_turns_Cons [of s2 s pct rate P segs k, OF first this] cands show ?thesis by auto
  qed
qed

section \<open>Properties\<close>

text \<open>
  C17: the adaptive mode's thread is a sequence of turns. A run that returns makes one placement
  of the list that it finds for each percentage that it tries and logs, in order, and nothing
  else; so all it asks of the kernel is to bind page-aligned ranges, each inside the pages of
  a segment of a list that it found. Segments above 1 MiB are taken to lie in the user
  address range.
\<close>

theorem adaptive_thread_in_turns:
  assumes "1 \<le> configured_nodes P" and "adaptiveThread P p opt segs s = (s', Inr x)"
    and "T = ratios_tried (first_percentage (configured_nodes P))"
    and "libnuma_ok P" and "page_size_ok (sys_page_size P)" and "\<And>k. list_all (placeable P) (segs k)"
  shows "\<exists>rates cs. entries s' = entries s @ concat (map trial_log (zip T rates)) \<and>
    placements P (turns segs 0 (take (length rates) T)) (numa s) = (numa s', Inr ()) \<and>
    numa s' = (numa s)\<lparr>syscalls := syscalls (numa s) @ map Mbind cs\<rparr> \<and>
    (\<forall>c \<in> set cs. page_aligned_call (sys_page_size P) c \<and>
      (\<exists>k. \<exists>a \<in> set (segs k). chunk_bytes (mbind_range c) \<subseteq> aligned_region (sys_page_size P) a))"
proof -
  obtain c1 r1 c2 r2 s3 where
    c1: "get_stall_rate_v2 p (counting s) = (c1, Inr r1)" and
    c2: "get_elapsed_stall_rate p c1 = (c2, Inr r2)" and
    s3: "nap (wait_start opt * 1000000) (s\<lparr>counting := c2\<rparr>) = (s3, Inr ())" and
    loop: "adaptive_loop P p opt segs 0 (first_percentage (configured_nodes P))
      (fp_div binary64 (Fin 1) (fp_of_int binary64 (configured_nodes P))) PInf s3 = (s', Inr x)"
    using assms(2) by (auto simp: adaptiveThread_def then_step_Inr_iff on_counters_Inr)
  have "numa s3 = numa s" using s3 by (auto simp: nap_def)
  moreover have "entries s3 = entries s"
    using get_stall_rate_v2_run [OF c1] get_elapsed_stall_rate_run [OF c2] nap_Inr [OF s3] by (simp add: same_setup_def)
  ultimately have start: "entries s3 = entries s" "numa s3 = numa s" by simp_all
  obtain j where j: "first_percentage (configured_nodes P) = 5 * j" "j \<le> 20"
    by (rule first_percentage_multiple [OF assms(1)])
  from adaptive_loop_turns [OF loop] obtain rates where
    "in_turns P segs 0 (candidates (first_percentage (configured_nodes P))) s3 s' rates" by blast
  then have in_T: "in_turns P segs 0 T s3 s' rates" using candidates_closed_form [OF j(2)] j(1) assms(3) by simp
  then have run: "placements P (turns segs 0 (take (length rates) T)) (numa s) = (numa s', Inr ())"
    using start(2) by (simp add: in_turns_def)
  from placements_within [OF assms(4,5) turns_placeable [OF assms(6)] run] obtain cs where
    "issued (numa s) cs (numa s')" "calls_within P (concat (map fst (turns segs 0 (take (length rates) T)))) cs" by blast
  then have "\<forall>c \<in> set cs. page_aligned_call (sys_page_size P) c \<and>
      (\<exists>k. \<exists>a \<in> set (segs k). chunk_bytes (mbind_range c) \<subseteq> aligned_region (sys_page_size P) a)"
    "numa s' = (numa s)\<lparr>syscalls := syscalls (numa s) @ map Mbind cs\<rparr>"
    unfolding calls_within_def issued_def using turns_lists by blast+
  with in_T run start(1) show ?thesis by (auto simp: in_turns_def)
qed

definition large_block :: memory_segment where
  "large_block = \<lparr>start_address = 0x700000, end_address = 0x8FFFFF, segment_name = ''mmap''\<rparr>"

lemma large_run:
  "snd (adaptiveThread accepting idle_pmu quick_options (\<lambda>_. [large_block]) idle_process) = Inr (Fin 1, Fin 0)"
  by (simp add: concrete_search concrete_run large_block_def segment_length_def place_pages_adaptive_def page_aligned_start_def
        page_aligned_length_def page_aligned_end_def page_align_down_def Let_def)

lemma large_run_pair:
  "adaptiveThread accepting idle_pmu quick_options (\<lambda>_. [large_block]) idle_process =
     (fst (adaptiveThread accepting idle_pmu quick_options (\<lambda>_. [large_block]) idle_process), Inr (Fin 1, Fin 0))"
  using large_run by (simp add: prod_eq_iff)

lemma large_block_placeable: "list_all (placeable accepting) [large_block]"
  by (simp add: large_block_def placeable_def segment_wf_def accepting_def)

lemma adaptive_thread_in_turns_witness:
  "\<exists>(rates :: fp list) cs. placements accepting (turns (\<lambda>_. [large_block]) 0 (take (length rates) [100])) (start_world 25 75) =
     ((start_world 25 75)\<lparr>syscalls := map Mbind cs\<rparr>, Inr ()) \<and>
     list_all (\<lambda>c. chunk_bytes (mbind_range c) \<subseteq> aligned_region 4096 large_block) cs"
proof -
  have P: "1 \<le> configured_nodes accepting" "libnuma_ok accepting" "page_size_ok (sys_page_size accepting)" by simp_all
  have w: "numa idle_process = start_world 25 75" "syscalls (start_world 25 75 :: (nat \<times> nat set) world) = []"
    "sys_page_size accepting = 4096"
    by (simp_all add: idle_process_def start_world_def accepting_def)
  from adaptive_thread_in_turns [OF P(1) large_run_pair refl P(2,3) large_block_placeable,
      unfolded accepting_two_nodes two_nodes_one_ratio w append_Nil]
  obtain rates :: "fp list" and cs where r:
    "placements accepting (turns (\<lambda>_. [large_block]) 0 (take (length rates) [100])) (start_world 25 75) =
      (numa (fst (adaptiveThread accepting idle_pmu quick_options (\<lambda>_. [large_block]) idle_process)), Inr ())"
    "numa (fst (adaptiveThread accepting idle_pmu quick_options (\<lambda>_. [large_block]) idle_process)) =
      (start_world 25 75)\<lparr>syscalls := map Mbind cs\<rparr>"
    "\<forall>c \<in> set cs. page_aligned_call 4096 c \<and>
      (\<exists>k :: nat. \<exists>a \<in> set [large_block]. chunk_bytes (mbind_range c) \<subseteq> aligned_region 4096 a)"
    by blast
  then show ?thesis by (intro exI [of _ rates] exI [of _ cs]) (simp add: list_all_iff)
qed

end
