(* ===== verification/Sessions.thy ===== *)
theory Sessions
  imports Startup_Properties Adaptive_Turns
begin

text \<open>
  The life of the library in a program after its initialisation: calls of the wrapped functions,
  calls of \<open>unstickymem_start\<close> and \<open>unstickymem_initialize\<close>, and the turns of the threads that these
  start, in any order. A turn is one pass over the list of segments, with no other event in
  between (see Interleaving for the steps of a pass); allocations that the library makes in
  its threads count as calls of the program.
\<close>

section \<open>Events\<close>

datatype event =
  Program request
| Start
| Start_initial
| Initial_turn
| Adaptive_turn fp

record 'b session =
  library :: "'b boot"
  wrapped :: "'b world interposition"

abbreviation current_map :: "'b session \<Rightarrow> 'b world memory_map" where
  "current_map w \<equiv> memory (wrapped w)"

abbreviation listed_segments :: "'b session \<Rightarrow> memory_segment list" where
  "listed_segments w \<equiv> map snd (segments (current_map w))"

text \<open>A function of the library sees the map and the kernel as the calls have left them.\<close>

definition in_library :: "('b boot, 'a) run \<Rightarrow> ('b session, 'a) run" where
  "in_library f w =
     (case f ((library w)\<lparr>placing := mode_state (current_map w), memory_object := Some (with_state () (current_map w))\<rparr>) of
        (b, r) \<Rightarrow> (\<lparr>library = b, wrapped = (wrapped w)\<lparr>memory := (current_map w)\<lparr>mode_state := placing b\<rparr>\<rparr>\<rparr>, r))"

definition program_call :: "linker \<Rightarrow> libc \<Rightarrow> 'b platform \<Rightarrow> request \<Rightarrow> ('b session, unit) run" where
  "program_call l e P r w =
     (case runtime_object (library w) of
        None \<Rightarrow> (w, Inl (Undefined ''null runtime pointer''))
      | Some k \<Rightarrow>
          (case interposed_request l e (mode_hooks P k) r (wrapped w) of
             (i, Inl x) \<Rightarrow> (w\<lparr>wrapped := i\<rparr>, Inl x)
           | (i, Inr p) \<Rightarrow> (w\<lparr>wrapped := i\<rparr>, Inr ())))"

text \<open>
  One turn of \<open>memInitThread\<close>, and one \<open>place_all_pages_adaptive\<close> of the other threads, whose runs
  are sequences of such turns (Adaptive_Turns).
\<close>

definition initial_turn :: "'b platform \<Rightarrow> ('b session, unit) run" where
  "initial_turn P w =
     (if mem_init (library w) \<noteq> 0 then (w, Inr ())
      else in_library (on_placing (place_large_segments P (listed_segments w))) w)"

definition adaptive_turn :: "'b platform \<Rightarrow> fp \<Rightarrow> ('b session, unit) run" where
  "adaptive_turn P ratio w = in_library (on_placing (place_all_pages_adaptive P (listed_segments w) ratio)) w"

fun session_event ::
  "surroundings \<Rightarrow> linker \<Rightarrow> libc \<Rightarrow> 'b platform \<Rightarrow> runtime_config result \<Rightarrow> nat \<Rightarrow> event \<Rightarrow> ('b session, unit) run" where
  "session_event v l e P conf d (Program r) = program_call l e P r"
| "session_event v l e P conf d Start = in_library (unstickymem_start v e P conf d)"
| "session_event v l e P conf d Start_initial = in_library unstickymem_initialize"
| "session_event v l e P conf d Initial_turn = initial_turn P"
| "session_event v l e P conf d (Adaptive_turn ratio) = adaptive_turn P ratio"

fun session_all ::
  "surroundings \<Rightarrow> linker \<Rightarrow> libc \<Rightarrow> 'b platform \<Rightarrow> runtime_config result \<Rightarrow> nat \<Rightarrow> event list \<Rightarrow>
    ('b session, unit) run" where
  "session_all v l e P conf d [] = done_step ()"
| "session_all v l e P conf d (ev # evs) =
     then_step (session_event v l e P conf d ev) (\<lambda>_. session_all v l e P conf d evs)"




text \<open>A session begins when the initialisation has returned.\<close>

definition begun_session :: "'b boot \<Rightarrow> unit memory_map \<Rightarrow> 'b session" where
  "begun_session s m = \<lparr>library = s, wrapped = ready s m\<rparr>"

section \<open>One event\<close>

definition session_ok :: "mode_kind \<Rightarrow> 'b session \<Rightarrow> bool" where
  "session_ok k w \<longleftrightarrow>
     list_ok (current_map w) \<and> \<not> bypassed (wrapped w) \<and> \<not> inside_dlsym (wrapped w) \<and> runtime_object (library w) = Some k"


lemma in_library_Inr:
  "in_library f w = (w', Inr x) \<longleftrightarrow>
     (\<exists>b. f ((library w)\<lparr>placing := mode_state (current_map w), memory_object := Some (with_state () (current_map w))\<rparr>) = (b, Inr x) \<and>
       w' = \<lparr>library = b, wrapped = (wrapped w)\<lparr>memory := (current_map w)\<lparr>mode_state := placing b\<rparr>\<rparr>\<rparr>)"
  by (auto simp: in_library_def split: prod.splits)

lemma program_call_Inr:
  "program_call l e P r w = (w', Inr u) \<longleftrightarrow>
     (\<exists>k i p. runtime_object (library w) = Some k \<and>
       interposed_request l e (mode_hooks P k) r (wrapped w) = (i, Inr p) \<and> w' = w\<lparr>wrapped := i\<rparr>)"
  by (auto simp: program_call_def split: option.splits prod.splits sum.splits)

lemma memory_getInstance_stored:
  "memory_object s = Some m \<Longrightarrow> memory_getInstance v e P conf d s = (s', Inr m') \<Longrightarrow> s' = s \<and> m' = m"
  by (cases d) auto

lemma memory_getInstance_update:
  "memory_getInstance v e P conf d (s\<lparr>placing := g, memory_object := Some m\<rparr>) = (s', Inr m') \<Longrightarrow>
     s' = s\<lparr>placing := g, memory_object := Some m\<rparr> \<and> m' = m"
  by (rule memory_getInstance_stored) simp_all







section \<open>All events\<close>



lemma begun_ok:
  assumes "libunstickymem_initialize v l e P conf d s = (s', Inr (m, k))" "memory_object s = None"
  shows "session_ok k (begun_session s' m)" "map_ok (current_map (begun_session s' m))"
  using initialized_ok [OF assms] by (simp_all add: session_ok_def begun_session_def ready_def bypassed_def with_state_def
      map_ok_iff list_ok_def heap_listed_def)

text \<open>The threads that an event starts in a mode.\<close>

fun threads_of :: "mode_kind \<Rightarrow> event \<Rightarrow> string list" where
  "threads_of Adaptive Start = [''AdaptiveMode::adaptiveThread'']"
| "threads_of Fixed_ratio Start = [''FixedRatioMode::pollerThread'']"
| "threads_of Weighted_adaptive Start = [''WeightedAdaptiveMode::adaptiveThread'']"
| "threads_of Weighted_adaptive Start_initial = [''WeightedAdaptiveMode::memInitThread'']"
| "threads_of k ev = []"

lemma event_threads:
  assumes "runtime_object (library w) = Some k" "session_event v l e P conf d ev w = (w', Inr u)"
  shows "runtime_object (library w') = Some k \<and>
    threads_started (library w') = threads_started (library w) @ threads_of k ev \<and>
    mem_init (library w') = (if k = Weighted_adaptive \<and> ev = Start then 1 else mem_init (library w))"
proof (cases ev)
  case (Program r)
  with assms show ?thesis by (cases k) (auto simp: program_call_Inr)
next
  case Start
  show ?thesis
  proof (cases "k = Scan")
    case True
    with Start assms show ?thesis
      by (auto simp: in_library_Inr unstickymem_start_def then_step_Inr_iff on_placing_Inr dest!: memory_getInstance_update)
  next
    case False
    with Start assms show ?thesis
      by (cases k) (auto simp: in_library_Inr unstickymem_start_def start_thread_def)
  qed
next
  case Start_initial
  with assms show ?thesis
    by (cases k) (auto simp: in_library_Inr unstickymem_initialize_def startMemoryInitialization_def start_thread_def)
next
  case Initial_turn
  with assms show ?thesis
    by (cases k) (auto simp: initial_turn_def in_library_Inr on_placing_Inr split: if_splits)
next
  case (Adaptive_turn ratio)
  with assms show ?thesis by (cases k) (auto simp: adaptive_turn_def in_library_Inr on_placing_Inr)
qed

lemma all_threads:
  "runtime_object (library w) = Some k \<Longrightarrow> session_all v l e P conf d evs w = (w', Inr u) \<Longrightarrow>
    runtime_object (library w') = Some k \<and>
    threads_started (library w') = threads_started (library w) @ concat (map (threads_of k) evs) \<and>
    mem_init (library w') = (if k = Weighted_adaptive \<and> Start \<in> set evs then 1 else mem_init (library w))"
proof (induction evs arbitrary: w)
  case (Cons ev evs)
  from Cons.prems(2) obtain w1 where w1: "session_event v l e P conf d ev w = (w1, Inr ())"
    "session_all v l e P conf d evs w1 = (w', Inr u)" by (auto simp: then_step_Inr_iff)
  from event_threads [OF Cons.prems(1) w1(1)] Cons.IH [OF _ w1(2)] show ?case by auto
qed simp

section \<open>Properties\<close>










text \<open>
  Which threads run. Each call of \<open>unstickymem_start\<close> and \<open>unstickymem_initialize\<close> starts the
  thread of its mode, as often as it is called, and nothing else starts or stops one; in the
  weighted adaptive mode the initial placement has no effect from the first
  \<open>unstickymem_start\<close> on.
\<close>

theorem session_threads:
  assumes "libunstickymem_initialize v l e P conf d s = (s', Inr (m, k))" and "memory_object s = None"
    and "session_all v l e P conf d evs (begun_session s' m) = (w, Inr u)"
  shows "threads_started (library w) = threads_started s' @ concat (map (threads_of k) evs) \<and>
    (k = Weighted_adaptive \<and> Start \<in> set evs \<longrightarrow>
      mem_init (library w) = 1 \<and> session_event v l e P conf d Initial_turn w = (w, Inr ()))"
  using all_threads [OF _ assms(3)] begun_ok(1) [OF assms(1,2)]
  by (auto simp: session_ok_def begun_session_def initial_turn_def)

text \<open>The small process in the weighted adaptive mode: initialise, then start.\<close>

lemma session_threads_witness:
  "\<exists>s' m (w :: (nat \<times> nat set) session).
     libunstickymem_initialize demo_surroundings demo_linker demo_libc accepting
       (Inr (demo_config Weighted_adaptive False)) 3 demo_boot = (s', Inr (m, Weighted_adaptive)) \<and>
     threads_started (library w) = threads_started s' @
       [''WeightedAdaptiveMode::memInitThread'', ''WeightedAdaptiveMode::adaptiveThread''] \<and>
     mem_init (library w) = 1"
proof -
  let ?c = "Inr (demo_config Weighted_adaptive False)" and ?evs = "[Start_initial, Start]"
  let ?run = "MemoryMap demo_libc (mode_hooks accepting Weighted_adaptive)
     (placing (fst (read_config demo_surroundings (fst (init_real_functions demo_linker demo_boot)))))"
  have "snd ?run = Inr ()" by code_simp
  then have "?run = (fst ?run, Inr ())" by (simp add: prod_eq_iff)
  from demo_initialize_mode [OF this] obtain s' where
    s': "libunstickymem_initialize demo_surroundings demo_linker demo_libc accepting ?c 3 demo_boot =
      (s', Inr (with_state () (fst ?run), Weighted_adaptive))" by blast
  let ?b = "begun_session s' (with_state () (fst ?run))"
  have "runtime_object (library ?b) = Some Weighted_adaptive"
    using begun_ok(1) [OF s'] by (simp add: session_ok_def demo_boot_def)
  then obtain w where w: "session_all demo_surroundings demo_linker demo_libc accepting ?c 3 ?evs ?b = (w, Inr ())"
    by (simp add: then_step_Inr_iff in_library_Inr unstickymem_initialize_def startMemoryInitialization_def
        unstickymem_start_def start_thread_def step_simps)
  from session_threads [OF s' _ w] s' show ?thesis by (auto simp: demo_boot_def)
qed

end
