(* ===== verification/Logging.thy ===== *)
theory Logging
  imports Startup
begin

text \<open>
  include/unstickymem/Logger.hpp: the levels, which messages are printed, how the level is set by
  name and the time stamp of a line; and of include/better-enums/enum.h the conversions
  between a level and its name that the logger uses. The clock is a parameter. A printed line
  is kept as its stamp, level and message; the colours, the process id and the place in the
  source are not.
\<close>

section \<open>Levels\<close>

datatype LogLevel = TRACE | DEBUG | INFO | WARN | ERROR | FATAL | OFF

definition level_array :: "LogLevel list" where
  "level_array = [TRACE, DEBUG, INFO, WARN, ERROR, FATAL, OFF]"

fun level_value :: "LogLevel \<Rightarrow> nat" where
  "level_value TRACE = 0"
| "level_value DEBUG = 1"
| "level_value INFO = 2"
| "level_value WARN = 3"
| "level_value ERROR = 4"
| "level_value FATAL = 5"
| "level_value OFF = 6"

lemma level_value_inject [simp]: "level_value a = level_value b \<longleftrightarrow> a = b"
  by (cases a; cases b) simp_all

text \<open>Levels are compared by their values.\<close>

instantiation LogLevel :: linorder
begin

definition less_eq_LogLevel :: "LogLevel \<Rightarrow> LogLevel \<Rightarrow> bool" where
  "a \<le> b \<longleftrightarrow> level_value a \<le> level_value b"

definition less_LogLevel :: "LogLevel \<Rightarrow> LogLevel \<Rightarrow> bool" where
  "a < b \<longleftrightarrow> level_value a < level_value b"

instance
  by standard (auto simp: less_eq_LogLevel_def less_LogLevel_def)

end

section \<open>Names of levels\<close>

text \<open>C strings: the end of a list, or a null character, ends the string.\<close>

definition at_end :: "string \<Rightarrow> bool" where
  "at_end s \<longleftrightarrow> (case s of [] \<Rightarrow> True | c # _ \<Rightarrow> c = CHR 0x00)"

definition ends_name :: "char \<Rightarrow> bool" where
  "ends_name c \<longleftrightarrow> c \<in> {CHR ''='', CHR '' '', CHR 0x09, CHR 0x0A, CHR 0x00}"

definition to_lower_ascii :: "char \<Rightarrow> char" where
  "to_lower_ascii c = (let n = of_char c :: nat in if 0x41 \<le> n \<and> n \<le> 0x5A then char_of (n + 0x20) else c)"

fun names_match_nocase :: "string \<Rightarrow> string \<Rightarrow> bool" where
  "names_match_nocase [] r = at_end r"
| "names_match_nocase (c # cs) r =
     (if ends_name c then at_end r
      else if at_end r then False
      else if to_lower_ascii c \<noteq> to_lower_ascii (hd r) then False
      else names_match_nocase cs (tl r))"

definition raw_names :: "string list" where
  "raw_names = [''TRACE'', ''DEBUG'', ''INFO'', ''WARN'', ''ERROR'', ''FATAL'', ''OFF'']"

fun from_string_nocase_loop :: "string list \<Rightarrow> string \<Rightarrow> nat \<Rightarrow> nat option" where
  "from_string_nocase_loop [] name index = None"
| "from_string_nocase_loop (n # ns) name index =
     (if names_match_nocase n name then Some index else from_string_nocase_loop ns name (index + 1))"

definition is_valid_nocase :: "string \<Rightarrow> bool" where
  "is_valid_nocase name \<longleftrightarrow> from_string_nocase_loop raw_names name 0 \<noteq> None"

definition from_string_nocase :: "string \<Rightarrow> LogLevel result" where
  "from_string_nocase name =
     (case from_string_nocase_loop raw_names name 0 of
        Some i \<Rightarrow> Inr (level_array ! i)
      | None \<Rightarrow> Inl (Aborted ''LogLevel::_from_string_nocase: invalid argument''))"

fun from_value_loop :: "LogLevel list \<Rightarrow> nat \<Rightarrow> nat \<Rightarrow> nat option" where
  "from_value_loop [] v index = None"
| "from_value_loop (a # as) v index = (if level_value a = v then Some index else from_value_loop as v (index + 1))"

definition to_string :: "LogLevel \<Rightarrow> string" where
  "to_string l =
     (case from_value_loop level_array (level_value l) 0 of Some i \<Rightarrow> raw_names ! i | None \<Rightarrow> [])"

section \<open>Time stamps\<close>

record timespec =
  tv_sec :: int
  tv_nsec :: int

definition elapsed :: "timespec \<Rightarrow> timespec \<Rightarrow> timespec" where
  "elapsed start now =
     (if tv_nsec now < tv_nsec start
      then \<lparr>tv_sec = tv_sec now - tv_sec start - 1, tv_nsec = tv_nsec now - tv_nsec start + 1000000000\<rparr>
      else \<lparr>tv_sec = tv_sec now - tv_sec start, tv_nsec = tv_nsec now - tv_nsec start\<rparr>)"

text \<open>The conversions \<open>%05\<close> and \<open>%09\<close> of a decimal number.\<close>

fun decimal :: "nat \<Rightarrow> string" where
  "decimal n = (if n < 10 then [char_of (48 + n)] else decimal (n div 10) @ [char_of (48 + n mod 10)])"

declare decimal.simps [simp del]

definition zero_padded :: "nat \<Rightarrow> int \<Rightarrow> string" where
  "zero_padded w n =
     (let ds = decimal (nat \<bar>n\<bar>)
      in if n < 0 then CHR ''-'' # replicate (w - 1 - length ds) (CHR ''0'') @ ds
         else replicate (w - length ds) (CHR ''0'') @ ds)"

text \<open>\<open>snprintf\<close> keeps 31 characters.\<close>

definition getElapsedTimeString :: "timespec \<Rightarrow> timespec \<Rightarrow> string" where
  "getElapsedTimeString start now =
     (let e = elapsed start now
      in take 31 (zero_padded 5 (tv_sec e) @ ''.'' @ zero_padded 9 (tv_nsec e)))"

section \<open>The logger\<close>

record logger =
  startTime :: timespec
  loglevel :: LogLevel
  clock_reads :: nat
  lines_printed :: "(string \<times> LogLevel \<times> string) list"

definition new_logger :: "(nat \<Rightarrow> timespec) \<Rightarrow> logger" where
  "new_logger clock = \<lparr>startTime = clock 0, loglevel = DEBUG, clock_reads = 1, lines_printed = []\<rparr>"

definition should_log :: "LogLevel \<Rightarrow> logger \<Rightarrow> bool" where
  "should_log lvl s \<longleftrightarrow> loglevel s \<le> lvl"

definition log_message :: "(nat \<Rightarrow> timespec) \<Rightarrow> LogLevel \<Rightarrow> string \<Rightarrow> logger \<Rightarrow> logger" where
  "log_message clock lvl msg s =
     (if \<not> should_log lvl s then s
      else s\<lparr>clock_reads := clock_reads s + 1,
             lines_printed := lines_printed s @
               [(getElapsedTimeString (startTime s) (clock (clock_reads s)), lvl, msg)]\<rparr>)"

definition set_loglevel :: "(nat \<Rightarrow> timespec) \<Rightarrow> LogLevel \<Rightarrow> logger \<Rightarrow> logger" where
  "set_loglevel clock level s =
     (log_message clock INFO (''Log level: '' @ to_string level) s)\<lparr>loglevel := level\<rparr>"

definition set_loglevel_by_name :: "(nat \<Rightarrow> timespec) \<Rightarrow> string \<Rightarrow> (logger, unit) run" where
  "set_loglevel_by_name clock name s =
     (let c_name = takeWhile (\<lambda>c. c \<noteq> CHR 0x00) name
      in if \<not> is_valid_nocase c_name
         then (log_message clock ERROR (''Invalid '' @ [CHR 0x27] @ c_name @ [CHR 0x27] @ '' loglevel'') s, Inr ())
         else then_step (lift_result (from_string_nocase c_name))
           (\<lambda>l s. (set_loglevel clock l s, Inr ())) s)"

text \<open>The functions behind \<open>LTRACE\<close> to \<open>LFATAL\<close>.\<close>

definition log_trace :: "(nat \<Rightarrow> timespec) \<Rightarrow> string \<Rightarrow> logger \<Rightarrow> logger" where
  "log_trace clock msg = log_message clock TRACE msg"

definition log_debug :: "(nat \<Rightarrow> timespec) \<Rightarrow> string \<Rightarrow> logger \<Rightarrow> logger" where
  "log_debug clock msg = log_message clock DEBUG msg"

definition log_info :: "(nat \<Rightarrow> timespec) \<Rightarrow> string \<Rightarrow> logger \<Rightarrow> logger" where
  "log_info clock msg = log_message clock INFO msg"

definition log_warn :: "(nat \<Rightarrow> timespec) \<Rightarrow> string \<Rightarrow> logger \<Rightarrow> logger" where
  "log_warn clock msg = log_message clock WARN msg"

definition log_error :: "(nat \<Rightarrow> timespec) \<Rightarrow> string \<Rightarrow> logger \<Rightarrow> logger" where
  "log_error clock msg = log_message clock ERROR msg"

definition log_fatal :: "(nat \<Rightarrow> timespec) \<Rightarrow> string \<Rightarrow> logger \<Rightarrow> logger" where
  "log_fatal clock msg = log_message clock FATAL msg"

text \<open>\<open>DIE\<close>: three lines, then \<open>abort()\<close>. What \<open>strerror\<close> and \<open>dlerror\<close> say are arguments.\<close>

definition die :: "(nat \<Rightarrow> timespec) \<Rightarrow> string \<Rightarrow> string \<Rightarrow> string \<Rightarrow> (logger, unit) run" where
  "die clock errno_text dlerror_text msg s =
     (log_fatal clock (''dlerror: '' @ dlerror_text)
       (log_fatal clock (''errno:   '' @ errno_text) (log_fatal clock msg s)),
      Inl (Aborted msg))"

text \<open>The end of \<open>Runtime::loadConfiguration\<close>.\<close>

definition configure_logger :: "(nat \<Rightarrow> timespec) \<Rightarrow> runtime_config \<Rightarrow> (logger, unit) run" where
  "configure_logger clock c = set_loglevel_by_name clock (log_level c)"

section \<open>Lemmas\<close>

text \<open>A fatal error is reported with its message first, unless the level is \<open>OFF\<close>, and ends the process.\<close>

lemma die_reports:
  "snd (die clock e d msg s) = Inl (Aborted msg)"
  "map (\<lambda>(stamp, l, m). (l, m)) (lines_printed (fst (die clock e d msg s))) =
     map (\<lambda>(stamp, l, m). (l, m)) (lines_printed s) @
       (if loglevel s = OFF then [] else [(FATAL, msg), (FATAL, ''errno:   '' @ e), (FATAL, ''dlerror: '' @ d)])"
  by (cases "loglevel s"; simp add: die_def log_fatal_def log_message_def should_log_def less_eq_LogLevel_def)+

lemma to_string_simps [simp]:
  "to_string TRACE = ''TRACE''" "to_string DEBUG = ''DEBUG''" "to_string INFO = ''INFO''" "to_string WARN = ''WARN''"
  "to_string ERROR = ''ERROR''" "to_string FATAL = ''FATAL''" "to_string OFF = ''OFF''"
  by (simp_all add: to_string_def level_array_def raw_names_def)

text \<open>Without a character that ends it, a name matches up to case.\<close>

lemma names_match_nocase_iff:
  "list_all (\<lambda>c. \<not> ends_name c) n \<Longrightarrow> CHR 0x00 \<notin> set r \<Longrightarrow>
     names_match_nocase n r \<longleftrightarrow> map to_lower_ascii n = map to_lower_ascii r"
proof (induction n arbitrary: r)
  case Nil
  then show ?case by (cases r) (auto simp: at_end_def)
next
  case (Cons c cs)
  then show ?case by (cases r) (auto simp: at_end_def)
qed

definition same_name :: "string \<Rightarrow> LogLevel \<Rightarrow> bool" where
  "same_name name l \<longleftrightarrow> map to_lower_ascii (to_string l) = map to_lower_ascii name"

lemma matches_level:
  assumes "CHR 0x00 \<notin> set name"
  shows "names_match_nocase (to_string l) name \<longleftrightarrow> same_name name l"
proof -
  have "list_all (\<lambda>l. list_all (\<lambda>c. \<not> ends_name c) (to_string l)) level_array" by code_simp
  moreover have "l \<in> set level_array" by (cases l) (simp_all add: level_array_def)
  ultimately have "list_all (\<lambda>c. \<not> ends_name c) (to_string l)" by (simp add: list_all_iff)
  from names_match_nocase_iff [OF this assms] show ?thesis by (simp add: same_name_def)
qed

lemma same_name_unique:
  assumes "same_name name l" "same_name name k"
  shows "l = k"
proof -
  have "distinct (map (\<lambda>l. map to_lower_ascii (to_string l)) level_array)" by code_simp
  then have inj: "inj_on (\<lambda>l. map to_lower_ascii (to_string l)) (set level_array)" by (simp add: distinct_map)
  have all: "x \<in> set level_array" for x by (cases x) (simp_all add: level_array_def)
  have "map to_lower_ascii (to_string l) = map to_lower_ascii (to_string k)"
    using assms by (simp add: same_name_def)
  from inj_onD [OF inj this all all] show ?thesis .
qed

lemma level_names: "raw_names = map to_string level_array"
  by (simp add: raw_names_def level_array_def)

lemma from_string_loop_levels:
  assumes "CHR 0x00 \<notin> set name"
  shows "from_string_nocase_loop (map to_string ls) name k = Some i \<Longrightarrow>
      k \<le> i \<and> i - k < length ls \<and> same_name name (ls ! (i - k))"
    and "from_string_nocase_loop (map to_string ls) name k = None \<Longrightarrow> list_all (\<lambda>l. \<not> same_name name l) ls"
proof (induction ls arbitrary: k)
  case (Cons l ls)
  {
    case 1
    with matches_level [OF assms, of l] Cons.IH(1) [of "k + 1"] show ?case
      by (fastforce split: if_splits simp: Suc_diff_le [symmetric] Suc_le_eq)
  next
    case 2
    with matches_level [OF assms, of l] Cons.IH(2) [of "k + 1"] show ?case by (simp split: if_splits)
  }
qed simp_all

lemma from_string_levels:
  assumes "CHR 0x00 \<notin> set name"
  shows "is_valid_nocase name \<longleftrightarrow> (\<exists>l. same_name name l)"
    and "same_name name l \<Longrightarrow> from_string_nocase name = Inr l"
proof -
  have all: "x \<in> set level_array" for x by (cases x) (simp_all add: level_array_def)
  note loop = from_string_loop_levels [OF assms, of level_array 0, folded level_names]
  show valid: "is_valid_nocase name \<longleftrightarrow> (\<exists>l. same_name name l)"
    using loop all by (fastforce simp: is_valid_nocase_def list_all_iff)
  assume l: "same_name name l"
  with valid obtain i where i: "from_string_nocase_loop raw_names name 0 = Some i"
    by (auto simp: is_valid_nocase_def)
  with loop(1) l same_name_unique have "level_array ! i = l" by fastforce
  with i show "from_string_nocase name = Inr l" by (simp add: from_string_nocase_def)
qed

text \<open>Decimal strings.\<close>

lemma digit_char: "d < 10 \<Longrightarrow> digit_of 10 (char_of (48 + d)) = Some d"
proof -
  have "list_all (\<lambda>d. digit_of 10 (char_of (48 + d)) = Some d) [0 ..< 10]" by code_simp
  then show "d < 10 \<Longrightarrow> digit_of 10 (char_of (48 + d)) = Some d" by (simp add: list_all_iff)
qed

lemma digits_value_append: "digits_value b acc (xs @ ys) = digits_value b (digits_value b acc xs) ys"
  by (induction xs arbitrary: acc) simp_all

lemma decimal_digits: "list_all (is_digit 10) (decimal n)"
proof (induction n rule: decimal.induct)
  case (1 n)
  then show ?case by (subst decimal.simps) (simp add: is_digit_def [abs_def] digit_char)
qed

lemma decimal_value: "digits_value 10 0 (decimal n) = int n"
proof (induction n rule: decimal.induct)
  case (1 n)
  show ?case
  proof (cases "n < 10")
    case True
    then show ?thesis by (subst decimal.simps) (simp add: digit_char)
  next
    case False
    have "int (n div 10) * 10 + int (n mod 10) = int n" by presburger
    with False 1 show ?thesis by (subst decimal.simps) (simp add: digits_value_append digit_char)
  qed
qed

lemma decimal_length: "n < 10 ^ k \<Longrightarrow> 0 < k \<Longrightarrow> length (decimal n) \<le> k"
proof (induction n arbitrary: k rule: decimal.induct)
  case (1 n)
  show ?case
  proof (cases "n < 10")
    case True
    with 1 show ?thesis by (subst decimal.simps) simp
  next
    case False
    with "1.prems" obtain j where j: "k = Suc j" "0 < j" by (cases k; cases "k - 1") auto
    with "1.prems" have "n div 10 < 10 ^ j" by (simp add: div_less_iff_less_mult)
    with "1.IH" [OF False this j(2)] False j(1) show ?thesis by (subst decimal.simps) simp
  qed
qed

lemma zero_digit: "is_digit 10 (CHR ''0'')"
  by code_simp

lemma zeros_value: "digits_value 10 0 (replicate k (CHR ''0'') @ ds) = digits_value 10 0 ds"
proof -
  have "digits_value 10 0 (replicate k (CHR ''0'')) = 0" by (induction k) (simp_all add: digit_of_def)
  then show ?thesis by (simp add: digits_value_append)
qed

lemma zero_padded_string:
  assumes "0 \<le> n" "n < 10 ^ k" "w \<le> k" "0 < w"
  shows "list_all (is_digit 10) (zero_padded w n)" "digits_value 10 0 (zero_padded w n) = n"
    "w \<le> length (zero_padded w n)" "length (zero_padded w n) \<le> k"
proof -
  have "nat n < 10 ^ k" using assms(1,2) by (simp add: nat_less_iff)
  with assms have "length (decimal (nat n)) \<le> k" by (intro decimal_length) simp_all
  with assms show "length (zero_padded w n) \<le> k" by (simp add: zero_padded_def Let_def)
  show "list_all (is_digit 10) (zero_padded w n)"
    using assms(1) decimal_digits [of "nat n"] zero_digit by (auto simp: zero_padded_def Let_def list_all_iff)
  show "digits_value 10 0 (zero_padded w n) = n" "w \<le> length (zero_padded w n)"
    using assms(1) by (simp_all add: zero_padded_def Let_def zeros_value decimal_value)
qed

definition timespec_ok :: "timespec \<Rightarrow> bool" where
  "timespec_ok t \<longleftrightarrow> 0 \<le> tv_nsec t \<and> tv_nsec t < 1000000000"

definition nanoseconds :: "timespec \<Rightarrow> int" where
  "nanoseconds t = tv_sec t * 1000000000 + tv_nsec t"

lemma elapsed_nanoseconds:
  assumes "timespec_ok start" "timespec_ok now"
  shows "timespec_ok (elapsed start now)" "nanoseconds (elapsed start now) = nanoseconds now - nanoseconds start"
  using assms by (auto simp: timespec_ok_def nanoseconds_def elapsed_def)

section \<open>Properties\<close>

text \<open>
  Setting the level by name. A name of a level in any mixture of cases sets that level; any
  other string leaves it, and says so unless errors are not logged.
\<close>

theorem loglevel_by_name:
  assumes "CHR 0x00 \<notin> set name"
  shows "(same_name name l \<longrightarrow> (\<exists>s'. set_loglevel_by_name clock name s = (s', Inr ()) \<and> loglevel s' = l \<and>
      map snd (lines_printed s') = map snd (lines_printed s) @
        (if loglevel s \<le> INFO then [(INFO, ''Log level: '' @ to_string l)] else []))) \<and>
    ((\<forall>l. \<not> same_name name l) \<longrightarrow> (\<exists>s'. set_loglevel_by_name clock name s = (s', Inr ()) \<and> loglevel s' = loglevel s \<and>
      length (lines_printed s') = length (lines_printed s) + (if loglevel s \<le> ERROR then 1 else 0)))"
proof -
  have name: "takeWhile (\<lambda>c. c \<noteq> CHR 0x00) name = name" using assms by (auto simp: takeWhile_eq_all_conv)
  show ?thesis
    using from_string_levels [OF assms]
    by (auto simp: set_loglevel_by_name_def name set_loglevel_def log_message_def should_log_def then_step_def step_simps)
qed

lemma configured_level:
  "CHR 0x00 \<notin> set (log_level c) \<Longrightarrow> same_name (log_level c) l \<Longrightarrow>
     \<exists>s'. configure_logger clock c s = (s', Inr ()) \<and> loglevel s' = l"
  using loglevel_by_name [of "log_level c" l clock s] by (auto simp: configure_logger_def)

lemma loglevel_by_name_witness:
  "\<exists>s'. set_loglevel_by_name (\<lambda>_. \<lparr>tv_sec = 0, tv_nsec = 0\<rparr>) ''Warn'' (new_logger (\<lambda>_. \<lparr>tv_sec = 0, tv_nsec = 0\<rparr>)) =
     (s', Inr ()) \<and> loglevel s' = WARN"
proof -
  have "same_name ''Warn'' WARN" by code_simp
  with loglevel_by_name [of "''Warn''" WARN] show ?thesis by auto
qed

text \<open>
  The time stamp of a line. It is the seconds, at least five digits, a point, and exactly
  nine digits of nanoseconds, and reading it back gives the time since the start to the
  nanosecond, also when the nanoseconds of the clock are smaller than those at the start.
\<close>

theorem stamp_reads_back:
  assumes "timespec_ok start" and "timespec_ok now" and "nanoseconds start \<le> nanoseconds now"
    and "nanoseconds now - nanoseconds start < 10 ^ 28"
  shows "\<exists>a b. getElapsedTimeString start now = a @ ''.'' @ b \<and>
    list_all (is_digit 10) a \<and> list_all (is_digit 10) b \<and> 5 \<le> length a \<and> length b = 9 \<and>
    digits_value 10 0 a * 1000000000 + digits_value 10 0 b = nanoseconds now - nanoseconds start"
proof -
  let ?e = "elapsed start now"
  note e = elapsed_nanoseconds [OF assms(1,2)]
  have "0 \<le> tv_nsec ?e" "tv_nsec ?e < 10 ^ 9" using e(1) by (simp_all add: timespec_ok_def)
  moreover from this e(2) assms(3,4) have "0 \<le> tv_sec ?e" "tv_sec ?e < 10 ^ 19" by (auto simp: nanoseconds_def)
  ultimately have a: "list_all (is_digit 10) (zero_padded 5 (tv_sec ?e))"
      "digits_value 10 0 (zero_padded 5 (tv_sec ?e)) = tv_sec ?e"
      "5 \<le> length (zero_padded 5 (tv_sec ?e))" "length (zero_padded 5 (tv_sec ?e)) \<le> 19"
    and b: "list_all (is_digit 10) (zero_padded 9 (tv_nsec ?e))"
      "digits_value 10 0 (zero_padded 9 (tv_nsec ?e)) = tv_nsec ?e" "length (zero_padded 9 (tv_nsec ?e)) = 9"
    using zero_padded_string [of "tv_sec ?e" 19 5] zero_padded_string [of "tv_nsec ?e" 9 9] by (simp_all add: le_antisym)
  with e(2) show ?thesis
    by (intro exI [of _ "zero_padded 5 (tv_sec ?e)"] exI [of _ "zero_padded 9 (tv_nsec ?e)"])
      (simp add: getElapsedTimeString_def Let_def nanoseconds_def)
qed

lemma stamp_reads_back_witness:
  "\<exists>a b. getElapsedTimeString \<lparr>tv_sec = 41, tv_nsec = 999999999\<rparr> \<lparr>tv_sec = 43, tv_nsec = 1\<rparr> = a @ ''.'' @ b \<and>
     digits_value 10 0 a * 1000000000 + digits_value 10 0 b = 1000000002"
  using stamp_reads_back [of "\<lparr>tv_sec = 41, tv_nsec = 999999999\<rparr>" "\<lparr>tv_sec = 43, tv_nsec = 1\<rparr>"]
  by (auto simp: timespec_ok_def nanoseconds_def)

end
