(* ===== verification/Interleaving.thy ===== *)
theory Interleaving
  imports Mode_Properties "HOL-Library.Sublist"
begin

text \<open>
  A mode's thread and the program. The thread of a mode walks over the list of segments
  (\<open>place_all_pages_adaptive\<close> of PagePlacement.cpp, with the iterators of MemoryMap.cpp) without the
  lock that the handlers of the map take, and the handlers release and allocate memory
  outside that lock. The steps of the thread are interleaved with whole handlers, and the two
  parts of \<open>handle_free\<close> with a handler of another thread.
\<close>

section \<open>The walk over the list\<close>

text \<open>\<open>At i\<close>: about to look at node \<open>i\<close>; \<open>Leaving i\<close>: about to move on from it.\<close>

datatype cursor = At nat | Leaving nat | Finished

record 'b walk =
  walked_map :: "'b world memory_map"
  cursor :: cursor
  looked_at :: "nat list"

fun successor :: "(nat \<times> memory_segment) list \<Rightarrow> nat \<Rightarrow> nat option" where
  "successor [] i = None"
| "successor ((j, s) # ss) i =
     (if j = i then (case ss of [] \<Rightarrow> None | (k, t) # ts \<Rightarrow> Some k) else successor ss i)"

definition cursor_at :: "nat option \<Rightarrow> cursor" where
  "cursor_at p = (case p of None \<Rightarrow> Finished | Some i \<Rightarrow> At i)"

definition begin_walk :: "'b world memory_map \<Rightarrow> 'b walk" where
  "begin_walk m =
     \<lparr>walked_map = m, cursor = cursor_at (case segments m of [] \<Rightarrow> None | (i, s) # ss \<Rightarrow> Some i), looked_at = []\<rparr>"

definition walk_step :: "'b platform \<Rightarrow> fp \<Rightarrow> ('b walk, unit) run" where
  "walk_step P ratio w =
     (case cursor w of
        Finished \<Rightarrow> (w, Inr ())
      | At i \<Rightarrow>
          (case map_of (segments (walked_map w)) i of
             None \<Rightarrow> (w, Inl (Undefined ''dangling iterator''))
           | Some s \<Rightarrow>
               (case in_mode (if 2 ^ 20 < segment_length s then place_pages_adaptive P s ratio else done_step ())
                  (walked_map w) of
                  (m, r) \<Rightarrow> (w\<lparr>walked_map := m, cursor := Leaving i, looked_at := looked_at w @ [i]\<rparr>, r)))
      | Leaving i \<Rightarrow>
          if map_of (segments (walked_map w)) i = None then (w, Inl (Undefined ''dangling iterator''))
          else (w\<lparr>cursor := cursor_at (successor (segments (walked_map w)) i)\<rparr>, Inr ()))"

text \<open>
  All interleavings of the walk with requests of the program; \<open>Q\<close> restricts the requests.
\<close>

inductive walking ::
  "libc \<Rightarrow> 'b world hooks \<Rightarrow> 'b platform \<Rightarrow> fp \<Rightarrow> (request \<Rightarrow> 'b world memory_map \<Rightarrow> bool) \<Rightarrow> 'b walk \<Rightarrow> 'b walk \<Rightarrow> bool"
  for e h P ratio Q w where
  begun: "walking e h P ratio Q w w"
| of_program: "walking e h P ratio Q w t \<Longrightarrow> Q r (walked_map t) \<Longrightarrow> heap_kept e r (walked_map t) \<Longrightarrow>
    handle_request e h r (walked_map t) = (m, Inr p) \<Longrightarrow> walking e h P ratio Q w (t\<lparr>walked_map := m\<rparr>)"
| of_thread: "walking e h P ratio Q w t \<Longrightarrow> walk_step P ratio t = (u, Inr ()) \<Longrightarrow> walking e h P ratio Q w u"

section \<open>Node identities\<close>

abbreviation ids :: "'p memory_map \<Rightarrow> nat list" where
  "ids m \<equiv> map fst (segments m)"

lemma map_of_ids: "map_of (segments m) i = None \<longleftrightarrow> i \<notin> set (ids m)"
  by (auto simp: map_of_eq_None_iff)

lemma set_heap_end_ids: "ids (set_heap_end a m) = ids m"
  by (simp add: set_heap_end_def comp_def case_prod_unfold)

lemma updateHeap_ids:
  assumes "map_ok m" "updateHeap e m = (m', Inr u)"
  shows "ids m' = ids m"
  using assms
  by (auto simp: updateHeap_def then_step_Inr_iff call_runs map_ok_heap set_heap_end_ids split: if_splits)

lemma add_segment_ids: "add_segment h s m = (m', Inr u) \<Longrightarrow> ids m' = ids m @ [next_node m]"
  by (auto simp: add_segment_def in_mode_def emplace_back_def split: prod.splits)

lemma allocation_ids:
  assumes "map_ok m"
    and "then_step (updateHeap e) (\<lambda>_. then_step (in_heap p) (\<lambda>inside.
      then_step (if \<not> inside then add_segment h s else done_step ()) (\<lambda>_. done_step x))) m = (m', Inr y)"
  shows "prefix (ids m) (ids m')"
proof -
  from assms(2) obtain m1 where m1: "updateHeap e m = (m1, Inr ())"
    and rest: "then_step (in_heap p) (\<lambda>inside.
      then_step (if \<not> inside then add_segment h s else done_step ()) (\<lambda>_. done_step x)) m1 = (m', Inr y)"
    by (auto simp: then_step_Inr_iff [of "updateHeap e"])
  have ok: "map_ok m1" using updateHeap_run [OF assms(1) m1] by (simp add: only_heap_end_def)
  from rest have "(if \<not> heap_has m1 p then add_segment h s else done_step ()) m1 = (m', Inr ())"
    unfolding then_in_heap [OF ok] by (auto simp: then_step_Inr_iff)
  with updateHeap_ids [OF assms(1) m1] show ?thesis by (auto dest: add_segment_ids split: if_splits)
qed

lemma realloc_in_heap_ids:
  assumes "map_ok m" "heap_has m q" "handle_realloc e h q n m = (m', Inr p)"
  shows "prefix (ids m) (ids m')"
proof -
  let ?m1 = "m\<lparr>mem_calls := mem_calls m @ [C_realloc q n]\<rparr>" and ?r = "ret_addr e (mem_calls m) (C_realloc q n)"
  have ok1: "map_ok ?m1" using assms(1) by simp
  from assms(3) obtain m2 where m2: "updateHeap e ?m1 = (m2, Inr ())"
    and rest: "then_step (in_heap ?r) (\<lambda>inside.
      then_step (if \<not> True then remove_segments h q else done_step ()) (\<lambda>_.
      then_step (if \<not> inside
        then add_segment h \<lparr>start_address = ?r, end_address = ?r + n - 1, segment_name = ''realloc''\<rparr>
        else done_step ()) (\<lambda>_. done_step ?r))) m2 = (m', Inr p)"
    unfolding handle_realloc_def then_in_heap [OF assms(1)] then_call
    using assms(2) by (auto simp: then_step_Inr_iff [of "updateHeap e"])
  have ok2: "map_ok m2" using updateHeap_run [OF ok1 m2] by (simp add: only_heap_end_def)
  from rest have "(if \<not> heap_has m2 ?r
      then add_segment h \<lparr>start_address = ?r, end_address = ?r + n - 1, segment_name = ''realloc''\<rparr>
      else done_step ()) m2 = (m', Inr ())"
    unfolding then_in_heap [OF ok2] by (auto simp: then_step_Inr_iff)
  with updateHeap_ids [OF ok1 m2] show ?thesis by (auto dest: add_segment_ids split: if_splits)
qed

text \<open>A request that releases nothing only appends nodes.\<close>

lemma request_ids:
  assumes "map_ok m" "released r m = None" "handle_request e h r m = (m', Inr p)"
  shows "prefix (ids m) (ids m')"
proof -
  have tail: "prefix (ids m) (ids m')"
    if "then_step (updateHeap e) (\<lambda>_. then_step (in_heap a) (\<lambda>inside.
      then_step (if \<not> inside then add_segment h s else done_step ()) (\<lambda>_. done_step x)))
        (m\<lparr>mem_calls := cs\<rparr>) = (m', Inr y)" for cs a s and x y :: 'z
    using allocation_ids [OF _ that] assms(1) by simp
  show ?thesis
  proof (cases r)
    case (R_malloc n)
    with assms(3) show ?thesis by (auto simp: handle_malloc_def then_call Let_def intro: tail)
  next
    case (R_calloc k n)
    with assms(3) show ?thesis by (auto simp: handle_calloc_def then_call Let_def intro: tail)
  next
    case (R_realloc q n)
    with assms realloc_in_heap_ids [OF assms(1)] show ?thesis by (auto split: if_splits)
  next
    case (R_reallocarray q k n)
    with assms(3) show ?thesis by (auto simp: handle_reallocarray_def call_runs)
  next
    case (R_free q)
    with assms have "heap_has m q" "\<exists>u. handle_free e h q m = (m', Inr u)"
      by (auto simp: then_step_Inr_iff split: if_splits)
    then obtain u where "updateHeap e (m\<lparr>mem_calls := mem_calls m @ [C_free q]\<rparr>) = (m', Inr u)"
      unfolding handle_free_def then_in_heap [OF assms(1)] then_call by auto
    from updateHeap_ids [OF _ this] assms(1) show ?thesis by simp
  next
    case (R_posix_memalign al n)
    with assms(3) obtain y where "handle_posix_memalign e h al n m = (m', Inr y)"
      by (auto simp: then_step_Inr_iff)
    then show ?thesis by (auto simp: handle_posix_memalign_def then_call Let_def intro: tail)
  next
    case (R_mmap a n prot flags fd off)
    with assms(3) show ?thesis
      by (auto simp: handle_mmap_def then_step_Inr_iff call_runs dest: add_segment_ids)
  next
    case (R_munmap a n)
    with assms(2) show ?thesis by simp
  qed
qed

section \<open>The walk while nothing is released\<close>

lemma successor_nth:
  "distinct (map fst ss) \<Longrightarrow> k < length ss \<Longrightarrow>
     successor ss (fst (ss ! k)) = (if k + 1 < length ss then Some (fst (ss ! (k + 1))) else None)"
proof (induction ss arbitrary: k)
  case (Cons a ss)
  obtain j s where a: "a = (j, s)" by fastforce
  show ?case
  proof (cases k)
    case 0
    then show ?thesis by (cases ss) (auto simp: a)
  next
    case (Suc k')
    with Cons.prems have "j \<noteq> fst (ss ! k')" by (force simp: a)
    with Suc Cons show ?thesis by (simp add: a)
  qed
qed simp

definition walk_inv :: "nat list \<Rightarrow> 'b walk \<Rightarrow> bool" where
  "walk_inv known w \<longleftrightarrow>
     map_ok (walked_map w) \<and> prefix known (ids (walked_map w)) \<and> prefix (looked_at w) (ids (walked_map w)) \<and>
     (case cursor w of
        At i \<Rightarrow> length (looked_at w) < length (segments (walked_map w)) \<and> ids (walked_map w) ! length (looked_at w) = i
      | Leaving i \<Rightarrow> looked_at w \<noteq> [] \<and> last (looked_at w) = i
      | Finished \<Rightarrow> prefix known (looked_at w))"

lemma prefix_nth: "prefix xs ys \<Longrightarrow> k < length xs \<Longrightarrow> ys ! k = xs ! k"
  by (auto simp: prefix_def nth_append)

lemma walk_inv_program:
  assumes "walk_inv known w" "map_ok m" "prefix (ids (walked_map w)) (ids m)"
  shows "walk_inv known (w\<lparr>walked_map := m\<rparr>)"
proof -
  have "length (segments (walked_map w)) \<le> length (segments m)"
    using prefix_length_le [OF assms(3)] by simp
  with assms prefix_nth [OF assms(3)] prefix_order.trans [OF _ assms(3)] show ?thesis
    by (auto simp: walk_inv_def split: cursor.splits)
qed

lemma walk_inv_cursor:
  assumes "walk_inv known w" "cursor w = At i \<or> cursor w = Leaving i"
  shows "i \<in> set (ids (walked_map w))"
  using assms(2)
proof
  assume "cursor w = At i"
  with assms(1) show ?thesis by (auto simp: walk_inv_def nth_mem [of _ "ids (walked_map w)", simplified])
next
  assume "cursor w = Leaving i"
  with assms(1) have "prefix (looked_at w) (ids (walked_map w))" "i \<in> set (looked_at w)"
    by (auto simp: walk_inv_def)
  then show ?thesis using set_mono_prefix by blast
qed

lemma walk_inv_step:
  assumes "walk_inv known w" "walk_step P ratio w = (w', Inr u)"
  shows "walk_inv known w'"
proof (cases "cursor w")
  case (At i)
  let ?m = "walked_map w" and ?k = "length (looked_at w)"
  from assms(1) At have inv: "map_ok ?m" "prefix known (ids ?m)" "prefix (looked_at w) (ids ?m)"
    "?k < length (ids ?m)" "ids ?m ! ?k = i" by (auto simp: walk_inv_def)
  from assms(2) At obtain g where w': "w' = w\<lparr>walked_map := ?m\<lparr>mode_state := g\<rparr>, cursor := Leaving i,
      looked_at := looked_at w @ [i]\<rparr>"
    by (auto simp: walk_step_def in_mode_def split: option.splits prod.splits)
  have "take ?k (ids ?m) = looked_at w" using inv(3) by (auto simp: prefix_def)
  then have "take (Suc ?k) (ids ?m) = looked_at w @ [i]" using inv(4,5) by (simp add: take_Suc_conv_app_nth)
  then have "prefix (looked_at w @ [i]) (ids ?m)" by (metis take_is_prefix)
  with inv show ?thesis by (simp add: walk_inv_def w')
next
  case (Leaving i)
  let ?m = "walked_map w" and ?n = "length (looked_at w) - 1"
  from assms(1) Leaving have inv: "map_ok ?m" "prefix known (ids ?m)" "prefix (looked_at w) (ids ?m)"
    "looked_at w \<noteq> []" "last (looked_at w) = i" by (auto simp: walk_inv_def)
  from assms(2) Leaving have w': "w' = w\<lparr>cursor := cursor_at (successor (segments ?m) i)\<rparr>"
    by (auto simp: walk_step_def split: if_splits)
  have n: "?n < length (looked_at w)" "Suc ?n = length (looked_at w)" using inv(4) by simp_all
  with prefix_length_le [OF inv(3)] have len: "?n < length (segments ?m)" by simp
  have "fst (segments ?m ! ?n) = i"
    using prefix_nth [OF inv(3) n(1)] inv(4,5) len by (simp add: last_conv_nth)
  with successor_nth [OF _ len] inv(1) have succ: "successor (segments ?m) i =
      (if Suc ?n < length (segments ?m) then Some (fst (segments ?m ! Suc ?n)) else None)"
    by (auto simp: map_ok_def)
  show ?thesis
  proof (cases "Suc ?n < length (segments ?m)")
    case True
    with succ inv n(2) show ?thesis by (simp add: walk_inv_def w' cursor_at_def)
  next
    case False
    with n(2) prefix_length_le [OF inv(3)] have "length (looked_at w) = length (ids ?m)" by simp
    moreover obtain zs where "ids ?m = looked_at w @ zs" using inv(3) by (auto simp: prefix_def)
    ultimately have "looked_at w = ids ?m" by (metis append_Nil2 append_eq_append_conv)
    with succ inv False show ?thesis by (simp add: walk_inv_def w' cursor_at_def)
  qed
next
  case Finished
  with assms show ?thesis by (simp add: walk_step_def)
qed

lemma walk_inv_begin:
  assumes "map_ok m"
  shows "walk_inv (ids m) (begin_walk m)"
  using assms by (cases "segments m") (auto simp: walk_inv_def begin_walk_def cursor_at_def)

lemma walking_inv:
  assumes "walking e h P ratio (\<lambda>r m. released r m = None) w w'" "walk_inv known w" "silent_removal h"
  shows "walk_inv known w'"
  using assms(1,2)
proof (induction rule: walking.induct)
  case begun
  then show ?case .
next
  case (of_program t r m p)
  then have inv: "walk_inv known t" by blast
  then have ok: "map_ok (walked_map t)" by (simp add: walk_inv_def)
  from handle_request_run [OF ok assms(3) of_program(4,3)] have "map_ok m" by blast
  from walk_inv_program [OF inv this request_ids [OF ok of_program(2,4)]] show ?case .
next
  case (of_thread t u)
  with walk_inv_step show ?case by blast
qed

section \<open>The parts of handle_free\<close>

text \<open>What happens before the lock is taken, and after.\<close>

definition free_first :: "libc \<Rightarrow> addr \<Rightarrow> ('p, bool) mapping_step" where
  "free_first e p =
     then_step (in_heap p) (\<lambda>was_in_heap. then_step (call_void (C_free p)) (\<lambda>_. done_step was_in_heap))"

definition free_second :: "libc \<Rightarrow> 'p hooks \<Rightarrow> addr \<Rightarrow> bool \<Rightarrow> ('p, unit) mapping_step" where
  "free_second e h p was_in_heap = (if was_in_heap then updateHeap e else remove_segments h p)"

lemma handle_free_parts: "handle_free e h p = then_step (free_first e p) (free_second e h p)"
  by (simp add: handle_free_def free_first_def free_second_def then_step_assoc step_simps)

section \<open>Properties\<close>

text \<open>
  C16: the walk of a mode's thread. However its steps are interleaved with requests of the program
  that release nothing outside the heap, the node that the thread is about to read is in the
  list, and when the walk ends it has looked at every segment that was in the list when it
  began, in order.
\<close>

theorem walk_sees_all_segments:
  assumes "walking e h P ratio (\<lambda>r m. released r m = None) (begin_walk m) w" and "map_ok m" and "silent_removal h"
  shows "(\<forall>i. cursor w = At i \<or> cursor w = Leaving i \<longrightarrow> i \<in> set (ids (walked_map w))) \<and>
    (cursor w = Finished \<longrightarrow> take (length (segments m)) (looked_at w) = ids m)"
proof -
  from walking_inv [OF assms(1) walk_inv_begin [OF assms(2)] assms(3)] have inv: "walk_inv (ids m) w" .
  then have "cursor w = Finished \<longrightarrow> prefix (ids m) (looked_at w)" by (auto simp: walk_inv_def)
  then have "cursor w = Finished \<longrightarrow> take (length (ids m)) (looked_at w) = ids m"
    by (metis append_eq_conv_conj prefix_def)
  with walk_inv_cursor [OF inv] show ?thesis by auto
qed

lemma scan_map_ok: "map_ok scan_map"
  by (simp add: map_ok_def scan_map_def)

lemma walk_sees_all_segments_witness:
  "cursor (fst (walk_step accepting (Fin 1) (begin_walk scan_map))) = Leaving 0 \<and>
   0 \<in> set (ids (walked_map (fst (walk_step accepting (Fin 1) (begin_walk scan_map)))))"
proof -
  let ?w = "fst (walk_step accepting (Fin 1) (begin_walk scan_map))"
  have step: "snd (walk_step accepting (Fin 1) (begin_walk scan_map)) = Inr ()" "cursor ?w = Leaving 0"
    by (simp_all add: walk_step_def begin_walk_def scan_map_def cursor_at_def in_mode_def segment_length_def step_simps)
  then have "walk_step accepting (Fin 1) (begin_walk scan_map) = (?w, Inr ())" by (simp add: prod_eq_iff)
  with begun have "walking demo_libc (mode_hooks accepting Adaptive) accepting (Fin 1) (\<lambda>r m. released r m = None)
      (begin_walk scan_map) ?w"
    by (rule of_thread)
  from walk_sees_all_segments [OF this scan_map_ok modes.removal_silent] step(2) show ?thesis by simp
qed

text \<open>
  C29: a release under the walk. If the program frees the block whose node the thread is at,
  outside the heap, the next step of the thread goes through a dangling iterator.
\<close>

theorem free_under_walk_dangles:
  assumes "map_ok (walked_map w)" and "silent_removal h" and "cursor w = At i \<or> cursor w = Leaving i"
    and "map_of (segments (walked_map w)) i = Some s" and "contains_addr s p" and "\<not> heap_has (walked_map w) p"
    and "handle_request e h (R_free p) (walked_map w) = (m, Inr q)"
  shows "snd (walk_step P ratio (w\<lparr>walked_map := m\<rparr>)) = Inl (Undefined ''dangling iterator'')"
proof -
  let ?m = "walked_map w"
  have m: "segments m = filter (\<lambda>(i, s). \<not> contains_addr s p) (segments ?m)"
    using assms(1,2,6,7)
    by (auto simp: handle_free_def then_in_heap then_call remove_segments_silent then_step_Inr_iff)
  have d: "distinct (map fst (segments ?m))" using assms(1) by (simp add: map_ok_def)
  have "map_of (segments m) i = None"
  proof (rule ccontr)
    assume "map_of (segments m) i \<noteq> None"
    then obtain t where "(i, t) \<in> set (segments m)" by (auto dest: map_of_SomeD)
    with m have t: "(i, t) \<in> set (segments ?m)" "\<not> contains_addr t p" by auto
    with map_of_is_SomeI [OF d t(1)] assms(4,5) show False by simp
  qed
  with assms(3) show ?thesis by (auto simp: walk_step_def)
qed

definition two_segments_map :: "(nat \<times> nat set) world memory_map" where
  "two_segments_map =
     scan_map\<lparr>segments := segments scan_map @ [(1, block ''mmap'' 0x700000 0x200000)], next_node := 2\<rparr>"

lemma free_under_walk_dangles_witness:
  "snd (walk_step accepting (Fin 1)
     \<lparr>walked_map = fst (handle_request demo_libc (mode_hooks accepting Adaptive) (R_free 0x700000) two_segments_map),
      cursor = At 1, looked_at = [0]\<rparr>) = Inl (Undefined ''dangling iterator'')"
proof -
  let ?w = "\<lparr>walked_map = two_segments_map, cursor = At 1, looked_at = [0]\<rparr>"
  let ?m = "fst (handle_request demo_libc (mode_hooks accepting Adaptive) (R_free 0x700000) two_segments_map)"
  have ok: "map_ok two_segments_map" by (simp add: map_ok_def two_segments_map_def scan_map_def)
  have heap: "\<not> heap_has two_segments_map 0x700000"
    by (simp add: heap_has_def heap_segment_def two_segments_map_def scan_map_def contains_addr_def)
  have "\<exists>n. handle_free demo_libc (mode_hooks accepting Adaptive) 0x700000 two_segments_map = (n, Inr ())"
    by (simp add: handle_free_def then_in_heap [OF ok] heap then_call
        remove_segments_silent [OF modes.removal_silent [of accepting Adaptive]] del: mode_hooks.simps)
  then have req: "handle_request demo_libc (mode_hooks accepting Adaptive) (R_free 0x700000) (walked_map ?w) = (?m, Inr 0)"
    by (auto simp add: then_step_def step_simps simp del: mode_hooks.simps)
  have node: "map_of (segments (walked_map ?w)) 1 = Some (block ''mmap'' 0x700000 0x200000)"
    "contains_addr (block ''mmap'' 0x700000 0x200000) 0x700000"
    by (simp_all add: two_segments_map_def scan_map_def block_def contains_addr_def)
  have "map_ok (walked_map ?w)" "\<not> heap_has (walked_map ?w) 0x700000" "cursor ?w = At 1 \<or> cursor ?w = Leaving 1"
    using ok heap by simp_all
  from free_under_walk_dangles [OF this(1) modes.removal_silent this(3) node this(2) req, of accepting "Fin 1"]
  show ?thesis by (simp del: handle_request.simps mode_hooks.simps)
qed

text \<open>
  C30: a release and an allocation in two threads. \<open>free\<close> gives the block back before it removes its
  segment; if another thread is given the same address in between, the removal drops the new
  segment too, and the live block is in no segment of the list.
\<close>

theorem free_drops_reused_block:
  assumes "map_ok m" and "silent_removal h" and "free_first e p m = (m1, Inr False)"
    and "handle_malloc e h n m1 = (m2, Inr p)" and "\<not> heap_has m2 p"
    and "free_second e h p False m2 = (m3, Inr u)"
  shows "block ''malloc'' p n \<in> set (tracked m2) \<and> (\<forall>s \<in> set (tracked m3). \<not> contains_addr s p)"
proof -
  have "map_ok m1" using assms(1,3) by (auto simp: free_first_def then_in_heap then_call)
  with handle_request_run [of m1 h e "R_malloc n" m2 p] assms(2,4,5) have
    m2: "map_ok m2" "tracked m2 = tracked m1 @ [block ''malloc'' p n]"
    by (simp_all add: tracked_after_def)
  from remove_segments_run [OF m2(1) assms(2) _ assms(5), of m3 u] assms(6) m2(2) show ?thesis
    by (auto simp: free_second_def)
qed

lemma free_drops_reused_block_witness:
  "\<not> list_ex (\<lambda>s. contains_addr s 0x700000) (tracked (fst (free_second demo_libc no_hooks 0x700000 False
      (fst (handle_malloc demo_libc no_hooks 4096 (fst (free_first demo_libc 0x700000 demo_map)))))))"
proof -
  let ?m1 = "fst (free_first demo_libc 0x700000 demo_map)"
  let ?m2 = "fst (handle_malloc demo_libc no_hooks 4096 ?m1)"
  let ?m3 = "fst (free_second demo_libc no_hooks 0x700000 False ?m2)"
  have "snd (free_first demo_libc 0x700000 demo_map) = Inr False" by code_simp
  then have 1: "free_first demo_libc 0x700000 demo_map = (?m1, Inr False)" by (simp add: prod_eq_iff)
  have "snd (handle_malloc demo_libc no_hooks 4096 ?m1) = Inr 0x700000" by code_simp
  then have 2: "handle_malloc demo_libc no_hooks 4096 ?m1 = (?m2, Inr 0x700000)" by (simp add: prod_eq_iff)
  have "contains_addr (the (map_of (segments ?m2) (the (heap_ptr ?m2)))) 0x700000 = False" by code_simp
  then have 3: "\<not> heap_has ?m2 0x700000" by (simp add: heap_has_def heap_segment_def)
  have "free_second demo_libc no_hooks 0x700000 False ?m2 = (?m3, Inr ())"
    by (simp add: free_second_def remove_segments_silent prod_eq_iff)
  from free_drops_reused_block [OF demo_ok silent_no_hooks 1 2 3 this] show ?thesis by (auto simp: list_ex_iff)
qed

end
