(* ===== verification/Handler_Steps.thy ===== *)
theory Handler_Steps
  imports Segment_Live
begin

text \<open>
  The handlers of src/unstickymem/memory/MemoryMap.cpp, one access to shared data at a time, with
  \<open>_segments_lock\<close>. The code that a thread has still to run is a value: what it returns, or an
  action on the map with the code that follows it. The locks are those of the
  \<open>std::scoped_lock\<close> objects, which are released at the end of their block. Run without
  interference, this code is the handler of Memory_Map.
\<close>

section \<open>Code\<close>

text \<open>What an action does to the list; \<open>Reads\<close> is any other access, of \<open>*_heap\<close> or of the C library.\<close>

datatype action = Reads | Inserts memory_segment | Announces | Removes addr

datatype 'p code =
  Return addr
| Act action "'p memory_map \<Rightarrow> 'p memory_map \<times> (failure + 'p code)"
| Lock "'p code"
| Unlock "'p code"

definition then_code :: "action \<Rightarrow> ('p, 'a) mapping_step \<Rightarrow> ('a \<Rightarrow> 'p code) \<Rightarrow> 'p code" where
  "then_code l f k = Act l (\<lambda>m. case f m of (m', Inl x) \<Rightarrow> (m', Inl x) | (m', Inr a) \<Rightarrow> (m', Inr (k a)))"

text \<open>
  Without another thread; \<open>held\<close> tells whether the thread has the lock. Taking a lock twice never
  returns, giving back one that is not held is undefined, and a handler gives back what it took.
\<close>

primrec run_alone :: "'p code \<Rightarrow> bool \<Rightarrow> ('p, addr) mapping_step" where
  "run_alone (Return a) = (\<lambda>held. if held then fail_step (Undefined ''lock kept'') else done_step a)"
| "run_alone (Act l f) =
     (\<lambda>held m. case (map_prod id (map_sum id run_alone) \<circ> f) m of
        (m', Inl x) \<Rightarrow> (m', Inl x)
      | (m', Inr r) \<Rightarrow> r held m')"
| "run_alone (Lock c) = (\<lambda>held. if held then fail_step (Undefined ''lock taken twice'') else run_alone c True)"
| "run_alone (Unlock c) = (\<lambda>held. if held then run_alone c False else fail_step (Undefined ''lock not held''))"

section \<open>Parts of the handlers\<close>

text \<open>\<open>_heap->setEndAddress\<close>: the node may have been taken out of the list since the last look.\<close>

definition store_heap_end :: "addr \<Rightarrow> ('p, unit) mapping_step" where
  "store_heap_end b = then_step the_heap (\<lambda>_ m. (set_heap_end b m, Inr ()))"

definition update_code :: "libc \<Rightarrow> 'p code \<Rightarrow> 'p code" where
  "update_code e k =
     then_code Reads (call_addr e C_sbrk_0) (\<lambda>a.
     then_code Reads the_heap (\<lambda>s.
       if end_address s \<noteq> a
       then then_code Reads (call_addr e C_sbrk_0) (\<lambda>b.
            then_code Reads (store_heap_end b) (\<lambda>_. k))
       else k))"

text \<open>\<open>_segments->back()\<close>\<close>

definition list_back :: "('p, memory_segment) mapping_step" where
  "list_back m = (m, if segments m = [] then Inl (Undefined ''back of an empty list'') else Inr (snd (last (segments m))))"

definition insert_code :: "'p hooks \<Rightarrow> memory_segment \<Rightarrow> 'p code \<Rightarrow> 'p code" where
  "insert_code h s k =
     Lock (then_code (Inserts s) (\<lambda>m. (emplace_back s m, Inr ())) (\<lambda>_.
           then_code Reads list_back (\<lambda>t.
           then_code Announces (in_mode (on_addition h t)) (\<lambda>_. Unlock k))))"

definition remove_code :: "'p hooks \<Rightarrow> addr \<Rightarrow> 'p code \<Rightarrow> 'p code" where
  "remove_code h p k = Lock (then_code (Removes p) (remove_segments h p) (\<lambda>_. Unlock k))"

section \<open>The handlers\<close>

definition malloc_code :: "libc \<Rightarrow> 'p hooks \<Rightarrow> u64 \<Rightarrow> 'p code" where
  "malloc_code e h sz =
     then_code Reads (call_addr e (C_malloc sz)) (\<lambda>result.
     update_code e (then_code Reads (in_heap result) (\<lambda>inside.
       if \<not> inside
       then insert_code h \<lparr>start_address = result, end_address = result + sz - 1, segment_name = ''malloc''\<rparr> (Return result)
       else Return result)))"

definition calloc_code :: "libc \<Rightarrow> 'p hooks \<Rightarrow> u64 \<Rightarrow> u64 \<Rightarrow> 'p code" where
  "calloc_code e h nmemb sz =
     then_code Reads (call_addr e (C_calloc nmemb sz)) (\<lambda>result.
     update_code e (then_code Reads (in_heap result) (\<lambda>inside.
       if \<not> inside
       then insert_code h \<lparr>start_address = result, end_address = result + nmemb * sz - 1, segment_name = ''calloc''\<rparr>
         (Return result)
       else Return result)))"

definition realloc_code :: "libc \<Rightarrow> 'p hooks \<Rightarrow> addr \<Rightarrow> u64 \<Rightarrow> 'p code" where
  "realloc_code e h p sz =
     then_code Reads (in_heap p) (\<lambda>was_in_heap.
     then_code Reads (call_addr e (C_realloc p sz)) (\<lambda>result.
     update_code e (then_code Reads (in_heap result) (\<lambda>is_in_heap.
       let rest = (if \<not> is_in_heap
           then insert_code h \<lparr>start_address = result, end_address = result + sz - 1, segment_name = ''realloc''\<rparr>
             (Return result)
           else Return result)
       in if \<not> was_in_heap then remove_code h p rest else rest))))"

definition free_code :: "libc \<Rightarrow> 'p hooks \<Rightarrow> addr \<Rightarrow> 'p code" where
  "free_code e h p =
     then_code Reads (in_heap p) (\<lambda>was_in_heap.
     then_code Reads (call_void (C_free p)) (\<lambda>_.
       if was_in_heap then update_code e (Return 0) else remove_code h p (Return 0)))"

definition posix_memalign_code :: "libc \<Rightarrow> 'p hooks \<Rightarrow> u64 \<Rightarrow> u64 \<Rightarrow> 'p code" where
  "posix_memalign_code e h alignment sz =
     then_code Reads
       (\<lambda>m. let p = ret_addr e (mem_calls m) (C_posix_memalign alignment sz)
            in then_step (call_int e (C_posix_memalign alignment sz)) (\<lambda>_. done_step p) m) (\<lambda>p.
     update_code e (then_code Reads (in_heap p) (\<lambda>inside.
       if \<not> inside
       then insert_code h \<lparr>start_address = p, end_address = p + sz - 1, segment_name = ''posix_memalign''\<rparr> (Return p)
       else Return p)))"

definition mmap_code :: "libc \<Rightarrow> 'p hooks \<Rightarrow> addr \<Rightarrow> u64 \<Rightarrow> int \<Rightarrow> int \<Rightarrow> int \<Rightarrow> int \<Rightarrow> 'p code" where
  "mmap_code e h a len prot flags fd offset =
     then_code Reads (call_addr e (C_mmap a len prot flags fd offset)) (\<lambda>result.
     insert_code h \<lparr>start_address = result, end_address = result + len - 1, segment_name = ''mmap''\<rparr> (Return result))"

definition munmap_code :: "libc \<Rightarrow> 'p hooks \<Rightarrow> addr \<Rightarrow> u64 \<Rightarrow> 'p code" where
  "munmap_code e h a len =
     then_code Reads (call_int e (C_munmap a len)) (\<lambda>_. remove_code h a (Return 0))"

fun request_code :: "libc \<Rightarrow> 'p hooks \<Rightarrow> request \<Rightarrow> 'p code" where
  "request_code e h (R_malloc n) = malloc_code e h n"
| "request_code e h (R_calloc k n) = calloc_code e h k n"
| "request_code e h (R_realloc p n) = realloc_code e h p n"
| "request_code e h (R_reallocarray p k n) = then_code Reads (call_addr e (C_reallocarray p k n)) Return"
| "request_code e h (R_free p) = free_code e h p"
| "request_code e h (R_posix_memalign al n) = posix_memalign_code e h al n"
| "request_code e h (R_mmap a n prot flags fd off) = mmap_code e h a n prot flags fd off"
| "request_code e h (R_munmap a n) = munmap_code e h a n"

section \<open>Without interference\<close>

lemma then_done_step [simp]: "then_step f done_step = f"
  by (auto simp: then_step_def done_step_def fun_eq_iff split: prod.splits sum.splits)

lemma run_then_code: "run_alone (then_code l f k) b = then_step f (\<lambda>a. run_alone (k a) b)"
  by (auto simp: then_code_def then_step_def fun_eq_iff split: prod.splits sum.splits)

lemma then_if: "then_step (if b then f else g) k = (if b then then_step f k else then_step g k)"
  by simp

lemma run_if: "run_alone (if c then f else g) b = (if c then run_alone f b else run_alone g b)"
  by simp

text \<open>Alone, the node that was read is still there when it is written.\<close>

lemma the_heap_calls:
  fixes m :: "'p memory_map"
  shows "the_heap (m\<lparr>mem_calls := cs\<rparr>) = (m\<lparr>mem_calls := cs\<rparr>, snd (the_heap m))"
  by (auto simp: the_heap_def split: option.splits)

lemma run_update_code: "run_alone (update_code e k) b = then_step (updateHeap e) (\<lambda>_. run_alone k b)"
proof (rule ext)
  fix m
  show "run_alone (update_code e k) b m = then_step (updateHeap e) (\<lambda>_. run_alone k b) m"
    by (cases "snd (the_heap m)")
      (simp_all add: update_code_def updateHeap_def run_then_code then_step_def call_addr_def the_heap_calls
        store_heap_end_def done_step_def)
qed

lemma run_insert_code: "run_alone (insert_code h s k) False = then_step (add_segment h s) (\<lambda>_. run_alone k False)"
  by (auto simp: insert_code_def run_then_code then_step_def fun_eq_iff add_segment_def list_back_def emplace_back_def
      split: prod.splits sum.splits)

lemma run_remove_code: "run_alone (remove_code h p k) False = then_step (remove_segments h p) (\<lambda>_. run_alone k False)"
  by (simp add: remove_code_def run_then_code)

lemmas run_code = run_then_code run_update_code run_insert_code run_remove_code run_if

text \<open>
  The steps of a request, run without another thread in between, do to the map what the handler
  of the request does, whether it returns or fails, and keep the lock's discipline.
\<close>

lemma steps_are_handler: "run_alone (request_code e h r) False = handle_request e h r"
proof (cases r)
  case (R_posix_memalign al n)
  then show ?thesis
    by (auto simp: posix_memalign_code_def handle_posix_memalign_def run_code then_step_assoc then_if step_simps Let_def
        then_step_def fun_eq_iff call_int_def split: prod.splits sum.splits)
qed (simp_all add: malloc_code_def calloc_code_def realloc_code_def free_code_def mmap_code_def munmap_code_def
      handle_malloc_def handle_calloc_def handle_realloc_def handle_reallocarray_def handle_free_def handle_mmap_def
      handle_munmap_def run_code then_step_assoc then_if then_step_simps Let_def
      cong: if_cong)

end
