(* ===== verification/Concurrent_Map.thy ===== *)
theory Concurrent_Map
  imports Handler_Steps "HOL-Library.Sublist"
begin

text \<open>
  Any number of threads of the program in the handlers of the memory map at the same time. The
  steps of Handler_Steps are interleaved; a thread at a lock that another one holds waits. The
  critical sections turn out to be one after the other, although the heap's segment and the C
  library are used outside them.
\<close>

section \<open>The system\<close>

record 'p system =
  shared :: "'p memory_map"
  owner :: "nat option"             \<comment> \<open>the thread that holds \<open>_segments_lock\<close>\<close>
  threads :: "'p code list"         \<comment> \<open>what each thread has still to run\<close>
  history :: "action list"          \<comment> \<open>the changes of the list so far\<close>

fun logged :: "action \<Rightarrow> action list" where
  "logged (Inserts s) = [Inserts s]"
| "logged (Removes p) = [Removes p]"
| "logged l = []"

text \<open>
  A step of thread \<open>i\<close>, which makes the request \<open>r\<close> if it is in no handler: it may have to wait,
  and it may end the process.
\<close>

definition thread_step :: "libc \<Rightarrow> 'p hooks \<Rightarrow> nat \<Rightarrow> request \<Rightarrow> 'p system \<Rightarrow> 'p system result option" where
  "thread_step e h i r y =
     (case threads y ! i of
        Return a \<Rightarrow> Some (Inr (y\<lparr>threads := (threads y)[i := request_code e h r]\<rparr>))
      | Act l f \<Rightarrow>
          (case f (shared y) of
             (m, Inl x) \<Rightarrow> Some (Inl x)
           | (m, Inr c) \<Rightarrow>
               Some (Inr (y\<lparr>shared := m, threads := (threads y)[i := c], history := history y @ logged l\<rparr>)))
      | Lock c \<Rightarrow>
          if owner y = None then Some (Inr (y\<lparr>owner := Some i, threads := (threads y)[i := c]\<rparr>)) else None
      | Unlock c \<Rightarrow> Some (Inr (y\<lparr>owner := None, threads := (threads y)[i := c]\<rparr>)))"

inductive reaches :: "libc \<Rightarrow> 'p hooks \<Rightarrow> 'p system \<Rightarrow> 'p system \<Rightarrow> bool" for e h y where
  no_step: "reaches e h y y"
| one_step: "reaches e h y y1 \<Longrightarrow> i < length (threads y1) \<Longrightarrow>
    thread_step e h i r y1 = Some (Inr y2) \<Longrightarrow> reaches e h y y2"

text \<open>The next step of a thread takes the heap's own segment out of the list.\<close>

fun removes_heap :: "'p code \<Rightarrow> 'p memory_map \<Rightarrow> bool" where
  "removes_heap (Act (Removes p) f) m \<longleftrightarrow> heap_has m p"
| "removes_heap c m \<longleftrightarrow> False"

definition idle_system :: "nat \<Rightarrow> 'p memory_map \<Rightarrow> 'p system" where
  "idle_system n m = \<lparr>shared = m, owner = None, threads = replicate n (Return 0), history = []\<rparr>"

fun is_idle :: "'p code \<Rightarrow> bool" where
  "is_idle (Return a) \<longleftrightarrow> True"
| "is_idle c \<longleftrightarrow> False"

text \<open>The changes, one after the other, on the segments other than the heap.\<close>

fun apply_change :: "memory_segment list \<Rightarrow> action \<Rightarrow> memory_segment list" where
  "apply_change ss (Inserts s) = ss @ [s]"
| "apply_change ss (Removes p) = filter (\<lambda>s. \<not> contains_addr s p) ss"
| "apply_change ss l = ss"

fun inserted :: "action list \<Rightarrow> memory_segment list" where
  "inserted [] = []"
| "inserted (Inserts s # ls) = s # inserted ls"
| "inserted (l # ls) = inserted ls"

lemma inserted_append [simp]: "inserted (ls @ ks) = inserted ls @ inserted ks"
  by (induction ls rule: inserted.induct) auto

lemma hears_append:
  "hears h (ss @ ts) w w' \<longleftrightarrow> (\<exists>w1. hears h ss w w1 \<and> hears h ts w1 w')"
  by (induction ss arbitrary: w) auto

section \<open>Sound code\<close>

text \<open>
  Where a thread is: outside a critical section, inside with nothing to announce, inside after
  it has appended a segment, and after it has read it back.
\<close>

datatype phase = Outside | Inside | Appended memory_segment | Chosen memory_segment

text \<open>What a thread may do outside: nothing but set the heap's end.\<close>

definition at_most_heap_end :: "'p memory_map \<Rightarrow> 'p memory_map \<Rightarrow> bool" where
  "at_most_heap_end m m' \<longleftrightarrow>
     (\<exists>cs. m' = m\<lparr>mem_calls := cs\<rparr>) \<or> (\<exists>b. m' = set_heap_end b m)"

inductive sound :: "'p hooks \<Rightarrow> phase \<Rightarrow> 'p code \<Rightarrow> bool" for h where
  returned: "sound h Outside (Return a)"
| entering: "sound h Inside c \<Longrightarrow> sound h Outside (Lock c)"
| leaving: "sound h Outside c \<Longrightarrow> sound h Inside (Unlock c)"
| outside: "\<forall>m m' c. f m = (m', Inr c) \<longrightarrow> at_most_heap_end m m' \<and> sound h Outside c \<Longrightarrow>
    sound h Outside (Act Reads f)"
| appending: "\<forall>m m' c. f m = (m', Inr c) \<longrightarrow> m' = emplace_back s m \<and> sound h (Appended s) c \<Longrightarrow>
    sound h Inside (Act (Inserts s) f)"
| choosing: "\<forall>m m' c. f m = (m', Inr c) \<longrightarrow> segments m \<noteq> [] \<longrightarrow> snd (last (segments m)) = s \<longrightarrow>
      m' = m \<and> sound h (Chosen s) c \<Longrightarrow>
    sound h (Appended s) (Act Reads f)"
| announcing: "\<forall>m m' c. f m = (m', Inr c) \<longrightarrow>
      (\<exists>w. on_addition h s (mode_state m) = (w, Inr ()) \<and> m' = m\<lparr>mode_state := w\<rparr>) \<and> sound h Inside c \<Longrightarrow>
    sound h (Chosen s) (Act Announces f)"
| removing: "\<forall>m m' c. f m = (m', Inr c) \<longrightarrow> remove_segments h p m = (m', Inr ()) \<and> sound h Inside c \<Longrightarrow>
    sound h Inside (Act (Removes p) f)"

inductive_cases sound_Lock: "sound h ph (Lock c)"
inductive_cases sound_Unlock: "sound h ph (Unlock c)"
inductive_cases sound_Return: "sound h ph (Return a)"

lemma then_code_Inr:
  "(case f m of (m', Inl x) \<Rightarrow> (m', Inl x) | (m', Inr a) \<Rightarrow> (m', Inr (k a))) = (m1, Inr c) \<longleftrightarrow>
     (\<exists>a. f m = (m1, Inr a) \<and> c = k a)"
  by (auto split: prod.splits sum.splits)

named_theorems sound_parts "sound parts of a handler"

lemma sound_reads [sound_parts]:
  assumes "\<And>m m' a. f m = (m', Inr a) \<Longrightarrow> at_most_heap_end m m'" "\<And>a. sound h Outside (k a)"
  shows "sound h Outside (then_code Reads f k)"
  unfolding then_code_def using assms by (intro sound.outside) (simp add: then_code_Inr, blast)

lemma only_calls_heap_end [simp]: "at_most_heap_end m m" "at_most_heap_end m (m\<lparr>mem_calls := cs\<rparr>)"
    "at_most_heap_end m (set_heap_end b m)"
proof -
  have "m = m\<lparr>mem_calls := mem_calls m\<rparr>" by simp
  then show "at_most_heap_end m m" unfolding at_most_heap_end_def by blast
qed (auto simp: at_most_heap_end_def)

lemma parts_heap_end:
  "call_addr e c m = (m', Inr a) \<Longrightarrow> at_most_heap_end m m'"
  "call_int e c m = (m', Inr n) \<Longrightarrow> at_most_heap_end m m'"
  "call_void c m = (m', Inr u) \<Longrightarrow> at_most_heap_end m m'"
  "the_heap m = (m', Inr s) \<Longrightarrow> at_most_heap_end m m'"
  "in_heap q m = (m', Inr b) \<Longrightarrow> at_most_heap_end m m'"
  "store_heap_end a m = (m', Inr u') \<Longrightarrow> at_most_heap_end m m'"
  by (auto simp: call_runs in_heap_def store_heap_end_def then_step_Inr_iff the_heap_def split: option.splits)

lemma sound_update [sound_parts]: "sound h Outside k \<Longrightarrow> sound h Outside (update_code e k)"
  unfolding update_code_def by (intro sound_reads) (auto dest: parts_heap_end intro!: sound_reads)

lemma sound_insert [sound_parts]:
  assumes "sound h Outside k"
  shows "sound h Outside (insert_code h s k)"
proof -
  have "sound h Inside (Unlock k)" using assms by (rule sound.leaving)
  then have "sound h (Chosen s) (then_code Announces (in_mode (on_addition h s)) (\<lambda>_. Unlock k))"
    unfolding then_code_def
    by (intro sound.announcing) (auto simp: then_code_Inr in_mode_def split: prod.splits sum.splits)
  then have "sound h (Appended s)
      (then_code Reads list_back (\<lambda>t. then_code Announces (in_mode (on_addition h t)) (\<lambda>_. Unlock k)))"
    unfolding then_code_def [of Reads]
    by (intro sound.choosing) (auto simp: then_code_Inr list_back_def)
  then show ?thesis
    unfolding insert_code_def then_code_def [of "Inserts s"]
    by (intro sound.entering sound.appending) (auto simp: then_code_Inr)
qed

lemma sound_remove [sound_parts]: "sound h Outside k \<Longrightarrow> sound h Outside (remove_code h p k)"
  unfolding remove_code_def then_code_def
  by (intro sound.entering sound.removing) (auto split: prod.splits sum.splits intro: sound.leaving)

lemma sound_request: "sound h Outside (request_code e h r)"
proof -
  have reads: "sound h Outside (then_code Reads f k)"
    if "f = call_addr e c" "\<And>a. sound h Outside (k a)" for f c and k :: "addr \<Rightarrow> 'a code"
    using that by (auto intro: sound_reads dest: parts_heap_end)
  note parts = sound.returned sound_insert sound_remove sound_update
  show ?thesis
    by (cases r)
      (auto simp: malloc_code_def calloc_code_def realloc_code_def free_code_def posix_memalign_code_def mmap_code_def
        munmap_code_def Let_def then_step_Inr_iff dest: parts_heap_end intro!: sound_reads parts)
qed

section \<open>The invariant\<close>

definition list_ends_with :: "memory_segment \<Rightarrow> 'p memory_map \<Rightarrow> bool" where
  "list_ends_with s m \<longleftrightarrow>
     segments m \<noteq> [] \<and> snd (last (segments m)) = s \<and> heap_ptr m \<noteq> Some (fst (last (segments m)))"

text \<open>What the mode has heard when the thread in the critical section is in a phase.\<close>

fun announced :: "'p hooks \<Rightarrow> phase \<Rightarrow> action list \<Rightarrow> 'p \<Rightarrow> 'p memory_map \<Rightarrow> bool" where
  "announced h (Appended s) ls w m \<longleftrightarrow>
     list_ends_with s m \<and> (\<exists>ss. inserted ls = ss @ [s] \<and> hears h ss w (mode_state m))"
| "announced h (Chosen s) ls w m \<longleftrightarrow> (\<exists>ss. inserted ls = ss @ [s] \<and> hears h ss w (mode_state m))"
| "announced h ph ls w m \<longleftrightarrow> hears h (inserted ls) w (mode_state m)"

definition all_sound :: "'p hooks \<Rightarrow> phase \<Rightarrow> 'p system \<Rightarrow> bool" where
  "all_sound h ph y \<longleftrightarrow>
     (\<forall>i < length (threads y). sound h (if owner y = Some i then ph else Outside) (threads y ! i)) \<and>
     (case owner y of None \<Rightarrow> ph = Outside | Some i \<Rightarrow> i < length (threads y) \<and> ph \<noteq> Outside)"

definition system_inv :: "'p hooks \<Rightarrow> 'p memory_map \<Rightarrow> phase \<Rightarrow> 'p system \<Rightarrow> bool" where
  "system_inv h m ph y \<longleftrightarrow>
     all_sound h ph y \<and> list_ok (shared y) \<and> tracked (shared y) = foldl apply_change (tracked m) (history y) \<and>
     announced h ph (history y) (mode_state m) (shared y)"

lemma heap_end_keeps:
  assumes "at_most_heap_end m m'"
  shows "list_ok m' = list_ok m \<and> heap_listed m' = heap_listed m \<and> tracked m' = tracked m \<and>
    mode_state m' = mode_state m \<and> (list_ends_with s m \<longrightarrow> list_ends_with s m')"
  using assms unfolding at_most_heap_end_def
proof
  assume "\<exists>cs. m' = m\<lparr>mem_calls := cs\<rparr>"
  then show ?thesis by (auto simp: list_ends_with_def)
next
  assume "\<exists>b. m' = set_heap_end b m"
  then obtain b where b: "m' = set_heap_end b m" by blast
  have "list_ends_with s m \<longrightarrow> list_ends_with s m'"
    by (auto simp: b set_heap_end_def list_ends_with_def last_map split: prod.splits)
  with b show ?thesis by simp
qed

lemma emplace_back_ends: "list_ok m \<Longrightarrow> list_ends_with s (emplace_back s m)"
  using emplace_back_keeps(4) [of m] by (simp add: list_ends_with_def emplace_back_def)

lemma announced_heap_end:
  assumes "announced h ph ls w m" "at_most_heap_end m m'"
  shows "announced h ph ls w m'"
  using assms(1) heap_end_keeps [OF assms(2)] by (cases ph) auto

text \<open>Replacing what one thread has to run.\<close>

lemma all_sound_same:
  assumes "all_sound h ph y" "i < length (threads y)" "owner y' = owner y" "threads y' = (threads y)[i := c]"
    and "sound h (if owner y = Some i then ph' else Outside) c"
    and "if owner y = Some i then ph' \<noteq> Outside else ph' = ph"
  shows "all_sound h ph' y'"
  using assms by (auto simp: all_sound_def nth_list_update split: option.splits if_splits)

lemma thread_phase:
  assumes "all_sound h ph y" "i < length (threads y)"
  shows "sound h (if owner y = Some i then ph else Outside) (threads y ! i)"
  using assms by (simp add: all_sound_def)

lemma owner_phase:
  "all_sound h ph y \<Longrightarrow> owner y = Some i \<Longrightarrow> ph \<noteq> Outside"
  by (simp add: all_sound_def)

text \<open>An action of a thread outside the critical section, and of the thread inside it.\<close>

abbreviation after_act :: "nat \<Rightarrow> action \<Rightarrow> 'p memory_map \<Rightarrow> 'p code \<Rightarrow> 'p system \<Rightarrow> 'p system" where
  "after_act i l m c y \<equiv> y\<lparr>shared := m, threads := (threads y)[i := c], history := history y @ logged l\<rparr>"

lemma inv_act_outside:
  assumes inv: "system_inv h m0 ph y" and i: "i < length (threads y)" and own: "owner y \<noteq> Some i"
    and act: "threads y ! i = Act l f" "f (shared y) = (m, Inr c)"
  shows "system_inv h m0 ph (after_act i l m c y) \<and> heap_listed m = heap_listed (shared y)"
proof -
  from inv have snd: "all_sound h ph y" by (simp add: system_inv_def)
  from thread_phase [OF snd i] own act(1) have "sound h Outside (Act l f)" by simp
  then have l: "l = Reads" and c: "at_most_heap_end (shared y) m" "sound h Outside c"
    using act(2) by (cases rule: sound.cases; simp; blast)+
  have "all_sound h ph (after_act i l m c y)" using c(2) own by (intro all_sound_same [OF snd i]) auto
  with heap_end_keeps [OF c(1)] announced_heap_end [OF _ c(1)] inv l show ?thesis by (simp add: system_inv_def)
qed

lemma inv_act_inside:
  assumes inv: "system_inv h m0 ph y" and i: "i < length (threads y)" and own: "owner y = Some i"
    and act: "threads y ! i = Act l f" "f (shared y) = (m, Inr c)" and silent: "silent_removal h"
  shows "(\<exists>ph'. system_inv h m0 ph' (after_act i l m c y)) \<and>
    (heap_listed (shared y) \<longrightarrow> \<not> removes_heap (threads y ! i) (shared y) \<longrightarrow> heap_listed m)"
proof -
  let ?m = "shared y" and ?y = "after_act i l m c y"
  from inv have snd: "all_sound h ph y" and ok: "list_ok ?m"
    and tr: "tracked ?m = foldl apply_change (tracked m0) (history y)"
    and an: "announced h ph (history y) (mode_state m0) ?m"
    by (simp_all add: system_inv_def)
  have sound: "all_sound h ph' ?y" if "sound h ph' c" "ph' \<noteq> Outside" for ph'
    using that own by (intro all_sound_same [OF snd i]) auto
  from thread_phase [OF snd i] own act(1) have "sound h ph (Act l f)" by simp
  then show ?thesis
  proof (cases rule: sound.cases)
    case outside
    with owner_phase [OF snd own] show ?thesis by simp
  next
    case (appending s)
    with act(2) have c: "m = emplace_back s ?m" "sound h (Appended s) c" by auto
    moreover have "mode_state m = mode_state ?m" using c(1) by (simp add: emplace_back_def)
    ultimately show ?thesis
      using emplace_back_keeps(1-3) [OF ok, of s] emplace_back_ends [OF ok, of s] an tr sound [OF c(2)] appending(1,2)
      by (intro conjI exI [of _ "Appended s"]) (simp_all add: system_inv_def)
  next
    case (choosing s)
    then have "list_ends_with s ?m" using an by simp
    with choosing act(2) have c: "m = ?m" "sound h (Chosen s) c" by (auto simp: list_ends_with_def)
    with an tr ok sound [OF c(2)] choosing(1,2) show ?thesis
      by (intro conjI exI [of _ "Chosen s"]) (auto simp: system_inv_def)
  next
    case (announcing s)
    with act(2) obtain w where w: "on_addition h s (mode_state ?m) = (w, Inr ())" "m = ?m\<lparr>mode_state := w\<rparr>"
      and c: "sound h Inside c" by blast
    moreover have "hears h (inserted (history y)) (mode_state m0) w" using an announcing(1) w(1) by (auto simp: hears_append)
    ultimately show ?thesis using tr ok sound [OF c] announcing(1,2)
      by (intro conjI exI [of _ Inside]) (simp_all add: system_inv_def)
  next
    case (removing p)
    with act(2) have c: "remove_segments h p ?m = (m, Inr ())" "sound h Inside c" by auto
    have "heap_listed ?m \<longrightarrow> \<not> heap_has ?m p \<longrightarrow> heap_listed m"
      using remove_segments_heap(1) [OF _ silent c(1)] ok by (simp add: map_ok_iff)
    with remove_segments_keeps [OF ok silent c(1)] an tr sound [OF c(2)] removing(1,2) act(1) show ?thesis
      by (intro conjI exI [of _ Inside]) (simp_all add: system_inv_def)
  qed
qed

lemma inv_step:
  assumes inv: "system_inv h m0 ph y" and i: "i < length (threads y)" and silent: "silent_removal h"
    and step: "thread_step e h i r y = Some (Inr y')"
  shows "(\<exists>ph'. system_inv h m0 ph' y') \<and>
    (heap_listed (shared y) \<longrightarrow> \<not> removes_heap (threads y ! i) (shared y) \<longrightarrow> heap_listed (shared y'))"
proof -
  from inv have snd: "all_sound h ph y" by (simp add: system_inv_def)
  note mine = thread_phase [OF snd i]
  show ?thesis
  proof (cases "threads y ! i")
    case (Return a)
    with step have y': "y' = y\<lparr>threads := (threads y)[i := request_code e h r]\<rparr>" by (simp add: thread_step_def)
    have "owner y \<noteq> Some i" using mine Return owner_phase [OF snd] by (auto elim: sound_Return)
    then have "all_sound h ph y'" using y' sound_request by (intro all_sound_same [OF snd i]) auto
    with inv y' show ?thesis by (intro conjI exI [of _ ph]) (simp_all add: system_inv_def)
  next
    case (Lock c)
    with step have free: "owner y = None" and y': "y' = y\<lparr>owner := Some i, threads := (threads y)[i := c]\<rparr>"
      by (auto simp: thread_step_def split: if_splits)
    from mine Lock free have "sound h Inside c" by (auto elim: sound_Lock)
    moreover have "ph = Outside" using snd free by (simp add: all_sound_def)
    ultimately have "all_sound h Inside y'" using snd free y' i by (auto simp: all_sound_def nth_list_update)
    with inv y' \<open>ph = Outside\<close> show ?thesis by (intro conjI exI [of _ Inside]) (simp_all add: system_inv_def)
  next
    case (Unlock c)
    with step have y': "y' = y\<lparr>owner := None, threads := (threads y)[i := c]\<rparr>" by (auto simp: thread_step_def)
    from mine Unlock have own: "owner y = Some i" "ph = Inside" "sound h Outside c"
      by (auto elim: sound_Unlock split: if_splits)
    then have "all_sound h Outside y'" using snd y' i by (auto simp: all_sound_def nth_list_update)
    with inv y' own(2) show ?thesis by (intro conjI exI [of _ Outside]) (simp_all add: system_inv_def)
  next
    case (Act l f)
    with step obtain m c where f: "f (shared y) = (m, Inr c)" and y': "y' = after_act i l m c y"
      by (auto simp: thread_step_def split: prod.splits sum.splits)
    show ?thesis
    proof (cases "owner y = Some i")
      case True
      from inv_act_inside [OF inv i True Act f silent] y' show ?thesis by simp
    next
      case False
      from inv_act_outside [OF inv i False Act f] y' show ?thesis by auto
    qed
  qed
qed

lemma inv_idle: "list_ok m \<Longrightarrow> system_inv h m Outside (idle_system n m)"
  by (simp add: system_inv_def all_sound_def idle_system_def sound.returned)

lemma reaches_inv:
  assumes "reaches e h y0 y" "system_inv h m ph0 y0" "silent_removal h"
  shows "\<exists>ph. system_inv h m ph y"
  using assms(1)
proof (induction rule: reaches.induct)
  case no_step
  with assms(2) show ?case by blast
next
  case (one_step y1 i r y2)
  then obtain ph where "system_inv h m ph y1" by blast
  from inv_step [OF this one_step(2) assms(3) one_step(3)] show ?case by blast
qed

section \<open>Schedules\<close>

fun schedule :: "libc \<Rightarrow> 'p hooks \<Rightarrow> (nat \<times> request) list \<Rightarrow> 'p system \<Rightarrow> 'p system option" where
  "schedule e h [] y = Some y"
| "schedule e h ((i, r) # ts) y =
     (if i < length (threads y)
      then (case thread_step e h i r y of Some (Inr y1) \<Rightarrow> schedule e h ts y1 | _ \<Rightarrow> None)
      else None)"

lemma schedule_reaches: "reaches e h y0 y \<Longrightarrow> schedule e h ts y = Some y' \<Longrightarrow> reaches e h y0 y'"
proof (induction ts arbitrary: y)
  case (Cons t ts)
  obtain i r where t: "t = (i, r)" by fastforce
  with Cons.prems(2) obtain y1 where y1: "i < length (threads y)"
    "thread_step e h i r y = Some (Inr y1)" "schedule e h ts y1 = Some y'"
    by (auto split: if_splits option.splits sum.splits)
  from Cons.IH [OF one_step [OF Cons.prems(1) y1(1,2)] y1(3)] show ?case .
qed simp

text \<open>An allocator that never hands out the same block twice.\<close>

definition fresh_libc :: libc where
  "fresh_libc = demo_libc\<lparr>ret_addr := (\<lambda>cs c. case c of
     C_malloc n \<Rightarrow> 0x700000 + 0x1000 * of_nat (length cs) | C_sbrk_0 \<Rightarrow> 0x622000 | _ \<Rightarrow> 0)\<rparr>"

text \<open>Two threads allocate; both are past the C library's part before the first takes the lock.\<close>

definition two_mallocs :: "(nat \<times> request) list" where
  "two_mallocs =
     map (\<lambda>i. (i, R_malloc 4096)) ([0, 1, 0, 1, 0, 0, 1, 0, 0, 1, 0, 0] @ replicate 3 0 @ [1] @ [0] @ replicate 7 1)"

text \<open>
  The first thread allocates outside the heap; between its look at the heap and its critical
  section the second one unmaps the heap's first page.
\<close>

definition unmap_between :: "(nat \<times> request) list" where
  "unmap_between =
     map (\<lambda>i. (i, if i = 0 then R_malloc 4096 else R_munmap 0x601000 4096))
       (replicate 7 0 @ replicate 5 1 @ replicate 5 0)"

section \<open>Properties\<close>

text \<open>What a thread that is about to change the list or to tell the mode has to hold.\<close>

fun changes_list :: "'p code \<Rightarrow> bool" where
  "changes_list (Act l f) \<longleftrightarrow> l \<noteq> Reads"
| "changes_list c \<longleftrightarrow> False"

text \<open>
  C5: the handlers in several threads. However the steps of any number of threads are
  interleaved, whatever they request: the nodes of the list stay distinct, and the heap's own
  segment stays in it except when an address inside it is removed (so up to such a removal
  the list is well formed); only the holder of the lock changes the list or tells the mode;
  the segments outside the heap are those that the changes of the list, one after the other,
  leave; and between two critical sections the mode has heard of exactly the inserted
  segments, in the order of the list.
\<close>

theorem concurrent_changes_one_by_one:
  assumes "reaches e h (idle_system n m) y" and "map_ok m" and "silent_removal h"
  shows "list_ok (shared y) \<and>
    (\<forall>i r y'. i < length (threads y) \<longrightarrow> thread_step e h i r y = Some (Inr y') \<longrightarrow> heap_listed (shared y) \<longrightarrow>
      \<not> removes_heap (threads y ! i) (shared y) \<longrightarrow> heap_listed (shared y')) \<and>
    (\<forall>i < length (threads y). changes_list (threads y ! i) \<longrightarrow> owner y = Some i) \<and>
    tracked (shared y) = foldl apply_change (tracked m) (history y) \<and>
    (owner y = None \<longrightarrow> hears h (inserted (history y)) (mode_state m) (mode_state (shared y)))"
proof -
  have "list_ok m" using assms(2) by (simp add: map_ok_iff)
  from reaches_inv [OF assms(1) inv_idle [OF this] assms(3)] obtain ph where inv: "system_inv h m ph y" by blast
  then have snd: "all_sound h ph y" by (simp add: system_inv_def)
  have "owner y = Some i" if "i < length (threads y)" "changes_list (threads y ! i)" for i
  proof (rule ccontr)
    assume "owner y \<noteq> Some i"
    with thread_phase [OF snd that(1)] have "sound h Outside (threads y ! i)" by simp
    from this that(2) show False by (cases rule: sound.cases) auto
  qed
  moreover have "owner y = None \<Longrightarrow> ph = Outside" using snd by (simp add: all_sound_def)
  moreover note inv_step [OF inv _ assms(3)]
  ultimately show ?thesis using inv by (auto simp: system_inv_def)
qed

lemma concurrent_changes_one_by_one_witness:
  "\<exists>y. schedule fresh_libc no_hooks unmap_between (idle_system 2 demo_map) = Some y \<and>
     list_ok (shared y) \<and> \<not> heap_listed (shared y) \<and>
     tracked (shared y) =
       filter (\<lambda>s. \<not> contains_addr s 0x601000) (tracked demo_map) @ [block ''malloc'' 0x700000 4096]"
proof -
  let ?y = "schedule fresh_libc no_hooks unmap_between (idle_system 2 demo_map)"
  have "map_option (\<lambda>y. (history y, map_of (segments (shared y)) (the (heap_ptr (shared y))))) ?y =
      Some ([Removes 0x601000, Inserts (block ''malloc'' 0x700000 4096)], None)"
    by code_simp
  then obtain y where y: "?y = Some y"
    "history y = [Removes 0x601000, Inserts (block ''malloc'' 0x700000 4096)]"
    "map_of (segments (shared y)) (the (heap_ptr (shared y))) = None" by auto
  have "\<not> heap_listed (shared y)" using y(3) unfolding heap_listed_def map_of_eq_None_iff by force
  with concurrent_changes_one_by_one [OF schedule_reaches [OF no_step y(1)] demo_ok silent_no_hooks] y
  show ?thesis by simp
qed

text \<open>
  C18: the lock does not deadlock. Whenever some thread is in a handler, some thread that is in a
  handler has a step, or ends the process: no thread waits for a lock that nobody gives back,
  and none takes it twice.
\<close>

theorem lock_never_deadlocks:
  assumes "reaches e h (idle_system n m) y" and "map_ok m" and "silent_removal h"
    and "i < length (threads y)" and "\<not> is_idle (threads y ! i)"
  shows "\<exists>j < length (threads y). \<not> is_idle (threads y ! j) \<and> thread_step e h j r y \<noteq> None"
proof -
  have "list_ok m" using assms(2) by (simp add: map_ok_iff)
  from reaches_inv [OF assms(1) inv_idle [OF this] assms(3)] obtain ph where "all_sound h ph y"
    by (auto simp: system_inv_def)
  note snd = this
  have moves: "thread_step e h j r y \<noteq> None" if "\<And>c. threads y ! j = Lock c \<Longrightarrow> owner y = None" for j
    using that by (auto simp: thread_step_def split: code.splits prod.splits sum.splits)
  show ?thesis
  proof (cases "owner y")
    case None
    with moves assms(4,5) show ?thesis by blast
  next
    case (Some j)
    with snd have j: "j < length (threads y)" "ph \<noteq> Outside" by (simp_all add: all_sound_def)
    from thread_phase [OF snd j(1)] Some have "sound h ph (threads y ! j)" by simp
    with j(2) have "\<not> is_idle (threads y ! j)" "\<And>c. threads y ! j \<noteq> Lock c"
      by (auto elim: sound.cases)
    with moves [of j] j(1) show ?thesis by blast
  qed
qed

lemma lock_never_deadlocks_witness:
  "\<exists>y. schedule fresh_libc no_hooks (take 13 two_mallocs) (idle_system 2 demo_map) = Some y \<and> owner y = Some 0 \<and>
     (\<exists>j. thread_step fresh_libc no_hooks j (R_malloc 4096) y \<noteq> None)"
proof -
  let ?y = "schedule fresh_libc no_hooks (take 13 two_mallocs) (idle_system 2 demo_map)"
  have "map_option (\<lambda>y. (owner y, length (threads y), is_idle (threads y ! 0))) ?y = Some (Some 0, 2, False)"
    by code_simp
  then obtain y where y: "?y = Some y" "owner y = Some 0" "length (threads y) = 2" "\<not> is_idle (threads y ! 0)" by auto
  from lock_never_deadlocks [OF schedule_reaches [OF no_step y(1)] demo_ok silent_no_hooks _ y(4), where r = "R_malloc 4096"] y(3)
  show ?thesis using y(1,2) by auto
qed

end
